(* ===== verification/JYY_Prelude.thy ===== *)
theory JYY_Prelude
  imports Main "HOL-Library.Word"
begin

text \<open>
  Shared vocabulary of the development: the widths of the C integers the kernel uses, the
  ways a kernel routine can fail, sequencing of fallible steps, and the generic facts on
  lists and machine words that several components need.

  The modelled configuration is the one the kernel is built for by default: the
  \<open>x86_64-qemu\<close> target (64-bit \<open>uintptr_t\<close> and \<open>unsigned long\<close>, 32-bit
  \<open>int\<close>), \<open>TEST\<close>, \<open>TRACE_F\<close> and the \<open>DEBUG_*\<close> macros undefined.
\<close>

unbundle bit_operations_syntax

section \<open>Machine integers and failures\<close>

type_synonym u8 = "8 word"
type_synonym u16 = "16 word"
type_synonym u32 = "32 word"
type_synonym u64 = "64 word"
type_synonym addr = "64 word"

text \<open>
  How a routine can fail to return a value. \<open>Panic\<close> is \<open>panic\<close> or \<open>panic_on\<close>
  (the message is kept), \<open>Assert\<close> a failed \<open>assert\<close>, both of which halt the machine;
  \<open>Undefined\<close> is undefined behaviour of C: a read or write outside the object addressed,
  a shift by the width or more; \<open>Hang\<close> is a loop that never ends, such as a spin on a lock nobody releases.
\<close>

datatype failure = Panic string | Assert | Undefined | Hang

type_synonym 'a res = "failure + 'a"

definition res_bind :: "'a res \<Rightarrow> ('a \<Rightarrow> 'b res) \<Rightarrow> 'b res" where
  "res_bind m f = (case m of Inl e \<Rightarrow> Inl e | Inr x \<Rightarrow> f x)"

lemma res_bind_simps [simp]:
  "res_bind (Inl e) f = Inl e"
  "res_bind (Inr x) f = f x"
  by (simp_all add: res_bind_def)

lemma res_bind_eq_Inr:
  "res_bind m f = Inr y \<longleftrightarrow> (\<exists>x. m = Inr x \<and> f x = Inr y)"
  by (cases m) auto

lemma res_bind_eq_Inl:
  "res_bind m f = Inl e \<longleftrightarrow> m = Inl e \<or> (\<exists>x. m = Inr x \<and> f x = Inl e)"
  by (cases m) auto

lemma res_bind_cong [fundef_cong]:
  "m = m' \<Longrightarrow> (\<And>x. m' = Inr x \<Longrightarrow> f x = f' x) \<Longrightarrow> res_bind m f = res_bind m' f'"
  by (cases m') auto

definition require :: "bool \<Rightarrow> failure \<Rightarrow> unit res" where
  "require b e = (if b then Inr () else Inl e)"

lemma require_simps [simp]:
  "b \<Longrightarrow> require b e = Inr ()"
  "\<not> b \<Longrightarrow> require b e = Inl e"
  by (simp_all add: require_def)

lemma require_eq_Inr [simp]: "require b e = Inr u \<longleftrightarrow> b"
  by (simp add: require_def)

section \<open>Rule collections\<close>

named_theorems word_nat_simps "reading machine words as natural numbers"

section \<open>Lists\<close>

lemma nth_append_update:
  "i < length xs \<Longrightarrow> (xs[i := v]) ! i = v"
  by simp

lemma list_update_same_index:
  "j < length xs \<Longrightarrow> i < length xs \<Longrightarrow> (xs[i := v]) ! j = (if j = i then v else xs ! j)"
  by simp

section \<open>Decimal numbers\<close>

text \<open>The decimal digits of a number, as the \<open>printf\<close> of the C library gives them.\<close>

fun decimal :: "nat \<Rightarrow> string" where
  "decimal n = (if n < 10 then [char_of (48 + n)] else decimal (n div 10) @ [char_of (48 + n mod 10)])"

declare decimal.simps [simp del]

section \<open>Linked lists\<close>

text \<open>The chain that starts at \<open>a\<close>, follows \<open>nxt\<close> and ends in the null pointer.\<close>

fun linked :: "(addr \<Rightarrow> addr) \<Rightarrow> addr \<Rightarrow> addr list \<Rightarrow> bool" where
  "linked nxt a [] \<longleftrightarrow> a = 0"
| "linked nxt a (x # xs) \<longleftrightarrow> a = x \<and> x \<noteq> 0 \<and> linked nxt (nxt x) xs"

lemma linked_cong:
  "(\<And>x. x \<in> set xs \<Longrightarrow> nxt x = nxt' x) \<Longrightarrow> linked nxt a xs \<longleftrightarrow> linked nxt' a xs"
  by (induction xs arbitrary: a) auto

lemma linked_upd [simp]: "y \<notin> set xs \<Longrightarrow> linked (nxt(y := v)) a xs \<longleftrightarrow> linked nxt a xs"
  by (rule linked_cong) auto

lemma linked_null: "linked nxt 0 xs \<longleftrightarrow> xs = []"
  by (cases xs) auto

lemma linked_unique: "linked nxt a xs \<Longrightarrow> linked nxt a ys \<Longrightarrow> xs = ys"
proof (induction xs arbitrary: a ys)
  case (Cons x xs)
  then show ?case by (cases ys) auto
qed (simp add: linked_null)

section \<open>Words\<close>

lemma unat_add_nowrap [word_nat_simps]:
  "unat (a :: 'a::len word) + unat b < 2 ^ LENGTH('a) \<Longrightarrow> unat (a + b) = unat a + unat b"
  by (simp add: unat_word_ariths)

lemma unat_sub_le [word_nat_simps]:
  "unat b \<le> unat a \<Longrightarrow> unat ((a :: 'a::len word) - b) = unat a - unat b"
  by (metis unat_sub word_le_nat_alt)

lemma unat_of_nat_small [word_nat_simps]:
  "n < 2 ^ LENGTH('a) \<Longrightarrow> unat (of_nat n :: 'a::len word) = n"
  by (simp add: take_bit_nat_eq_self_iff unat_of_nat)

lemma unat_ucast_up [word_nat_simps]:
  "LENGTH('a) \<le> LENGTH('b) \<Longrightarrow> unat (ucast (w :: 'a::len word) :: 'b::len word) = unat w"
proof -
  assume le: "LENGTH('a) \<le> LENGTH('b)"
  have "unat w < 2 ^ LENGTH('a)" by (rule unsigned_less)
  also have "(2 :: nat) ^ LENGTH('a) \<le> 2 ^ LENGTH('b)" using le by (intro power_increasing) simp_all
  finally show ?thesis by (simp add: unsigned_ucast_eq take_bit_nat_eq_self_iff)
qed

lemma unat_push_bit_small [word_nat_simps]:
  "unat (w :: 'a::len word) * 2 ^ n < 2 ^ LENGTH('a) \<Longrightarrow> unat (push_bit n w) = unat w * 2 ^ n"
  by (simp only: unsigned_push_bit_eq push_bit_nat_def take_bit_nat_eq_self)

lemma unat_drop_bit [word_nat_simps]:
  "unat (drop_bit n (w :: 'a::len word)) = unat w div 2 ^ n"
  by (simp only: unsigned_drop_bit_eq drop_bit_nat_def take_bit_nat_eq_self unsigned_less)

lemma unat_and_mask [word_nat_simps]:
  "unat ((w :: 'a::len word) AND mask n) = unat w mod 2 ^ n"
  by (simp only: take_bit_eq_mask [symmetric] unsigned_take_bit_eq take_bit_nat_def)

lemma and_mask_eq_0_iff: "(w :: 'a::len word) AND mask n = 0 \<longleftrightarrow> 2 ^ n dvd unat w"
proof -
  have "w AND mask n = 0 \<longleftrightarrow> unat (w AND mask n) = 0"
    by (simp add: unsigned_eq_0_iff)
  then show ?thesis by (simp add: unat_and_mask dvd_eq_mod_eq_0)
qed

lemma unat_and_not_mask [word_nat_simps]:
  "unat ((w :: 'a::len word) AND NOT (mask n)) = unat w - unat w mod 2 ^ n"
proof -
  have split: "w AND NOT (mask n) = w - (w AND mask n)"
  proof -
    have "NOT w AND (w AND mask n) = 0" by (rule bit_word_eqI) (simp add: bit_simps)
    then have "w - (w AND mask n) = w AND NOT (w AND mask n)"
      by (rule disjunctive_diff_eq_and_not)
    moreover have "w AND NOT (w AND mask n) = w AND NOT (mask n)"
      by (rule bit_word_eqI) (auto simp: bit_simps)
    ultimately show ?thesis by simp
  qed
  have "unat (w AND mask n) \<le> unat w" by (simp add: unat_and_mask)
  then have "unat (w - (w AND mask n)) = unat w - unat (w AND mask n)"
    by (rule unat_sub_le)
  then show ?thesis by (simp only: split unat_and_mask)
qed

lemma unat_two_power: "a < LENGTH('a) \<Longrightarrow> unat (2 ^ a :: 'a::len word) = 2 ^ a"
  using unat_push_bit_small [of "1 :: 'a word" a] by (simp add: push_bit_eq_mult)

text \<open>An \<open>int\<close> that is not negative keeps its value when it is widened to 64 bits.\<close>

lemma scast_of_nat: "n < 2 ^ 31 \<Longrightarrow> (scast (of_nat n :: 32 word) :: u64) = of_nat n"
proof -
  assume n: "n < 2 ^ 31"
  have "signed_take_bit 31 (int n) = int n"
    using n by (intro signed_take_bit_int_eq_self) auto
  then have "sint (word_of_int (int n) :: 32 word) = int n"
    by (simp only: signed_of_int) simp
  then show ?thesis by (simp add: scast_eq)
qed

end
