(* ===== verification/Lock_Align.thy ===== *)
theory Lock_Align
  imports JYY_Prelude
begin

text \<open>
  \<open>kernel/src/lock.c\<close>: the exchange spin lock and the two alignment helpers every
  allocator uses. The lock is modelled twice: as the value of one uninterrupted call
  (\<open>spin_lock\<close> on a taken lock never returns) and as a step relation of several CPUs that
  interleave between the atomic exchanges.
\<close>

section \<open>The exchange and the lock words\<close>

text \<open>\<open>atomic_xchg(addr, newval)\<close>: the old value and the new content.\<close>

definition atomic_xchg :: "int \<Rightarrow> int \<Rightarrow> int \<times> int" where
  "atomic_xchg lk newval = (lk, newval)"

definition SPIN_LOCK_INIT :: int where
  "SPIN_LOCK_INIT = 0"

text \<open>
  \<open>spin_lock\<close> with nobody else writing the word: either the first exchange returns 0, or
  every later one returns the 1 this loop stored itself.
\<close>

definition spin_lock :: "int \<Rightarrow> int res" where
  "spin_lock lk = (let (value, lk') = atomic_xchg lk 1 in
     if value = 0 then Inr lk' else Inl Hang)"

definition spin_unlock :: "int \<Rightarrow> int" where
  "spin_unlock lk = snd (atomic_xchg lk 0)"

definition try_lock :: "int \<Rightarrow> bool \<times> int" where
  "try_lock lk = (let (value, lk') = atomic_xchg lk 1 in (value = 0, lk'))"

lemma spin_lock_eq: "spin_lock lk = (if lk = 0 then Inr 1 else Inl Hang)"
  by (simp add: spin_lock_def atomic_xchg_def)

lemma spin_unlock_eq [simp]: "spin_unlock lk = 0"
  by (simp add: spin_unlock_def atomic_xchg_def)

lemma try_lock_eq: "try_lock lk = (lk = 0, 1)"
  by (simp add: try_lock_def atomic_xchg_def)

section \<open>Several CPUs on one lock\<close>

text \<open>
  Where a CPU is in its use of the lock. \<open>Spinning\<close> is the loop of \<open>spin_lock\<close>, whose
  body is one exchange.
\<close>

datatype spin_pc = Outside | Spinning | Holding

record spin_sys =
  lk_word :: int
  lk_pc :: "nat \<Rightarrow> spin_pc"

definition spin_init :: spin_sys where
  "spin_init = \<lparr>lk_word = SPIN_LOCK_INIT, lk_pc = (\<lambda>_. Outside)\<rparr>"

text \<open>One iteration of the loop of \<open>spin_lock\<close> by CPU \<open>i\<close>.\<close>

definition spin_iter :: "nat \<Rightarrow> spin_sys \<Rightarrow> spin_sys" where
  "spin_iter i s = (let (value, lk') = atomic_xchg (lk_word s) 1 in
     s\<lparr>lk_word := lk', lk_pc := (lk_pc s)(i := (if value = 0 then Holding else Spinning))\<rparr>)"

definition try_iter :: "nat \<Rightarrow> spin_sys \<Rightarrow> spin_sys" where
  "try_iter i s = (let (ok, lk') = try_lock (lk_word s) in
     s\<lparr>lk_word := lk', lk_pc := (lk_pc s)(i := (if ok then Holding else Outside))\<rparr>)"

definition unlock_iter :: "nat \<Rightarrow> spin_sys \<Rightarrow> spin_sys" where
  "unlock_iter i s = s\<lparr>lk_word := spin_unlock (lk_word s), lk_pc := (lk_pc s)(i := Outside)\<rparr>"

inductive spin_step :: "spin_sys \<Rightarrow> spin_sys \<Rightarrow> bool" where
  call_lock: "lk_pc s i = Outside \<Longrightarrow> spin_step s (s\<lparr>lk_pc := (lk_pc s)(i := Spinning)\<rparr>)"
| spin: "lk_pc s i = Spinning \<Longrightarrow> spin_step s (spin_iter i s)"
| call_try: "lk_pc s i = Outside \<Longrightarrow> spin_step s (try_iter i s)"
| unlock: "lk_pc s i = Holding \<Longrightarrow> spin_step s (unlock_iter i s)"

inductive_cases spin_stepE: "spin_step s t"

inductive spin_reach :: "spin_sys \<Rightarrow> bool" where
  start: "spin_reach spin_init"
| step: "spin_reach s \<Longrightarrow> spin_step s t \<Longrightarrow> spin_reach t"

text \<open>The word is 0 exactly when nobody holds the lock, and one CPU at most holds it.\<close>

definition spin_inv :: "spin_sys \<Rightarrow> bool" where
  "spin_inv s \<longleftrightarrow> (lk_word s = 0 \<longleftrightarrow> (\<forall>i. lk_pc s i \<noteq> Holding)) \<and>
     (\<forall>i j. lk_pc s i = Holding \<longrightarrow> lk_pc s j = Holding \<longrightarrow> i = j)"

lemmas spin_iter_defs = spin_iter_def try_iter_def unlock_iter_def try_lock_eq atomic_xchg_def

lemma spin_step_inv: "spin_step s t \<Longrightarrow> spin_inv s \<Longrightarrow> spin_inv t"
  by (erule spin_stepE)
     (auto simp: spin_inv_def spin_iter_defs split: if_splits, (metis spin_pc.distinct)+)

lemma spin_reach_inv: "spin_reach s \<Longrightarrow> spin_inv s"
proof (induction rule: spin_reach.induct)
  case start
  show ?case by (simp add: spin_inv_def spin_init_def SPIN_LOCK_INIT_def)
next
  case (step s t)
  then show ?case by (blast intro: spin_step_inv)
qed

section \<open>Alignment\<close>

text \<open>
  \<open>1 << align\<close> is a shift of an \<open>int\<close>, whose result is converted to
  \<open>unsigned long\<close>; a shift by 32 or more is undefined.
\<close>

definition align_unit :: "nat \<Rightarrow> u64 res" where
  "align_unit align = (if 32 \<le> align then Inl Undefined
     else Inr (scast (push_bit align (1 :: 32 word))))"

definition align_to :: "u64 \<Rightarrow> nat \<Rightarrow> u64 res" where
  "align_to n align =
     res_bind (align_unit align) (\<lambda>align_number.
       let mask = align_number - 1 in
       if align_number AND mask \<noteq> 0 then Inl (Panic ''align must be power of 2'')
       else if n AND mask = 0 then Inr n
       else Inr ((n AND NOT mask) + align_number))"

definition is_align_to :: "u64 \<Rightarrow> nat \<Rightarrow> bool res" where
  "is_align_to ptr align =
     res_bind (align_unit align) (\<lambda>align_number.
       let mask = align_number - 1 in
       if align_number AND mask \<noteq> 0 then Inl (Panic ''align must be power of 2'')
       else Inr (ptr AND mask = 0))"

lemma scast_two_power: "a < 31 \<Longrightarrow> (scast (2 ^ a :: 32 word) :: u64) = 2 ^ a"
  using scast_of_nat [of "2 ^ a"] power_strict_increasing [of a 31 "2 :: nat"] by simp

lemma align_unit_small: "a < 31 \<Longrightarrow> align_unit a = Inr (2 ^ a)"
  by (simp add: align_unit_def scast_two_power)

lemma exp_and_mask: "(2 ^ a :: u64) AND mask a = 0"
  by (rule bit_word_eqI) (auto simp: bit_simps)

lemma is_align_to_small: "a < 31 \<Longrightarrow> is_align_to p a = Inr (2 ^ a dvd unat p)"
  using exp_and_mask [of a]
  by (simp add: is_align_to_def align_unit_small and_mask_eq_0_iff flip: mask_eq_exp_minus_1)

lemma align_to_small:
  "a < 31 \<Longrightarrow> align_to n a =
     Inr (if 2 ^ a dvd unat n then n else (n AND NOT (mask a)) + 2 ^ a)"
  using exp_and_mask [of a]
  by (simp add: align_to_def align_unit_small and_mask_eq_0_iff flip: mask_eq_exp_minus_1)

text \<open>
  \<open>align_to\<close> rounds up: for an alignment below 31 and a number whose next boundary is
  representable, it returns the least multiple of \<open>2 ^ a\<close> that is not below the number,
  and \<open>is_align_to\<close> accepts the result.
\<close>

theorem align_to_rounds_up:
  assumes "a < 31" and "unat n + 2 ^ a \<le> 2 ^ 64"
  shows "\<exists>r. align_to n a = Inr r \<and> is_align_to r a = Inr True \<and>
           unat n \<le> unat r \<and> unat r < unat n + 2 ^ a"
proof (cases "2 ^ a dvd unat n")
  case True
  with assms show ?thesis by (simp add: align_to_small is_align_to_small)
next
  case False
  let ?r = "(n AND NOT (mask a)) + 2 ^ a" and ?m = "unat n mod 2 ^ a"
  have m: "0 < ?m" "?m < 2 ^ a" "?m \<le> unat n"
    using False by (auto simp: dvd_eq_mod_eq_0)
  have r: "unat ?r = unat n - ?m + 2 ^ a"
    using assms m unat_add_nowrap [of "n AND NOT (mask a)" "2 ^ a"]
    by (simp add: unat_and_not_mask unat_two_power)
  moreover have "2 ^ a dvd unat n - ?m" by (simp add: dvd_minus_mod)
  ultimately have "2 ^ a dvd unat ?r"
    by (simp only:) (rule dvd_add [OF _ dvd_refl])
  moreover have "unat n \<le> unat ?r" "unat ?r < unat n + 2 ^ a"
    using m r by linarith+
  ultimately show ?thesis using assms False by (simp add: align_to_small is_align_to_small)
qed

theorem align_to_rounds_up_witness:
  "\<exists>r. align_to 5000 12 = Inr r \<and> is_align_to r 12 = Inr True \<and>
      unat (5000 :: u64) \<le> unat r \<and> unat r < unat (5000 :: u64) + 2 ^ 12"
  by (rule align_to_rounds_up) simp_all

text \<open>
  C18: mutual exclusion of the exchange lock: in every state reachable by any number of CPUs
  that call \<open>spin_lock\<close>, \<open>try_lock\<close> and \<open>spin_unlock\<close>, interleaved between the
  atomic exchanges, at most one CPU holds the lock, and the word is 0 exactly when none does.
\<close>

theorem spin_mutual_exclusion:
  assumes "spin_reach s"
  shows "(lk_word s = 0 \<longleftrightarrow> (\<forall>i. lk_pc s i \<noteq> Holding)) \<and>
     (lk_pc s i = Holding \<longrightarrow> lk_pc s j = Holding \<longrightarrow> i = j)"
  using spin_reach_inv [OF assms] by (auto simp: spin_inv_def)

lemma spin_reach_example:
  "spin_reach (spin_iter 1 (spin_init\<lparr>lk_pc := (lk_pc spin_init)(1 := Spinning)\<rparr>))"
  by (intro spin_reach.step [OF _ spin_step.spin] spin_reach.step [OF spin_reach.start]
        spin_step.call_lock) (simp_all add: spin_init_def)

theorem spin_mutual_exclusion_witness:
  "\<exists>s. spin_reach s \<and> lk_pc s 1 = Holding \<and> lk_word s \<noteq> 0 \<and>
     (\<forall>j. lk_pc s j = Holding \<longrightarrow> 1 = j)"
proof -
  let ?s = "spin_iter 1 (spin_init\<lparr>lk_pc := (lk_pc spin_init)(1 := Spinning)\<rparr>)"
  have held: "lk_pc ?s 1 = Holding"
    by (simp add: spin_iter_defs spin_init_def SPIN_LOCK_INIT_def)
  show ?thesis
    using spin_reach_example held spin_mutual_exclusion [OF spin_reach_example, of 1]
    by blast
qed

end
