(* ===== verification/Buddy_Tree.thy ===== *)
theory Buddy_Tree
  imports Lock_Align
begin

text \<open>
  One tree of the buddy allocator of \<open>kernel/src/tbma.c\<close>: a 16 MiB area is described by an
  array of 8192 bytes, a complete binary tree in heap order (node \<open>i\<close> has the children
  \<open>2 * i\<close> and \<open>2 * i + 1\<close>). Node 1 stands for the whole area, the nodes 4096 to 8191
  for its 4 KiB pages. A byte holds the exponent of the largest block the node can still hand
  out, or 0 (this very block is handed out), or 1 (nothing left to hand out).
\<close>

section \<open>Block sizes\<close>

text \<open>\<open>enum BLOCK_SIZE_\<close>: a size is named by the exponent of its power of two.\<close>

definition S_4K :: nat where "S_4K = 12"
definition S_16M :: nat where "S_16M = 24"
definition BBMA_REFUSE :: nat where "BBMA_REFUSE = 25"
definition FULL_USED :: nat where "FULL_USED = 0"
definition GET_DEPARTED :: nat where "GET_DEPARTED = 1"
definition MAX_NODE :: nat where "MAX_NODE = 8192"

lemmas size_consts = S_4K_def S_16M_def BBMA_REFUSE_def FULL_USED_def GET_DEPARTED_def MAX_NODE_def

definition determine_bbma_size :: "u64 \<Rightarrow> nat" where
  "determine_bbma_size real_size =
    (if real_size \<le> push_bit 12 1 then 12
     else if real_size \<le> push_bit 13 1 then 13
     else if real_size \<le> push_bit 14 1 then 14
     else if real_size \<le> push_bit 15 1 then 15
     else if real_size \<le> push_bit 16 1 then 16
     else if real_size \<le> push_bit 17 1 then 17
     else if real_size \<le> push_bit 18 1 then 18
     else if real_size \<le> push_bit 19 1 then 19
     else if real_size \<le> push_bit 20 1 then 20
     else if real_size \<le> push_bit 21 1 then 21
     else if real_size \<le> push_bit 22 1 then 22
     else if real_size \<le> push_bit 23 1 then 23
     else if real_size \<le> push_bit 24 1 then 24
     else BBMA_REFUSE)"

section \<open>Nodes and addresses\<close>

definition calculate_addr_helper :: "nat list" where
  "calculate_addr_helper = [1, 2, 4, 8, 16, 32, 64, 128, 256, 512, 1024, 2048, 4096]"

definition left_child :: "nat \<Rightarrow> nat" where
  "left_child index = index * 2"

definition right_child :: "nat \<Rightarrow> nat" where
  "right_child index = index * 2 + 1"

text \<open>The two file-scope addresses \<open>bbma_init\<close> sets.\<close>

record bbma_base =
  real_start_addr :: addr
  begin_alloc_addr :: addr

text \<open>
  The address of a node's block. \<open>tree\<close> is the address of the tree's array, from which the
  number of the tree is computed as an \<open>int\<close>. The table read is out of range when
  \<open>cur_size\<close> is below \<open>S_4K\<close>.
\<close>

definition convert_index_to_addr :: "bbma_base \<Rightarrow> addr \<Rightarrow> nat \<Rightarrow> nat \<Rightarrow> addr res" where
  "convert_index_to_addr b tree index cur_size =
    (if MAX_NODE < index then Inl Assert
     else if cur_size = BBMA_REFUSE then Inl Assert
     else if length calculate_addr_helper \<le> S_16M - cur_size then Inl Undefined
     else
       let tree_offset = tree - real_start_addr b;
           tree_gap = (ucast (tree_offset div of_nat MAX_NODE) :: 32 word);
           mem_offset = (scast (push_bit S_16M tree_gap) :: u64);
           real_mem_start = begin_alloc_addr b + mem_offset;
           node_offset = (of_int (int index - int (calculate_addr_helper ! (S_16M - cur_size))) :: u64);
           mem_node_offset = push_bit cur_size node_offset
       in Inr (real_mem_start + mem_node_offset))"

section \<open>Allocation in one tree\<close>

text \<open>Byte reads and writes of the array; outside it C has no defined behaviour.\<close>

definition rd :: "nat list \<Rightarrow> nat \<Rightarrow> nat res" where
  "rd t i = (if i < length t then Inr (t ! i) else Inl Undefined)"

definition wr :: "nat list \<Rightarrow> nat \<Rightarrow> nat \<Rightarrow> nat list res" where
  "wr t i v = (if i < length t then Inr (t[i := v]) else Inl Undefined)"

definition child_max :: "nat list \<Rightarrow> nat \<Rightarrow> nat res" where
  "child_max t index =
     res_bind (rd t (left_child index)) (\<lambda>l.
     res_bind (rd t (right_child index)) (\<lambda>r.
       Inr (if l \<ge> r then l else r)))"

text \<open>
  \<open>get_the_free_space_in_tree\<close> returns a pointer (0 is \<open>NULL\<close>) and the updated array.
\<close>

function get_the_free_space_in_tree ::
  "bbma_base \<Rightarrow> addr \<Rightarrow> nat list \<Rightarrow> nat \<Rightarrow> nat \<Rightarrow> nat \<Rightarrow> (addr \<times> nat list) res" where
  "get_the_free_space_in_tree b tree t index cur_size req_size =
    (if req_size = BBMA_REFUSE then Inl Assert
     else if cur_size < req_size then Inl Assert
     else res_bind (rd t index) (\<lambda>v.
       if \<not> v \<le> cur_size then Inl Assert
       else if \<not> v \<ge> req_size then Inl Assert
       else if cur_size = req_size then
         (if v = req_size then
            res_bind (convert_index_to_addr b tree index cur_size) (\<lambda>ptr.
            res_bind (wr t index FULL_USED) (\<lambda>t'. Inr (ptr, t')))
          else Inr (0, t))
       else res_bind (rd t (left_child index)) (\<lambda>lv.
         res_bind
           (if lv \<ge> req_size
            then get_the_free_space_in_tree b tree t (left_child index) (cur_size - 1) req_size
            else get_the_free_space_in_tree b tree t (right_child index) (cur_size - 1) req_size)
           (\<lambda>(ptr, t').
             if ptr \<noteq> 0 then
               res_bind (rd t' index) (\<lambda>v'.
                 if v' = req_size then
                   res_bind (wr t' index GET_DEPARTED) (\<lambda>t''. Inr (ptr, t''))
                 else
                   res_bind (child_max t' index) (\<lambda>m.
                   res_bind (wr t' index m) (\<lambda>t''. Inr (ptr, t''))))
             else Inr (ptr, t')))))"
  by pat_completeness auto
termination
  by (relation "measure (\<lambda>(b, tree, t, index, cur_size, req_size). cur_size)") auto

declare get_the_free_space_in_tree.simps [simp del]

section \<open>Release in one tree\<close>

text \<open>
  \<open>free_tree_ptr\<close> walks down to the block whose address is \<open>ptr\<close>. Below the leaves the
  size exponent has no entry in the address table, so the walk stops there with an undefined
  read: the recursion is bounded by \<open>cur_size\<close>.
\<close>

function free_tree_ptr ::
  "bbma_base \<Rightarrow> addr \<Rightarrow> nat list \<Rightarrow> nat \<Rightarrow> addr \<Rightarrow> nat \<Rightarrow> nat list res" where
  "free_tree_ptr b tree t index ptr cur_size =
    (if MAX_NODE < index then Inl Assert
     else if cur_size < S_4K then Inl Undefined
     else res_bind (rd t index) (\<lambda>v.
       if \<not> v \<le> cur_size then Inl Assert
       else res_bind (convert_index_to_addr b tree index cur_size) (\<lambda>cur_addr.
         if \<not> cur_addr \<le> ptr then Inl Assert
         else if cur_addr = ptr \<and> v = FULL_USED then wr t index cur_size
         else res_bind
           (if cur_addr = ptr
            then free_tree_ptr b tree t (left_child index) ptr (cur_size - 1)
            else if cur_addr + push_bit (cur_size - 1) 1 > ptr
            then free_tree_ptr b tree t (left_child index) ptr (cur_size - 1)
            else free_tree_ptr b tree t (right_child index) ptr (cur_size - 1))
           (\<lambda>t'. res_bind (rd t' (left_child index)) (\<lambda>lv.
              res_bind (rd t' (right_child index)) (\<lambda>rv.
              let nv = (if lv = cur_size - 1 \<and> rv = cur_size - 1 then cur_size
                        else if lv \<ge> rv then lv else rv) in
              if nv = GET_DEPARTED then Inl Assert
              else if nv = FULL_USED then Inl Assert
              else wr t' index nv))))))"
  by pat_completeness auto
termination
  by (relation "measure (\<lambda>(b, tree, t, index, ptr, cur_size). cur_size)") (auto simp: S_4K_def)

declare free_tree_ptr.simps [simp del]

section \<open>Initialisation\<close>

text \<open>The inner loop stores one value on \<open>[cur_stand, next_stand)\<close>, the outer runs over the levels.\<close>

fun fill_range :: "nat list \<Rightarrow> nat \<Rightarrow> nat \<Rightarrow> nat \<Rightarrow> nat list" where
  "fill_range t i 0 v = t"
| "fill_range t i (Suc n) v = fill_range (t[i := v]) (Suc i) n v"

fun initialize_levels :: "nat list \<Rightarrow> nat list \<Rightarrow> nat \<Rightarrow> nat list" where
  "initialize_levels t [] cur_size = t"
| "initialize_levels t (i # is) cur_size =
    (let cur_stand = calculate_addr_helper ! i;
         next_stand = (if i = 12 then 8192 else calculate_addr_helper ! (i + 1))
     in initialize_levels (fill_range t cur_stand (next_stand - cur_stand) cur_size) is (cur_size - 1))"

definition initialize_tree :: "nat list \<Rightarrow> nat list" where
  "initialize_tree t = initialize_levels t [0..<13] S_16M"

end
