(* ===== verification/Buddy_Refine.thy ===== *)
theory Buddy_Refine
  imports Buddy_Tree
begin

text \<open>
  The array of one buddy tree read as a binary tree, the abstract allocator on such trees, and
  the invariant. The array operations of \<open>Buddy_Tree\<close> refine the tree operations; the set
  of blocks handed out is a function of the tree.
\<close>

section \<open>Trees\<close>

datatype bt = Page nat | Split nat bt bt

fun val :: "bt \<Rightarrow> nat" where
  "val (Page v) = v"
| "val (Split v l r) = v"

text \<open>The subtree of node \<open>i\<close>, with \<open>h\<close> levels below it.\<close>

fun tree_at :: "nat list \<Rightarrow> nat \<Rightarrow> nat \<Rightarrow> bt" where
  "tree_at t i 0 = Page (t ! i)"
| "tree_at t i (Suc h) = Split (t ! i) (tree_at t (2 * i) h) (tree_at t (2 * i + 1) h)"

lemma val_tree_at [simp]: "val (tree_at t i h) = t ! i"
  by (cases h) auto

text \<open>Node \<open>j\<close> lies in the subtree of node \<open>i\<close>.\<close>

definition below :: "nat \<Rightarrow> nat \<Rightarrow> bool" where
  "below i j \<longleftrightarrow> (\<exists>d. j div 2 ^ d = i)"

lemma below_refl [simp]: "below i i"
  unfolding below_def by (rule exI [of _ 0]) simp

lemma below_left: "below (2 * i) j \<Longrightarrow> below i j"
  unfolding below_def
proof (elim exE)
  fix d assume "j div 2 ^ d = 2 * i"
  then have "j div 2 ^ Suc d = i"
    by (metis div_mult2_eq mult.commute nonzero_mult_div_cancel_left power_Suc zero_neq_numeral)
  then show "\<exists>d. j div 2 ^ d = i" by blast
qed

lemma below_right: "below (2 * i + 1) j \<Longrightarrow> below i j"
  unfolding below_def
proof (elim exE)
  fix d assume d: "j div 2 ^ d = 2 * i + 1"
  have "j div 2 ^ Suc d = (j div 2 ^ d) div 2"
    by (metis div_mult2_eq mult.commute power_Suc)
  with d have "j div 2 ^ Suc d = i" by simp
  then show "\<exists>d. j div 2 ^ d = i" by blast
qed

lemma below_le: "below i j \<Longrightarrow> i \<le> j"
  unfolding below_def by (metis div_le_dividend)

lemma below_split: "below i j \<Longrightarrow> j = i \<or> below (2 * i) j \<or> below (2 * i + 1) j"
  unfolding below_def
proof (elim exE)
  fix d assume d: "j div 2 ^ d = i"
  show "j = i \<or> (\<exists>d. j div 2 ^ d = 2 * i) \<or> (\<exists>d. j div 2 ^ d = 2 * i + 1)"
  proof (cases d)
    case 0
    with d show ?thesis by simp
  next
    case (Suc e)
    have "j div 2 ^ Suc e = (j div 2 ^ e) div 2"
      by (metis div_mult2_eq mult.commute power_Suc)
    with d Suc have "(j div 2 ^ e) div 2 = i" by simp
    then have "j div 2 ^ e = 2 * i \<or> j div 2 ^ e = 2 * i + 1" by linarith
    then show ?thesis by blast
  qed
qed

text \<open>The two subtrees of a node share no node, and neither holds the node itself.\<close>

lemma div_pow_div: "(j :: nat) div 2 ^ (d + e) = (j div 2 ^ d) div 2 ^ e"
  by (simp add: div_mult2_eq power_add)

lemma below_level_eq:
  assumes "(j :: nat) div 2 ^ d = a" and "j div 2 ^ e = b" and "0 < a"
    and "a < 2 * b" and "b < 2 * a"
  shows "a = b"
proof -
  have shrink: "x div 2 ^ k < 2 * (x div 2 ^ k div 2 ^ m) \<Longrightarrow> 0 < x div 2 ^ k div 2 ^ m \<Longrightarrow> m = 0"
    for x k m :: nat
  proof (rule ccontr)
    assume less: "x div 2 ^ k < 2 * (x div 2 ^ k div 2 ^ m)" and m: "m \<noteq> 0"
    have "(2 :: nat) \<le> 2 ^ m" using m by (metis One_nat_def Suc_leI neq0_conv one_le_numeral power_increasing power_one_right)
    then have "2 * (x div 2 ^ k div 2 ^ m) \<le> 2 ^ m * (x div 2 ^ k div 2 ^ m)" by simp
    also have "\<dots> \<le> x div 2 ^ k" by simp
    finally show False using less by simp
  qed
  show ?thesis
  proof (cases "d \<le> e")
    case True
    then obtain m where e: "e = d + m" using le_Suc_ex by blast
    then have b: "b = j div 2 ^ d div 2 ^ m" using assms(2) by (simp add: div_pow_div)
    then have "m = 0" using shrink [of j d m] assms by auto
    then show ?thesis using assms e by simp
  next
    case False
    then obtain m where d: "d = e + m" using le_Suc_ex nat_le_linear by blast
    then have a: "a = j div 2 ^ e div 2 ^ m" using assms(1) by (simp add: div_pow_div)
    then have "m = 0" using shrink [of j e m] assms by auto
    then show ?thesis using assms d by simp
  qed
qed

lemma below_disjoint: "0 < i \<Longrightarrow> below (2 * i) j \<Longrightarrow> \<not> below (2 * i + 1) j"
  unfolding below_def using below_level_eq by fastforce

lemma not_below_child: "0 < i \<Longrightarrow> \<not> below (2 * i) i \<and> \<not> below (2 * i + 1) i"
  using below_le by fastforce

text \<open>A write outside a subtree does not change it.\<close>

lemma tree_at_cong:
  "(\<And>j. below i j \<Longrightarrow> t ! j = t' ! j) \<Longrightarrow> tree_at t i h = tree_at t' i h"
proof (induction h arbitrary: i)
  case 0
  then show ?case by simp
next
  case (Suc h)
  have "tree_at t (2 * i) h = tree_at t' (2 * i) h"
    using Suc.prems by (intro Suc.IH) (blast dest: below_left)
  moreover have "tree_at t (2 * i + 1) h = tree_at t' (2 * i + 1) h"
    using Suc.prems by (intro Suc.IH) (blast dest: below_right)
  ultimately show ?case using Suc.prems by simp
qed

lemma tree_at_update: "\<not> below i j \<Longrightarrow> tree_at (t[j := v]) i h = tree_at t i h"
  by (rule tree_at_cong) (metis nth_list_update_neq)

section \<open>The invariant\<close>

text \<open>
  \<open>full h\<close>: a subtree of height \<open>h\<close> (block exponent \<open>12 + h\<close>) with every byte at its
  initial value. \<open>twf h\<close>: a node is handed out or free, with an untouched subtree in both
  cases, or partly used; then its byte never promises more than one of its children has, and
  two free children have been merged.
\<close>

fun full :: "nat \<Rightarrow> bt \<Rightarrow> bool" where
  "full h (Page v) \<longleftrightarrow> h = 0 \<and> v = 12"
| "full 0 (Split v l r) \<longleftrightarrow> False"
| "full (Suc h) (Split v l r) \<longleftrightarrow> v = 13 + h \<and> full h l \<and> full h r"

fun twf :: "nat \<Rightarrow> bt \<Rightarrow> bool" where
  "twf h (Page v) \<longleftrightarrow> h = 0 \<and> (v = 0 \<or> v = 12)"
| "twf 0 (Split v l r) \<longleftrightarrow> False"
| "twf (Suc h) (Split v l r) \<longleftrightarrow>
     (v = 0 \<or> v = 13 + h) \<and> full h l \<and> full h r \<or>
     1 \<le> v \<and> v < 13 + h \<and> twf h l \<and> twf h r \<and>
     \<not> (val l = 12 + h \<and> val r = 12 + h) \<and> (v = 1 \<or> v \<le> max (val l) (val r))"

text \<open>The blocks handed out, as pairs of a start and a height, in an area that starts at \<open>base\<close>.\<close>

fun taken :: "nat \<Rightarrow> nat \<Rightarrow> bt \<Rightarrow> (nat \<times> nat) set" where
  "taken h base (Page v) = (if v = 0 then {(base, h)} else {})"
| "taken 0 base (Split v l r) = {}"
| "taken (Suc h) base (Split v l r) =
     (if v = 0 then {(base, Suc h)} else taken h base l \<union> taken h (base + 2 ^ (12 + h)) r)"

definition block :: "nat \<times> nat \<Rightarrow> nat set" where
  "block = (\<lambda>(p, k). {p..<p + 2 ^ (12 + k)})"

lemma full_val: "full h t \<Longrightarrow> val t = 12 + h"
  by (cases "(h, t)" rule: full.cases) auto

lemma full_wf: "full h t \<Longrightarrow> twf h t"
  by (cases "(h, t)" rule: full.cases) auto

lemma full_taken: "full h t \<Longrightarrow> taken h base t = {}"
  by (induction h t arbitrary: base rule: full.induct) auto

lemma wf_val_le: "twf h t \<Longrightarrow> val t \<le> 12 + h"
  by (cases "(h, t)" rule: twf.cases) auto

lemma wf_val_top: "twf h t \<Longrightarrow> val t = 12 + h \<Longrightarrow> full h t"
  by (cases "(h, t)" rule: twf.cases) auto

lemma wf_val_zero: "twf h t \<Longrightarrow> val t = 0 \<Longrightarrow> taken h base t = {(base, h)}"
  by (cases "(h, t)" rule: twf.cases) auto

text \<open>Every block lies in the area, is aligned in it, and two blocks never overlap.\<close>

lemma taken_bounds:
  "(p, k) \<in> taken h base t \<Longrightarrow>
     base \<le> p \<and> p + 2 ^ (12 + k) \<le> base + 2 ^ (12 + h) \<and> k \<le> h \<and> 2 ^ (12 + k) dvd p - base"
proof (induction h base t rule: taken.induct)
  case (3 h base v l r)
  have two: "(2 :: nat) ^ (13 + h) = 2 * 2 ^ (12 + h)" by (simp add: power_add)
  show ?case
  proof (cases "v = 0 \<or> (p, k) \<in> taken h base l")
    case True
    with two 3 show ?thesis by (cases "v = 0") auto
  next
    case False
    with 3 have ih: "base + 2 ^ (12 + h) \<le> p \<and> p + 2 ^ (12 + k) \<le> base + 2 ^ (12 + h) + 2 ^ (12 + h)"
      "k \<le> h" "2 ^ (12 + k) dvd p - (base + 2 ^ (12 + h))"
      by auto
    have "(2 :: nat) ^ (12 + k) dvd 2 ^ (12 + h)" using ih(2) by (intro le_imp_power_dvd) simp
    with ih(3) have "2 ^ (12 + k) dvd (p - (base + 2 ^ (12 + h))) + 2 ^ (12 + h)" by (rule dvd_add)
    moreover have "p - (base + 2 ^ (12 + h)) + 2 ^ (12 + h) = p - base" using ih(1) by simp
    ultimately show ?thesis using ih two by simp
  qed
qed (auto split: if_splits)

lemma block_inside:
  assumes "x \<in> taken h base t"
  shows "block x \<subseteq> {base..<base + 2 ^ (12 + h)}"
  using taken_bounds [of "fst x" "snd x" h base t] assms
  by (auto simp: block_def split: prod.splits)

lemma taken_disjoint:
  "x \<in> taken h base t \<Longrightarrow> y \<in> taken h base t \<Longrightarrow> x \<noteq> y \<Longrightarrow> block x \<inter> block y = {}"
proof (induction h base t rule: taken.induct)
  case (3 h base v l r)
  have cross: "block a \<inter> block b = {}"
    if "a \<in> taken h base l" "b \<in> taken h (base + 2 ^ (12 + h)) r" for a b
    using block_inside [OF that(1)] block_inside [OF that(2)] by fastforce
  show ?case
  proof (cases "v = 0")
    case True
    with 3 show ?thesis by simp
  next
    case False
    with 3 cross show ?thesis by (simp add: Int_commute) (metis Int_commute)
  qed
qed (auto split: if_splits)

section \<open>The abstract allocator\<close>

definition new_val :: "nat \<Rightarrow> nat \<Rightarrow> bt \<Rightarrow> bt \<Rightarrow> nat" where
  "new_val k v l r = (if v = 12 + k then 1 else max (val l) (val r))"

fun talloc :: "nat \<Rightarrow> nat \<Rightarrow> nat \<Rightarrow> bt \<Rightarrow> nat \<times> bt" where
  "talloc k h base (Page v) = (base, Page 0)"
| "talloc k h base (Split v l r) =
    (if h = k then (base, Split 0 l r)
     else if 12 + k \<le> val l then
       (let (p, l') = talloc k (h - 1) base l in (p, Split (new_val k v l' r) l' r))
     else
       (let (p, r') = talloc k (h - 1) (base + 2 ^ (12 + (h - 1))) r in
        (p, Split (new_val k v l r') l r')))"

definition merged_val :: "nat \<Rightarrow> bt \<Rightarrow> bt \<Rightarrow> nat" where
  "merged_val h l r = (if val l = 11 + h \<and> val r = 11 + h then 12 + h else max (val l) (val r))"

fun tfree :: "nat \<Rightarrow> nat \<Rightarrow> nat \<Rightarrow> bt \<Rightarrow> bt" where
  "tfree p h base (Page v) = Page (12 + h)"
| "tfree p h base (Split v l r) =
    (if p = base \<and> v = 0 then Split (12 + h) l r
     else if p < base + 2 ^ (12 + (h - 1)) then
       (let l' = tfree p (h - 1) base l in Split (merged_val h l' r) l' r)
     else
       (let r' = tfree p (h - 1) (base + 2 ^ (12 + (h - 1))) r in
        Split (merged_val h l r') l r'))"

lemma wf_split_new:
  assumes "twf h l" and "twf h r" and "val l < 12 + h \<or> val r < 12 + h" and "1 \<le> new_val k v l r"
  shows "twf (Suc h) (Split (new_val k v l r) l r)"
  using assms wf_val_le [OF assms(1)] wf_val_le [OF assms(2)]
  by (auto simp: new_val_def)

lemma taken_not_top: "twf h t \<Longrightarrow> x \<in> taken h base t \<Longrightarrow> val t < 12 + h"
  using wf_val_le [of h t] wf_val_top [of h t] full_taken [of h t base] by fastforce

lemma wf_SplitD:
  assumes "twf (Suc h) (Split v l r)" and "v \<noteq> 0"
  shows "twf h l" and "twf h r" and "v \<le> 13 + h"
    and "v = 13 + h \<Longrightarrow> full h l" and "v = 13 + h \<Longrightarrow> full h r"
    and "v < 13 + h \<Longrightarrow> v = 1 \<or> v \<le> max (val l) (val r)"
  using assms full_wf by fastforce+

lemma wf_Split_max:
  assumes "twf (Suc h) (Split v l r)" and "12 + k \<le> v" and "k \<le> h"
  shows "12 + k \<le> max (val l) (val r)"
  using assms wf_SplitD(3,4,6) [OF assms(1)] full_val [of h l] by (cases "v = 13 + h") auto

lemma taken_halves:
  assumes "(p, k) \<in> taken h base l" and "(p, k) \<in> taken h (base + 2 ^ (12 + h)) r"
  shows False
proof -
  have "p + 2 ^ (12 + k) \<le> base + 2 ^ (12 + h)" "base + 2 ^ (12 + h) \<le> p"
    using taken_bounds [OF assms(1)] taken_bounds [OF assms(2)] by blast+
  then have "p + 2 ^ (12 + k) \<le> p" by (rule le_trans)
  then show False by simp
qed

lemma talloc_correct:
  "twf h t \<Longrightarrow> 12 + k \<le> val t \<Longrightarrow> k \<le> h \<Longrightarrow> talloc k h base t = (p, t') \<Longrightarrow>
     twf h t' \<and> taken h base t' = insert (p, k) (taken h base t) \<and>
     (p, k) \<notin> taken h base t \<and> (k < h \<longrightarrow> 1 \<le> val t') \<and> (k = h \<longrightarrow> val t' = 0)"
proof (induction h t arbitrary: base p t' rule: twf.induct)
  case (3 h v l r)
  show ?case
  proof (cases "Suc h = k")
    case True
    then have top: "val (Split v l r) = 12 + Suc h"
      using "3.prems"(2) wf_val_le [OF "3.prems"(1)] by simp
    have "full (Suc h) (Split v l r)" by (rule wf_val_top [OF "3.prems"(1) top])
    then show ?thesis using True "3.prems"(4) by (auto simp: full_taken)
  next
    case False
    then have kh: "k \<le> h" using "3.prems"(3) by simp
    have v: "12 + k \<le> v" "v \<noteq> 0" using "3.prems"(2) by simp_all
    note parts = wf_SplitD [OF "3.prems"(1) v(2)]
    have both: "12 + k \<le> max (val l) (val r)" using wf_Split_max [OF "3.prems"(1) v(1) kh] .
    have room: "12 + k < v \<Longrightarrow> k = h \<Longrightarrow> val l = 12 + h \<and> val r = 12 + h"
      using parts(3,4,5) by (simp add: full_val)
    let ?b = "base + 2 ^ (12 + h)"
    show ?thesis
    proof (cases "12 + k \<le> val l")
      case True
      obtain l' where l': "talloc k h base l = (p, l')" "t' = Split (new_val k v l' r) l' r"
        using "3.prems"(4) False True by (auto split: prod.splits)
      note ih = "3.IH"(1) [OF parts(1) True kh l'(1)]
      have top: "val l' < 12 + h" using ih taken_not_top [of h l' "(p, k)" base] by blast
      have pos: "1 \<le> new_val k v l' r"
        using ih room kh v by (cases "k = h") (auto simp: new_val_def)
      have "twf (Suc h) t'" unfolding l'(2) using ih parts top pos by (intro wf_split_new) auto
      moreover have "(p, k) \<notin> taken h ?b r"
        using ih taken_halves [of p k h base l' r] by blast
      ultimately show ?thesis using ih v pos kh by (simp add: l'(2))
    next
      case False2: False
      obtain r' where r': "talloc k h ?b r = (p, r')" "t' = Split (new_val k v l r') l r'"
        using "3.prems"(4) False False2 by (auto split: prod.splits)
      have r: "12 + k \<le> val r" using both False2 by simp
      note ih = "3.IH"(2) [OF parts(2) r kh r'(1)]
      have top: "val r' < 12 + h" using ih taken_not_top [of h r' "(p, k)" ?b] by blast
      have pos: "1 \<le> new_val k v l r'"
        using ih room kh v False2 by (cases "k = h") (auto simp: new_val_def)
      have "twf (Suc h) t'" unfolding r'(2) using ih parts top pos by (intro wf_split_new) auto
      moreover have "(p, k) \<notin> taken h base l"
        using ih taken_halves [of p k h base l r'] by blast
      ultimately show ?thesis using ih v pos kh by (simp add: r'(2))
    qed
  qed
qed auto

lemma wf_split_merged:
  assumes "twf h l" and "twf h r" and "12 \<le> max (val l) (val r)"
  shows "twf (Suc h) (Split (merged_val (Suc h) l r) l r) \<and> 12 \<le> merged_val (Suc h) l r"
proof (cases "val l = 12 + h \<and> val r = 12 + h")
  case True
  then have "full h l" "full h r" using assms by (simp_all add: wf_val_top)
  then show ?thesis using True by (simp add: merged_val_def)
next
  case False
  then have "max (val l) (val r) < 13 + h"
    using wf_val_le [OF assms(1)] wf_val_le [OF assms(2)] by simp
  then show ?thesis using assms False by (auto simp: merged_val_def)
qed

lemma tfree_correct:
  "twf h t \<Longrightarrow> (p, k) \<in> taken h base t \<Longrightarrow>
     twf h (tfree p h base t) \<and> 12 \<le> val (tfree p h base t) \<and>
     taken h base (tfree p h base t) = taken h base t - {(p, k)}"
proof (induction h t arbitrary: base rule: twf.induct)
  case (3 h v l r)
  show ?case
  proof (cases "v = 0")
    case True
    with "3.prems" show ?thesis by (auto simp: full_taken)
  next
    case False
    note parts = wf_SplitD [OF "3.prems"(1) False]
    let ?b = "base + 2 ^ (12 + h)"
    have side: "(p, k) \<in> taken h base l \<longleftrightarrow> p < ?b" "(p, k) \<in> taken h ?b r \<longleftrightarrow> \<not> p < ?b"
      using "3.prems"(2) False taken_bounds [of p k h ?b r] taken_bounds [of p k h base l]
        less_le_trans [of p "p + 2 ^ (12 + k)" ?b] by auto
    show ?thesis
    proof (cases "p < ?b")
      case True
      let ?l = "tfree p h base l"
      have w: "twf h ?l" "12 \<le> val ?l" "taken h base ?l = taken h base l - {(p, k)}"
        using "3.IH"(1) [OF parts(1), of base] True side(1) by blast+
      have eq: "tfree p (Suc h) base (Split v l r) = Split (merged_val (Suc h) ?l r) ?l r"
        using True False by (simp add: Let_def)
      have m: "twf (Suc h) (Split (merged_val (Suc h) ?l r) ?l r)" "12 \<le> merged_val (Suc h) ?l r"
        using wf_split_merged [OF w(1) parts(2)] w(2) by (simp_all only: max.coboundedI1)
      have "taken (Suc h) base (Split (merged_val (Suc h) ?l r) ?l r) =
          (taken h base l - {(p, k)}) \<union> taken h ?b r"
        using m(2) by (simp add: w(3))
      also have "\<dots> = taken (Suc h) base (Split v l r) - {(p, k)}"
        using False True side(2) by auto
      finally show ?thesis unfolding eq using m by (simp only: val.simps simp_thms)
    next
      case right: False
      let ?r = "tfree p h ?b r"
      have w: "twf h ?r" "12 \<le> val ?r" "taken h ?b ?r = taken h ?b r - {(p, k)}"
        using "3.IH"(2) [OF parts(2), of ?b] right side(2) by blast+
      have eq: "tfree p (Suc h) base (Split v l r) = Split (merged_val (Suc h) l ?r) l ?r"
        using right False by (simp add: Let_def)
      have m: "twf (Suc h) (Split (merged_val (Suc h) l ?r) l ?r)" "12 \<le> merged_val (Suc h) l ?r"
        using wf_split_merged [OF parts(1) w(1)] w(2) by (simp_all only: max.coboundedI2)
      have "taken (Suc h) base (Split (merged_val (Suc h) l ?r) l ?r) =
          taken h base l \<union> (taken h ?b r - {(p, k)})"
        using m(2) by (simp add: w(3))
      also have "\<dots> = taken (Suc h) base (Split v l r) - {(p, k)}"
        using False right side(1) by auto
      finally show ?thesis unfolding eq using m by (simp only: val.simps simp_thms)
    qed
  qed
qed (auto split: if_splits)

section \<open>Addresses\<close>

text \<open>
  Tree number \<open>gap\<close> (from 0) of an allocator whose areas lie below \<open>2 ^ 64\<close>. The shift
  of the tree number is an \<open>int\<close> shift, so it must stay below \<open>2 ^ 31\<close>.
\<close>

definition tree_of :: "bbma_base \<Rightarrow> nat \<Rightarrow> addr" where
  "tree_of b gap = real_start_addr b + of_nat (gap * MAX_NODE)"

definition area_of :: "bbma_base \<Rightarrow> nat \<Rightarrow> nat" where
  "area_of b gap = unat (begin_alloc_addr b) + gap * 2 ^ 24"

definition gap_ok :: "bbma_base \<Rightarrow> nat \<Rightarrow> bool" where
  "gap_ok b gap \<longleftrightarrow> gap < 128 \<and> 0 < unat (begin_alloc_addr b) \<and> area_of b gap + 2 ^ 24 \<le> 2 ^ 64"

text \<open>The block offset of a node of height \<open>h\<close> in its area.\<close>

definition node_at :: "nat \<Rightarrow> nat \<Rightarrow> bool" where
  "node_at h i \<longleftrightarrow> h \<le> 12 \<and> 2 ^ (12 - h) \<le> i \<and> i < 2 ^ (13 - h)"

definition node_base :: "nat \<Rightarrow> nat \<Rightarrow> nat" where
  "node_base h i = (i - 2 ^ (12 - h)) * 2 ^ (12 + h)"

lemma node_at_root: "node_at 12 1" and node_base_root [simp]: "node_base 12 1 = 0"
  by (simp_all add: node_at_def node_base_def)

lemma node_at_child:
  assumes "node_at (Suc h) i"
  shows "node_at h (2 * i)" and "node_at h (2 * i + 1)"
    and "node_base h (2 * i) = node_base (Suc h) i"
    and "node_base h (2 * i + 1) = node_base (Suc h) i + 2 ^ (12 + h)"
proof -
  have h: "12 - h = Suc (12 - Suc h)" "13 - h = Suc (13 - Suc h)"
    using assms by (auto simp: node_at_def)
  show "node_at h (2 * i)" "node_at h (2 * i + 1)"
    using assms by (auto simp: node_at_def h)
  have "(2 * i - 2 * 2 ^ (12 - Suc h)) * 2 ^ (12 + h) = (i - 2 ^ (12 - Suc h)) * 2 ^ (12 + Suc h)"
    by (simp add: right_diff_distrib' [symmetric] power_add)
  then show left: "node_base h (2 * i) = node_base (Suc h) i"
    by (simp only: node_base_def h power_Suc)
  have "2 * i + 1 - 2 * 2 ^ (12 - Suc h) = (2 * i - 2 * 2 ^ (12 - Suc h)) + 1"
    using assms Suc_diff_le [of "2 * 2 ^ (11 - h)" "2 * i"] by (simp add: node_at_def)
  then show "node_base h (2 * i + 1) = node_base (Suc h) i + 2 ^ (12 + h)"
    using left by (simp add: node_base_def h add_mult_distrib)
qed

lemma node_at_bound: "node_at h i \<Longrightarrow> 0 < i \<and> i < 8192"
proof -
  assume n: "node_at h i"
  have "(2 :: nat) ^ (13 - h) \<le> 2 ^ 13" by (intro power_increasing) auto
  with n show ?thesis by (auto simp: node_at_def intro: gr0I)
qed

lemma node_base_bound:
  assumes "node_at h i" shows "node_base h i + 2 ^ (12 + h) \<le> 2 ^ 24"
proof -
  have h: "h \<le> 12" "13 - h = Suc (12 - h)" using assms by (auto simp: node_at_def)
  have "i - 2 ^ (12 - h) + 1 \<le> 2 ^ (12 - h)" using assms h by (auto simp: node_at_def)
  then have "(i - 2 ^ (12 - h) + 1) * 2 ^ (12 + h) \<le> 2 ^ (12 - h) * 2 ^ (12 + h)"
    by (rule mult_le_mono1)
  also have "(2 :: nat) ^ (12 - h) * 2 ^ (12 + h) = 2 ^ 24"
    using h by (simp add: power_add [symmetric])
  finally show ?thesis by (simp add: node_base_def add_mult_distrib)
qed

lemma helper_length: "length calculate_addr_helper = 13"
  by (simp add: calculate_addr_helper_def)

lemma helper_nth: "n < 13 \<Longrightarrow> calculate_addr_helper ! n = 2 ^ n"
proof -
  assume "n < 13"
  then have "n \<in> set [0, 1, 2, 3, 4, 5, 6, 7, 8, 9, 10, 11, 12]"
    unfolding list.set insert_iff empty_iff by presburger
  then show ?thesis by (auto simp: calculate_addr_helper_def)
qed

lemma convert_index:
  assumes "gap < 128" and "node_at h i"
  shows "convert_index_to_addr b (tree_of b gap) i (12 + h) =
     Inr (begin_alloc_addr b + of_nat (gap * 2 ^ 24 + node_base h i))"
proof -
  have h: "h \<le> 12" "24 - (12 + h) = 12 - h" using assms(2) by (auto simp: node_at_def)
  have "tree_of b gap - real_start_addr b = of_nat (gap * 8192)"
    by (simp add: tree_of_def MAX_NODE_def)
  moreover have "(of_nat (gap * 8192) :: u64) div 8192 = of_nat gap"
    using assms(1) unat_of_nat_small [of "gap * 8192", where 'a = 64]
    by (simp add: word_unat_eq_iff unat_div unat_of_nat_small)
  ultimately have gap: "(tree_of b gap - real_start_addr b) div 8192 = of_nat gap"
    by simp
  have g: "gap * 2 ^ 24 < 2 ^ 31" using assms(1) by simp
  have "(scast (push_bit 24 (ucast (of_nat gap :: u64) :: 32 word)) :: u64) = of_nat (gap * 2 ^ 24)"
    using scast_of_nat [OF g] assms(1)
    by (simp add: push_bit_eq_mult unsigned_of_nat take_bit_nat_eq_self)
  moreover have "of_int (int i - int (calculate_addr_helper ! (24 - (12 + h)))) = (of_nat (i - 2 ^ (12 - h)) :: u64)"
    using assms(2) h by (simp add: helper_nth node_at_def of_nat_diff)
  moreover have "push_bit (12 + h) (of_nat (i - 2 ^ (12 - h)) :: u64) = of_nat (node_base h i)"
    by (simp add: push_bit_eq_mult node_base_def)
  ultimately show ?thesis
    using h node_at_bound [OF assms(2)]
    by (simp add: convert_index_to_addr_def gap S_16M_def BBMA_REFUSE_def MAX_NODE_def
          helper_length add.assoc)
qed

section \<open>Refinement\<close>

lemma rd_in [simp]: "i < length t \<Longrightarrow> rd t i = Inr (t ! i)"
  by (simp add: rd_def)

lemma wr_in [simp]: "i < length t \<Longrightarrow> wr t i v = Inr (t[i := v])"
  by (simp add: wr_def)

text \<open>A pointer into the area is not \<open>NULL\<close>.\<close>

lemma area_addr:
  assumes "gap_ok b gap" and "p < 2 ^ 24"
  shows "unat (begin_alloc_addr b + of_nat (gap * 2 ^ 24 + p)) = area_of b gap + p"
    and "begin_alloc_addr b + of_nat (gap * 2 ^ 24 + p) \<noteq> 0"
proof -
  let ?n = "gap * 2 ^ 24 + p"
  have fit: "unat (begin_alloc_addr b) + ?n < 2 ^ 64" using assms by (simp add: gap_ok_def area_of_def)
  then have n: "unat (of_nat ?n :: u64) = ?n" by (intro unat_of_nat_small) simp
  show u: "unat (begin_alloc_addr b + of_nat ?n) = area_of b gap + p"
    using unat_add_nowrap [of "begin_alloc_addr b" "of_nat ?n"] fit n by (simp add: area_of_def)
  then have "unat (begin_alloc_addr b + of_nat ?n) \<noteq> 0"
    using assms by (simp add: gap_ok_def area_of_def)
  then show "begin_alloc_addr b + of_nat ?n \<noteq> 0" by (metis unsigned_0)
qed

lemma tree_at_left_upd: "0 < i \<Longrightarrow> tree_at (t[i := v]) (2 * i) h = tree_at t (2 * i) h"
  and tree_at_right_upd: "0 < i \<Longrightarrow> tree_at (t[i := v]) (2 * i + 1) h = tree_at t (2 * i + 1) h"
  using not_below_child [of i] by (simp_all add: tree_at_update)

definition same_outside :: "nat \<Rightarrow> nat list \<Rightarrow> nat list \<Rightarrow> bool" where
  "same_outside i t t' \<longleftrightarrow> length t' = length t \<and> (\<forall>j. \<not> below i j \<longrightarrow> t' ! j = t ! j)"

lemma same_outside_tree:
  "same_outside i t t' \<Longrightarrow> (\<And>j. below m j \<Longrightarrow> \<not> below i j) \<Longrightarrow> tree_at t' m h = tree_at t m h"
  by (rule tree_at_cong) (simp add: same_outside_def)

lemma child_max_in:
  "2 * i + 1 < length t \<Longrightarrow> child_max t i = Inr (max (t ! (2 * i)) (t ! (2 * i + 1)))"
  by (simp add: child_max_def left_child_def right_child_def mult.commute max_def)

lemma get_free_descend:
  assumes "length t = 8192" and "2 * i + 1 < 8192" and "t ! i \<le> 13 + h" and "12 + k \<le> t ! i" and "k \<le> h"
    and "h \<le> 11"
    and child: "get_the_free_space_in_tree b tree t (if 12 + k \<le> t ! (2 * i) then 2 * i else 2 * i + 1)
      (12 + h) (12 + k) = Inr (ptr, t')"
    and t': "ptr \<noteq> 0" "length t' = 8192" "t' ! i = t ! i"
  shows "get_the_free_space_in_tree b tree t i (12 + Suc h) (12 + k) =
    Inr (ptr, t'[i := (if t ! i = 12 + k then 1 else max (t' ! (2 * i)) (t' ! (2 * i + 1)))])"
proof -
  have lr: "left_child i = 2 * i" "right_child i = 2 * i + 1"
    by (simp_all add: left_child_def right_child_def)
  show ?thesis
    using assms(1-6) t' child child_max_in [of i t']
    by (subst get_the_free_space_in_tree.simps)
       (auto simp: lr BBMA_REFUSE_def GET_DEPARTED_def split: if_splits)
qed

lemma same_outside_child:
  assumes "same_outside c t t'" and "c = 2 * i \<or> c = 2 * i + 1" and "0 < i"
  shows "t' ! i = t ! i" and "length t' = length t" and "same_outside i t (t'[i := v])"
proof -
  have c: "\<not> below c i" using assms(2) not_below_child [OF assms(3)] by auto
  then show "t' ! i = t ! i" "length t' = length t" using assms(1) by (simp_all add: same_outside_def)
  have "below c j \<Longrightarrow> below i j" for j using assms(2) by (auto dest: below_left below_right [of i j, simplified])
  moreover have "\<not> below i j \<Longrightarrow> j \<noteq> i" for j using below_refl by metis
  ultimately show "same_outside i t (t'[i := v])"
    using assms(1) unfolding same_outside_def by (metis length_list_update nth_list_update_neq)
qed

lemma tree_at_parent_upd:
  "0 < i \<Longrightarrow> i < length t \<Longrightarrow>
     tree_at (t[i := v]) i (Suc h) = Split v (tree_at t (2 * i) h) (tree_at t (2 * i + 1) h)"
  using tree_at_left_upd [of i t v h] tree_at_right_upd [of i t v h] by simp

lemma tree_at_sibling:
  assumes "0 < i"
  shows "same_outside (2 * i) t t' \<Longrightarrow> tree_at t' (2 * i + 1) h = tree_at t (2 * i + 1) h"
    and "same_outside (2 * i + 1) t t' \<Longrightarrow> tree_at t' (2 * i) h = tree_at t (2 * i) h"
  using below_disjoint [OF assms] by (auto intro: same_outside_tree)

lemma get_free_step:
  assumes "length t = 8192" and "0 < i" and "2 * i + 1 < 8192" and "t ! i \<le> 13 + h" and "12 + k \<le> t ! i"
    and "k \<le> h" and "h \<le> 11"
    and c: "c = (if 12 + k \<le> t ! (2 * i) then 2 * i else 2 * i + 1)"
    and t': "get_the_free_space_in_tree b tree t c (12 + h) (12 + k) = Inr (ptr, t')"
      "ptr \<noteq> 0" "same_outside c t t'"
  shows "\<exists>t''. get_the_free_space_in_tree b tree t i (12 + Suc h) (12 + k) = Inr (ptr, t'') \<and>
      same_outside i t t'' \<and>
      tree_at t'' i (Suc h) =
        Split (new_val k (t ! i) (tree_at t' (2 * i) h) (tree_at t' (2 * i + 1) h))
          (tree_at t' (2 * i) h) (tree_at t' (2 * i + 1) h)"
proof -
  have "c = 2 * i \<or> c = 2 * i + 1" using c by simp
  note same = same_outside_child [OF t'(3) this assms(2)]
  let ?nv = "new_val k (t ! i) (tree_at t' (2 * i) h) (tree_at t' (2 * i + 1) h)"
  have "get_the_free_space_in_tree b tree t i (12 + Suc h) (12 + k) = Inr (ptr, t'[i := ?nv])"
    using get_free_descend [OF assms(1,3,4,5,6,7), of b tree ptr t'] t' same(1,2) assms(1) c
    by (simp add: new_val_def)
  moreover have "tree_at (t'[i := ?nv]) i (Suc h) = Split ?nv (tree_at t' (2 * i) h) (tree_at t' (2 * i + 1) h)"
    using assms(1,2,3) same(2) by (intro tree_at_parent_upd) auto
  ultimately show ?thesis using same(3) by blast
qed

lemma get_free_refines:
  "length t = 8192 \<Longrightarrow> node_at h i \<Longrightarrow> twf h (tree_at t i h) \<Longrightarrow> 12 + k \<le> t ! i \<Longrightarrow> k \<le> h \<Longrightarrow>
   gap_ok b gap \<Longrightarrow> talloc k h (node_base h i) (tree_at t i h) = (p, u) \<Longrightarrow>
   \<exists>t'. get_the_free_space_in_tree b (tree_of b gap) t i (12 + h) (12 + k) =
          Inr (begin_alloc_addr b + of_nat (gap * 2 ^ 24 + p), t') \<and>
        same_outside i t t' \<and> tree_at t' i h = u \<and> p < 2 ^ 24"
proof (induction h arbitrary: i t p u)
  case 0
  have i: "i < 8192" "0 < i" using node_at_bound [OF 0(2)] by auto
  have "t ! i = 12" "k = 0" using 0 by auto
  moreover have "p = node_base 0 i" "u = Page 0" using 0(7) by auto
  moreover have "node_base 0 i < 2 ^ 24" using node_base_bound [OF 0(2)] by simp
  ultimately show ?case
    using i 0(1) convert_index [of gap 0 i b] 0(2) 0(6)
    by (subst get_the_free_space_in_tree.simps)
       (auto simp: gap_ok_def BBMA_REFUSE_def FULL_USED_def same_outside_def intro: nth_list_update_neq)
next
  case (Suc h)
  note child = node_at_child [OF Suc.prems(2)]
  have i: "i < 8192" "0 < i" "h \<le> 11" using node_at_bound [OF Suc.prems(2)] Suc.prems(2)
    by (auto simp: node_at_def)
  have lr: "2 * i + 1 < 8192" using node_at_bound [OF child(2)] by simp
  show ?case
  proof (cases "Suc h = k")
    case True
    have top: "t ! i = 13 + h" using wf_val_le [OF Suc.prems(3)] Suc.prems(4) True by simp
    have pu: "p = node_base (Suc h) i" "u = Split 0 (tree_at t (2 * i) h) (tree_at t (2 * i + 1) h)"
      using Suc.prems(7) True by auto
    have "node_base (Suc h) i < 2 ^ 24" 
      using node_base_bound [OF Suc.prems(2)] by (rule less_le_trans [rotated]) simp
    then show ?thesis
      using i Suc.prems(1,2,6) convert_index [of gap "Suc h" i b] top True pu
      by (subst get_the_free_space_in_tree.simps)
         (auto simp: gap_ok_def BBMA_REFUSE_def FULL_USED_def same_outside_def
            tree_at_left_upd tree_at_right_upd [simplified] intro: nth_list_update_neq)
  next
    case False
    then have kh: "k \<le> h" using Suc.prems(5) by simp
    let ?l = "tree_at t (2 * i) h" and ?r = "tree_at t (2 * i + 1) h"
    have v: "t ! i \<noteq> 0" using Suc.prems(4) by simp
    have wf': "twf (Suc h) (Split (t ! i) ?l ?r)" using Suc.prems(3) by simp
    note parts = wf_SplitD [OF wf' v]
    have le: "t ! i \<le> 13 + h" using parts(3) .
    have both: "12 + k \<le> max (t ! (2 * i)) (t ! (2 * i + 1))"
      using wf_Split_max [OF wf' Suc.prems(4) kh] by simp
    let ?b = "node_base (Suc h) i"
    show ?thesis
    proof (cases "12 + k \<le> t ! (2 * i)")
      case True
      obtain u' where u': "talloc k h ?b ?l = (p, u')" "u = Split (new_val k (t ! i) u' ?r) u' ?r"
        using Suc.prems(7) False True by (auto split: prod.splits)
      obtain t' where t': "get_the_free_space_in_tree b (tree_of b gap) t (2 * i) (12 + h) (12 + k) =
          Inr (begin_alloc_addr b + of_nat (gap * 2 ^ 24 + p), t')"
          "same_outside (2 * i) t t'" "tree_at t' (2 * i) h = u'" "p < 2 ^ 24"
        using Suc.IH [OF Suc.prems(1) child(1) parts(1) _ kh Suc.prems(6), of p u'] True u'(1) child(3)
        by auto
      show ?thesis
        using get_free_step [OF Suc.prems(1) i(2) lr le Suc.prems(4) kh i(3) refl, of b "tree_of b gap"]
          True t' area_addr(2) [OF Suc.prems(6) t'(4)] tree_at_sibling(1) [OF i(2) t'(2)] u'(2)
        by fastforce
    next
      case right: False
      obtain u' where u': "talloc k h (?b + 2 ^ (12 + h)) ?r = (p, u')"
          "u = Split (new_val k (t ! i) ?l u') ?l u'"
        using Suc.prems(7) False right by (auto split: prod.splits)
      have "12 + k \<le> t ! (2 * i + 1)" using both right by simp
      then obtain t' where t': "get_the_free_space_in_tree b (tree_of b gap) t (2 * i + 1) (12 + h) (12 + k) =
          Inr (begin_alloc_addr b + of_nat (gap * 2 ^ 24 + p), t')"
          "same_outside (2 * i + 1) t t'" "tree_at t' (2 * i + 1) h = u'" "p < 2 ^ 24"
        using Suc.IH [OF Suc.prems(1) child(2) parts(2) _ kh Suc.prems(6), of p u'] u'(1) child(4)
        by auto
      show ?thesis
        using get_free_step [OF Suc.prems(1) i(2) lr le Suc.prems(4) kh i(3) refl, of b "tree_of b gap"]
          right t' area_addr(2) [OF Suc.prems(6) t'(4)] tree_at_sibling(2) [OF i(2) t'(2)] u'(2)
        by fastforce
    qed
  qed
qed

definition area_ptr :: "bbma_base \<Rightarrow> nat \<Rightarrow> nat \<Rightarrow> addr" where
  "area_ptr b gap q = begin_alloc_addr b + of_nat (gap * 2 ^ 24 + q)"

lemma area_ptr_unat: "gap_ok b gap \<Longrightarrow> q < 2 ^ 24 \<Longrightarrow> unat (area_ptr b gap q) = area_of b gap + q"
  by (simp only: area_ptr_def area_addr)

lemma area_ptr_less:
  "gap_ok b gap \<Longrightarrow> p < 2 ^ 24 \<Longrightarrow> q < 2 ^ 24 \<Longrightarrow> area_ptr b gap p < area_ptr b gap q \<longleftrightarrow> p < q"
  by (simp add: word_less_nat_alt area_ptr_unat)

lemma area_ptr_eq:
  "gap_ok b gap \<Longrightarrow> p < 2 ^ 24 \<Longrightarrow> q < 2 ^ 24 \<Longrightarrow> area_ptr b gap p = area_ptr b gap q \<longleftrightarrow> p = q"
  by (simp add: word_unat_eq_iff area_ptr_unat)

lemma area_ptr_add: "area_ptr b gap p + 2 ^ n = area_ptr b gap (p + 2 ^ n)"
  by (simp add: area_ptr_def)

text \<open>One level of the walk down to a block, and what it does on the way back.\<close>

lemma free_step:
  assumes "length t = 8192" and "node_at (Suc h) i" and "t ! i \<le> 13 + h" and "gap_ok b gap"
    and "t ! i \<noteq> 0"
    and q: "node_base (Suc h) i \<le> q" "q < 2 ^ 24"
    and c: "c = (if q < node_base (Suc h) i + 2 ^ (12 + h) then 2 * i else 2 * i + 1)"
    and t': "free_tree_ptr b (tree_of b gap) t c (area_ptr b gap q) (12 + h) = Inr t'"
      "same_outside c t t'"
    and m: "12 \<le> merged_val (Suc h) (tree_at t' (2 * i) h) (tree_at t' (2 * i + 1) h)"
  shows "\<exists>t''. free_tree_ptr b (tree_of b gap) t i (area_ptr b gap q) (12 + Suc h) = Inr t'' \<and>
      same_outside i t t'' \<and>
      tree_at t'' i (Suc h) =
        Split (merged_val (Suc h) (tree_at t' (2 * i) h) (tree_at t' (2 * i + 1) h))
          (tree_at t' (2 * i) h) (tree_at t' (2 * i + 1) h)"
proof -
  let ?b = "node_base (Suc h) i"
  have i: "0 < i" "i < 8192" using node_at_bound [OF assms(2)] by auto
  have lr: "2 * i + 1 < 8192" using node_at_bound [OF node_at_child(2) [OF assms(2)]] by simp
  have "c = 2 * i \<or> c = 2 * i + 1" using c by simp
  note same = same_outside_child [OF t'(2) this i(1)]
  have b: "?b + 2 ^ (13 + h) \<le> 2 ^ 24" using node_base_bound [OF assms(2)] by simp
  have "(2 :: nat) ^ (13 + h) = 2 ^ (12 + h) + 2 ^ (12 + h)" by (simp add: power_add)
  moreover have "(0 :: nat) < 2 ^ (12 + h)" by simp
  ultimately have bb: "?b < 2 ^ 24" "?b + 2 ^ (12 + h) < 2 ^ 24" using b by linarith+
  have conv: "convert_index_to_addr b (tree_of b gap) i (13 + h) = Inr (area_ptr b gap ?b)"
    using convert_index [OF _ assms(2), of gap b] assms(4) by (simp add: gap_ok_def area_ptr_def)
  have le: "area_ptr b gap ?b \<le> area_ptr b gap q"
    using q(1) area_ptr_less [OF assms(4) q(2) bb(1)] by (simp add: not_less [symmetric])
  have lt: "area_ptr b gap q < area_ptr b gap (?b + 2 ^ (12 + h)) \<longleftrightarrow> q < ?b + 2 ^ (12 + h)"
    by (rule area_ptr_less [OF assms(4) q(2) bb(2)])
  have eq: "area_ptr b gap ?b = area_ptr b gap q \<Longrightarrow> q < ?b + 2 ^ (12 + h)"
    using area_ptr_eq [OF assms(4) bb(1) q(2)] by simp
  let ?nv = "merged_val (Suc h) (tree_at t' (2 * i) h) (tree_at t' (2 * i + 1) h)"
  have nv: "(if t' ! (2 * i) = 12 + h \<and> t' ! (2 * i + 1) = 12 + h then 12 + Suc h
      else if t' ! (2 * i + 1) \<le> t' ! (2 * i) then t' ! (2 * i) else t' ! (2 * i + 1)) = ?nv"
    by (simp add: merged_val_def max_def)
  have lrc: "left_child i = 2 * i" "right_child i = 2 * i + 1"
    by (simp_all add: left_child_def right_child_def)
  have ret: "res_bind (rd t' (2 * i)) (\<lambda>lv. res_bind (rd t' (2 * i + 1)) (\<lambda>rv.
      let nv = (if lv = 12 + h \<and> rv = 12 + h then 12 + Suc h else if lv \<ge> rv then lv else rv)
      in if nv = GET_DEPARTED then Inl Assert else if nv = FULL_USED then Inl Assert
         else wr t' i nv)) = Inr (t'[i := ?nv])"
    using i lr assms(1) same(2) m by (simp only: rd_in wr_in nv Let_def res_bind_simps) (simp add: size_consts)
  have "free_tree_ptr b (tree_of b gap) t i (area_ptr b gap q) (12 + Suc h) = Inr (t'[i := ?nv])"
  proof (cases "q < ?b + 2 ^ (12 + h)")
    case True
    then have "free_tree_ptr b (tree_of b gap) t (2 * i) (area_ptr b gap q) (12 + h) = Inr t'"
      using t'(1) c by simp
    then show ?thesis
      using i assms(1,3,5) conv le lt True ret
      by (subst free_tree_ptr.simps)
         (simp add: lrc area_ptr_add MAX_NODE_def S_4K_def FULL_USED_def)
  next
    case False
    then have "free_tree_ptr b (tree_of b gap) t (2 * i + 1) (area_ptr b gap q) (12 + h) = Inr t'"
      "area_ptr b gap ?b \<noteq> area_ptr b gap q"
      using t'(1) c eq by auto
    then show ?thesis
      using i assms(1,3,5) conv le lt False ret
      by (subst free_tree_ptr.simps)
         (simp add: lrc area_ptr_add MAX_NODE_def S_4K_def FULL_USED_def)
  qed
  moreover have "tree_at (t'[i := ?nv]) i (Suc h) = Split ?nv (tree_at t' (2 * i) h) (tree_at t' (2 * i + 1) h)"
    using assms(1) i same(2) by (intro tree_at_parent_upd) auto
  ultimately show ?thesis using same(3) by blast
qed

lemma free_refines:
  "length t = 8192 \<Longrightarrow> node_at h i \<Longrightarrow> twf h (tree_at t i h) \<Longrightarrow> gap_ok b gap \<Longrightarrow>
   (q, k) \<in> taken h (node_base h i) (tree_at t i h) \<Longrightarrow>
   \<exists>t'. free_tree_ptr b (tree_of b gap) t i (area_ptr b gap q) (12 + h) = Inr t' \<and>
        same_outside i t t' \<and> tree_at t' i h = tfree q h (node_base h i) (tree_at t i h)"
proof (induction h arbitrary: i t)
  case 0
  have i: "i < 8192" "0 < i" using node_at_bound [OF 0(2)] by auto
  have v: "t ! i = 0" "q = node_base 0 i" using 0(5) by (auto split: if_splits)
  have "convert_index_to_addr b (tree_of b gap) i 12 = Inr (area_ptr b gap q)"
    using convert_index [OF _ 0(2), of gap b] 0(4) v by (simp add: gap_ok_def area_ptr_def)
  then have "free_tree_ptr b (tree_of b gap) t i (area_ptr b gap q) (12 + 0) = Inr (t[i := 12])"
    using i 0(1) v by (subst free_tree_ptr.simps) (simp add: MAX_NODE_def S_4K_def FULL_USED_def)
  moreover have "same_outside i t (t[i := 12])"
    unfolding same_outside_def by (metis below_refl length_list_update nth_list_update_neq)
  ultimately show ?case using i 0(1) by auto
next
  case (Suc h)
  note child = node_at_child [OF Suc.prems(2)]
  have i: "i < 8192" "0 < i" using node_at_bound [OF Suc.prems(2)] by auto
  let ?l = "tree_at t (2 * i) h" and ?r = "tree_at t (2 * i + 1) h" and ?b = "node_base (Suc h) i"
  show ?case
  proof (cases "t ! i = 0")
    case True
    then have q: "q = ?b" using Suc.prems(5) by simp
    have "convert_index_to_addr b (tree_of b gap) i (12 + Suc h) = Inr (area_ptr b gap q)"
      using convert_index [OF _ Suc.prems(2), of gap b] Suc.prems(4) q by (simp add: gap_ok_def area_ptr_def)
    then have "free_tree_ptr b (tree_of b gap) t i (area_ptr b gap q) (12 + Suc h) = Inr (t[i := 12 + Suc h])"
      using i Suc.prems(1) True by (subst free_tree_ptr.simps) (simp add: MAX_NODE_def S_4K_def FULL_USED_def)
    moreover have "same_outside i t (t[i := 12 + Suc h])"
      unfolding same_outside_def by (metis below_refl length_list_update nth_list_update_neq)
    ultimately show ?thesis
      using tree_at_parent_upd [of i t "12 + Suc h" h] i Suc.prems(1) True q by simp
  next
    case False
    have wf': "twf (Suc h) (Split (t ! i) ?l ?r)" using Suc.prems(3) by simp
    note parts = wf_SplitD [OF wf' False]
    have bnd: "?b \<le> q" "q < 2 ^ 24"
      using taken_bounds [OF Suc.prems(5)] node_base_bound [OF Suc.prems(2)]
        less_le_trans [of q "q + 2 ^ (12 + k)" "2 ^ 24"] by auto
    have good: "twf (Suc h) (tfree q (Suc h) ?b (Split (t ! i) ?l ?r)) \<and>
        12 \<le> val (tfree q (Suc h) ?b (Split (t ! i) ?l ?r))"
      using tfree_correct [OF Suc.prems(3,5)] by simp
    note step = free_step [OF Suc.prems(1,2) parts(3) Suc.prems(4) False bnd refl]
    show ?thesis
    proof (cases "q < ?b + 2 ^ (12 + h)")
      case True
      have "(q, k) \<in> taken h (node_base h (2 * i)) ?l"
        using Suc.prems(5) False True taken_bounds [of q k h "?b + 2 ^ (12 + h)" ?r] child(3) by auto
      from Suc.IH [OF Suc.prems(1) child(1) parts(1) Suc.prems(4) this] obtain t' where
        t': "free_tree_ptr b (tree_of b gap) t (2 * i) (area_ptr b gap q) (12 + h) = Inr t'"
          "same_outside (2 * i) t t'" "tree_at t' (2 * i) h = tfree q h ?b ?l"
        using child(3) by auto
      have r': "tree_at t' (2 * i + 1) h = ?r" using tree_at_sibling(1) [OF i(2) t'(2)] .
      have eq: "tfree q (Suc h) ?b (Split (t ! i) ?l ?r) =
          Split (merged_val (Suc h) (tfree q h ?b ?l) ?r) (tfree q h ?b ?l) ?r"
        using True False by (simp add: Let_def)
      then show ?thesis using step [of t'] True t' r' good by simp
    next
      case right: False
      have "(q, k) \<in> taken h (node_base h (2 * i + 1)) ?r"
        using Suc.prems(5) False right taken_bounds [of q k h ?b ?l] child(4)
          less_le_trans [of q "q + 2 ^ (12 + k)"] by fastforce
      from Suc.IH [OF Suc.prems(1) child(2) parts(2) Suc.prems(4) this] obtain t' where
        t': "free_tree_ptr b (tree_of b gap) t (2 * i + 1) (area_ptr b gap q) (12 + h) = Inr t'"
          "same_outside (2 * i + 1) t t'" "tree_at t' (2 * i + 1) h = tfree q h (?b + 2 ^ (12 + h)) ?r"
        using child(4) by auto
      have l': "tree_at t' (2 * i) h = ?l" using tree_at_sibling(2) [OF i(2) t'(2)] .
      have eq: "tfree q (Suc h) ?b (Split (t ! i) ?l ?r) =
          Split (merged_val (Suc h) ?l (tfree q h (?b + 2 ^ (12 + h)) ?r)) ?l (tfree q h (?b + 2 ^ (12 + h)) ?r)"
        using right False by (simp add: Let_def)
      then show ?thesis using step [of t'] right t' l' good by simp
    qed
  qed
qed

end
