(* ===== verification/Buddy_System.thy ===== *)
theory Buddy_System
  imports Buddy_Refine
begin

text \<open>
  The buddy allocator as a whole (\<open>kernel/src/tbma.c\<close>, the alignment done by
  \<open>pmm_init\<close> of \<open>kernel/src/pmm.c\<close>): a table of trees with one spin lock each, the
  search for a tree, and the two entry points \<open>bbma_alloc\<close> and \<open>bbma_free\<close>.
\<close>

section \<open>State\<close>

definition MAX_TREE :: nat where "MAX_TREE = 32"
definition MAX_CPU :: nat where "MAX_CPU = 8"

text \<open>
  \<open>all_trees\<close> holds pointers (0 is \<open>NULL\<close>), and \<open>tree_mem\<close> the bytes of the array a
  pointer points to. \<open>tree_locks\<close> and \<open>cpu_trees\<close> are the file-scope arrays.
\<close>

record bbma =
  bb_base :: bbma_base
  all_trees :: "addr list"
  tree_mem :: "addr \<Rightarrow> nat list"
  tree_locks :: "int list"
  cpu_trees :: "nat list list"
  tree_num :: nat

definition tree_bytes :: "bbma \<Rightarrow> nat \<Rightarrow> nat list" where
  "tree_bytes s i = tree_mem s (all_trees s ! i)"

definition set_lock :: "bbma \<Rightarrow> nat \<Rightarrow> int \<Rightarrow> bbma" where
  "set_lock s i v = s\<lparr>tree_locks := (tree_locks s)[i := v]\<rparr>"

section \<open>Finding a tree\<close>

text \<open>
  The loop of \<open>find_available_tree\<close> over the remaining indices. A tree is returned with its
  lock held; a failed \<open>try_lock\<close> moves on.
\<close>

fun find_tree_loop :: "bbma \<Rightarrow> nat \<Rightarrow> nat list \<Rightarrow> (int \<times> bbma) res" where
  "find_tree_loop s bbma_size [] = Inr (-1, s)"
| "find_tree_loop s bbma_size (i # is) =
    (if length (tree_locks s) \<le> i \<or> length (all_trees s) \<le> i then Inl Undefined
     else
       let (ok, lk) = try_lock (tree_locks s ! i); s1 = set_lock s i lk in
       if ok then
         (if all_trees s ! i = 0 then Inl Undefined
          else res_bind (rd (tree_bytes s i) 1) (\<lambda>v.
            if v < bbma_size then
              find_tree_loop (set_lock s1 i (spin_unlock (tree_locks s1 ! i))) bbma_size is
            else Inr (int i, s1)))
       else find_tree_loop s1 bbma_size is)"

definition find_available_tree :: "bbma \<Rightarrow> nat \<Rightarrow> (int \<times> bbma) res" where
  "find_available_tree s bbma_size = find_tree_loop s bbma_size [1..<Suc (tree_num s)]"

definition find_the_free_space_in_bbma_system :: "bbma \<Rightarrow> nat \<Rightarrow> (addr \<times> bbma) res" where
  "find_the_free_space_in_bbma_system s bbma_size =
    (if bbma_size = BBMA_REFUSE then Inl Assert
     else res_bind (find_available_tree s bbma_size) (\<lambda>(tree_index, s1).
       if tree_index = -1 then Inr (0, s1)
       else let i = nat tree_index in
         if \<not> i \<le> tree_num s1 then Inl Assert
         else let tree = all_trees s1 ! i in
         if tree = 0 then Inr (0, s1)
         else res_bind (rd (tree_bytes s1 i) 1) (\<lambda>v.
           if \<not> v \<ge> bbma_size then Inl Assert
           else res_bind (get_the_free_space_in_tree (bb_base s1) tree (tree_bytes s1 i) 1 S_16M bbma_size)
             (\<lambda>(the_space, t').
               let s2 = s1\<lparr>tree_mem := (tree_mem s1)(tree := t')\<rparr> in
               Inr (the_space, set_lock s2 i (spin_unlock (tree_locks s2 ! i)))))))"

definition bbma_alloc :: "bbma \<Rightarrow> u64 \<Rightarrow> (addr \<times> bbma) res" where
  "bbma_alloc s sz =
    (let bbma_size = determine_bbma_size sz in
     if bbma_size = BBMA_REFUSE then Inr (0, s)
     else res_bind (find_the_free_space_in_bbma_system s bbma_size) (\<lambda>(ptr, s').
       res_bind (is_align_to ptr bbma_size) (\<lambda>ok.
         if ok then Inr (ptr, s') else Inl Assert)))"

section \<open>Giving a block back\<close>

text \<open>The tree number is returned as an \<open>int\<close>; a negative one would index before the table.\<close>

definition determine_which_tree :: "bbma \<Rightarrow> addr \<Rightarrow> int res" where
  "determine_which_tree s ptr =
    (if \<not> ptr > begin_alloc_addr (bb_base s) then Inl Assert
     else let mask = push_bit S_16M 1 - 1;
              mem_begin = ptr AND NOT mask
          in Inr (sint (ucast (drop_bit S_16M (mem_begin - begin_alloc_addr (bb_base s)) + 1) :: 32 word)))"

definition bbma_free :: "bbma \<Rightarrow> addr \<Rightarrow> bbma res" where
  "bbma_free s ptr =
    (if ptr = 0 then Inr s
     else res_bind (determine_which_tree s ptr) (\<lambda>ti.
       if ti < 0 \<or> int (length (all_trees s)) \<le> ti then Inl Undefined
       else let i = nat ti; tree = all_trees s ! i in
       if tree = 0 then Inl Assert
       else res_bind (spin_lock (tree_locks s ! i)) (\<lambda>lk.
         let s1 = set_lock s i lk in
         res_bind (free_tree_ptr (bb_base s1) tree (tree_bytes s1 i) 1 ptr S_16M) (\<lambda>t'.
           let s2 = s1\<lparr>tree_mem := (tree_mem s1)(tree := t')\<rparr> in
           Inr (set_lock s2 i (spin_unlock (tree_locks s2 ! i)))))))"

section \<open>Start-up\<close>

text \<open>
  \<open>distribute_tree\<close> deals the tree numbers out to the CPUs in consecutive runs; the first
  \<open>tree_count mod cpu_num\<close> CPUs get one more. Writes outside a row are undefined.
\<close>

definition put_cpu_tree :: "nat list list \<Rightarrow> nat \<Rightarrow> nat \<Rightarrow> nat \<Rightarrow> nat list list res" where
  "put_cpu_tree ct i t v =
    (if i < length ct \<and> t < length (ct ! i) then Inr (ct[i := (ct ! i)[t := v]]) else Inl Undefined)"

fun deal_row :: "nat list list \<Rightarrow> nat \<Rightarrow> nat list \<Rightarrow> nat \<Rightarrow> (nat list list \<times> nat) res" where
  "deal_row ct i [] cur = Inr (ct, cur)"
| "deal_row ct i (t # ts) cur = res_bind (put_cpu_tree ct i t cur) (\<lambda>ct'. deal_row ct' i ts (Suc cur))"

fun deal_cpus :: "nat list list \<Rightarrow> nat list \<Rightarrow> nat \<Rightarrow> nat \<Rightarrow> nat \<Rightarrow> nat list list res" where
  "deal_cpus ct [] normal_num extra_num cur = Inr ct"
| "deal_cpus ct (i # is) normal_num extra_num cur =
     res_bind (deal_row ct i [0..<normal_num] cur) (\<lambda>(ct1, cur1).
       if extra_num > 0 then
         res_bind (put_cpu_tree ct1 i normal_num cur1) (\<lambda>ct2.
           deal_cpus ct2 is normal_num (extra_num - 1) (Suc cur1))
       else deal_cpus ct1 is normal_num extra_num cur1)"

definition distribute_tree :: "nat list list \<Rightarrow> nat \<Rightarrow> nat \<Rightarrow> nat list list res" where
  "distribute_tree ct cpu_num tree_count =
    (if cpu_num = 0 then Inl Undefined
     else deal_cpus ct [0..<cpu_num] (tree_count div cpu_num) (tree_count mod cpu_num) 1)"

text \<open>
  The loop of \<open>bbma_init\<close>: it stops where the next area would pass \<open>end\<close>. The write
  \<open>all_trees[tree_cnt]\<close> is undefined from index \<open>MAX_TREE + 1\<close> on.
\<close>

function bbma_init_loop :: "bbma \<Rightarrow> addr \<Rightarrow> addr \<Rightarrow> addr \<Rightarrow> nat \<Rightarrow> (bbma \<times> nat) res" where
  "bbma_init_loop s cur_mem_addr cur_tree_addr endp tree_cnt =
    (if cur_mem_addr + push_bit S_16M 1 \<le> endp then
       (if MAX_TREE < tree_cnt then Inl Undefined
        else bbma_init_loop
          (s\<lparr>all_trees := (all_trees s)[tree_cnt := cur_tree_addr],
             tree_mem := (tree_mem s)(cur_tree_addr := initialize_tree (tree_mem s cur_tree_addr))\<rparr>)
          (cur_mem_addr + push_bit S_16M 1) (cur_tree_addr + of_nat MAX_NODE) endp (Suc tree_cnt))
     else Inr (s, tree_cnt))"
  by pat_completeness auto
termination
  by (relation "measure (\<lambda>(s, m, t, e, n). Suc MAX_TREE - n)") auto

declare bbma_init_loop.simps [simp del]

definition bbma_init :: "bbma \<Rightarrow> nat \<Rightarrow> addr \<Rightarrow> addr \<Rightarrow> bbma res" where
  "bbma_init s cpu_num start endp =
    (let begin_alloc = start + push_bit S_16M 1;
         s0 = s\<lparr>bb_base := \<lparr>real_start_addr = start, begin_alloc_addr = begin_alloc\<rparr>\<rparr>
     in res_bind (bbma_init_loop s0 begin_alloc start endp 1) (\<lambda>(s1, tree_cnt).
        res_bind (distribute_tree (cpu_trees s1) cpu_num tree_cnt) (\<lambda>ct.
          Inr (s1\<lparr>tree_num := tree_cnt - 1, cpu_trees := ct\<rparr>))))"

text \<open>The file-scope variables before any code runs, over memory of any content.\<close>

definition bbma_zero :: "(addr \<Rightarrow> nat list) \<Rightarrow> bbma" where
  "bbma_zero mem = \<lparr>bb_base = \<lparr>real_start_addr = 0, begin_alloc_addr = 0\<rparr>,
     all_trees = replicate (Suc MAX_TREE) 0, tree_mem = mem,
     tree_locks = replicate (Suc MAX_TREE) 0,
     cpu_trees = replicate MAX_CPU (replicate (Suc MAX_TREE) 0), tree_num = 0\<rparr>"

end
