(* ===== verification/Buddy_Spec.thy ===== *)
theory Buddy_Spec
  imports Buddy_System
begin

text \<open>
  What the buddy allocator promises: the invariant of the table of trees, the set of blocks
  handed out, and the effect of \<open>bbma_alloc\<close> and \<open>bbma_free\<close> on that set.
\<close>

section \<open>Invariant and ownership\<close>

definition tree_ok :: "bbma \<Rightarrow> nat \<Rightarrow> bool" where
  "tree_ok s i \<longleftrightarrow> all_trees s ! i = tree_of (bb_base s) (i - 1) \<and> length (tree_bytes s i) = 8192 \<and>
     twf 12 (tree_at (tree_bytes s i) 1 12)"

definition bbma_inv :: "bbma \<Rightarrow> bool" where
  "bbma_inv s \<longleftrightarrow>
     length (all_trees s) = 33 \<and> length (tree_locks s) = 33 \<and> tree_num s \<le> 32 \<and>
     set (tree_locks s) \<subseteq> {0, 1} \<and>
     0 < unat (real_start_addr (bb_base s)) \<and>
     unat (begin_alloc_addr (bb_base s)) = unat (real_start_addr (bb_base s)) + 2 ^ 24 \<and>
     2 ^ 24 dvd unat (begin_alloc_addr (bb_base s)) \<and>
     unat (begin_alloc_addr (bb_base s)) + tree_num s * 2 ^ 24 \<le> 2 ^ 64 \<and>
     (\<forall>i \<in> {1..tree_num s}. tree_ok s i)"

text \<open>The blocks handed out, as pairs of an address and a height (exponent minus 12).\<close>

definition owned :: "bbma \<Rightarrow> (nat \<times> nat) set" where
  "owned s = {(area_of (bb_base s) (i - 1) + p, k) | i p k.
      1 \<le> i \<and> i \<le> tree_num s \<and> (p, k) \<in> taken 12 0 (tree_at (tree_bytes s i) 1 12)}"

lemma bbma_invD:
  assumes "bbma_inv s" and "1 \<le> i" and "i \<le> tree_num s"
  shows "gap_ok (bb_base s) (i - 1)" and "all_trees s ! i = tree_of (bb_base s) (i - 1)"
    and "length (tree_bytes s i) = 8192" and "twf 12 (tree_at (tree_bytes s i) 1 12)"
    and "i < length (all_trees s)" and "i < length (tree_locks s)"
    and "unat (all_trees s ! i) = unat (real_start_addr (bb_base s)) + (i - 1) * 8192"
    and "all_trees s ! i \<noteq> 0"
proof -
  have ok: "tree_ok s i" using assms by (simp add: bbma_inv_def)
  then show at: "all_trees s ! i = tree_of (bb_base s) (i - 1)" and "length (tree_bytes s i) = 8192"
    and "twf 12 (tree_at (tree_bytes s i) 1 12)"
    by (simp_all add: tree_ok_def)
  show "i < length (all_trees s)" "i < length (tree_locks s)" using assms by (auto simp: bbma_inv_def)
  have num: "tree_num s \<le> 32" "unat (begin_alloc_addr (bb_base s)) + tree_num s * 2 ^ 24 \<le> 2 ^ 64"
    and start: "0 < unat (real_start_addr (bb_base s))"
      "unat (begin_alloc_addr (bb_base s)) = unat (real_start_addr (bb_base s)) + 2 ^ 24"
    using assms(1) by (simp_all add: bbma_inv_def)
  then show "gap_ok (bb_base s) (i - 1)" using assms(2,3) 
    by (auto simp: gap_ok_def area_of_def)
  have fit: "unat (real_start_addr (bb_base s)) + (i - 1) * 8192 < 2 ^ 64"
    using num start assms(2,3) by auto
  have "unat (of_nat ((i - 1) * 8192) :: u64) = (i - 1) * 8192"
    using num(1) assms(3) by (intro unat_of_nat_small) simp
  then show *: "unat (all_trees s ! i) = unat (real_start_addr (bb_base s)) + (i - 1) * 8192"
    using fit unat_add_nowrap [of "real_start_addr (bb_base s)" "of_nat ((i - 1) * 8192)"]
    by (simp only: at tree_of_def MAX_NODE_def) simp
  then show "all_trees s ! i \<noteq> 0" using start(1) by auto
qed

lemma all_trees_inj:
  assumes "bbma_inv s" and "1 \<le> i" and "i \<le> tree_num s" and "1 \<le> j" and "j \<le> tree_num s"
  shows "all_trees s ! i = all_trees s ! j \<longleftrightarrow> i = j"
  using bbma_invD(7) [OF assms(1-3)] bbma_invD(7) [OF assms(1,4,5)] assms(2,4)
  by (auto simp: word_unat_eq_iff)

text \<open>Replacing the bytes of one tree.\<close>

definition put_tree :: "bbma \<Rightarrow> nat \<Rightarrow> nat list \<Rightarrow> bbma" where
  "put_tree s i t = s\<lparr>tree_mem := (tree_mem s)(all_trees s ! i := t)\<rparr>"

lemma put_tree_fields [simp]:
  "bb_base (put_tree s i t) = bb_base s" "all_trees (put_tree s i t) = all_trees s"
  "tree_locks (put_tree s i t) = tree_locks s" "tree_num (put_tree s i t) = tree_num s"
  by (simp_all add: put_tree_def)

lemma put_tree_bytes:
  assumes "bbma_inv s" and "1 \<le> i" and "i \<le> tree_num s" and "1 \<le> j" and "j \<le> tree_num s"
  shows "tree_bytes (put_tree s i t) j = (if j = i then t else tree_bytes s j)"
  using all_trees_inj [OF assms(1,4,5,2,3)] by (simp add: tree_bytes_def put_tree_def)

lemma put_tree_inv:
  assumes "bbma_inv s" and "1 \<le> i" and "i \<le> tree_num s" and "length t = 8192" and "twf 12 (tree_at t 1 12)"
  shows "bbma_inv (put_tree s i t)"
proof -
  have "tree_ok (put_tree s i t) j" if "j \<in> {1..tree_num s}" for j
    using that put_tree_bytes [OF assms(1-3), of j] assms bbma_invD(2,3,4) [OF assms(1), of j]
    by (simp add: tree_ok_def)
  then show ?thesis using assms(1) unfolding bbma_inv_def put_tree_fields by blast
qed

lemma area_of_disjoint:
  assumes "i < j" and "p < 2 ^ 24"
  shows "area_of b i + p < area_of b j"
proof -
  have "(i + 1) * 2 ^ 24 \<le> j * 2 ^ 24" using assms(1) by (intro mult_le_mono1) simp
  then show ?thesis using assms(2) by (simp add: area_of_def)
qed

lemma area_of_outside:
  assumes "i \<noteq> j" and "p < 2 ^ 24"
  shows "\<not> (area_of b i \<le> area_of b j + p \<and> area_of b j + p < area_of b i + 2 ^ 24)"
proof (cases "i < j")
  case True
  then have "(i + 1) * 2 ^ 24 \<le> j * 2 ^ 24" by (intro mult_le_mono1) simp
  then show ?thesis by (simp add: area_of_def)
next
  case False
  then have "j < i" using assms(1) by simp
  then show ?thesis using area_of_disjoint [of j i p b] assms(2) by simp
qed

lemma area_of_eq:
  assumes "area_of b i + p = area_of b j + q" and "p < 2 ^ 24" and "q < 2 ^ 24"
  shows "i = j \<and> p = q"
  using assms area_of_disjoint [of i j p b] area_of_disjoint [of j i q b]
  by (cases i j rule: linorder_cases) auto

lemma taken_lt: "(p, k) \<in> taken 12 0 t \<Longrightarrow> p < 2 ^ 24"
  using taken_bounds [of p k 12 0 t] by (simp add: less_le_trans [of p "p + 2 ^ (12 + k)"])

lemma owned_in:
  "1 \<le> i \<Longrightarrow> i \<le> tree_num s \<Longrightarrow> p < 2 ^ 24 \<Longrightarrow>
     (area_of (bb_base s) (i - 1) + p, k) \<in> owned s \<longleftrightarrow>
       (p, k) \<in> taken 12 0 (tree_at (tree_bytes s i) 1 12)"
proof -
  assume a: "1 \<le> i" "i \<le> tree_num s" "p < 2 ^ 24"
  have "i' = i \<and> p' = p" if "area_of (bb_base s) (i - 1) + p = area_of (bb_base s) (i' - 1) + p'"
    "1 \<le> i'" "(p', k) \<in> taken 12 0 t" for i' p' t
    using area_of_eq [OF that(1) a(3) taken_lt [OF that(3)]] that(2) a(1) by auto
  with a show ?thesis unfolding owned_def by fastforce
qed

lemma ownedE:
  assumes "x \<in> owned s"
  obtains i p k where "x = (area_of (bb_base s) (i - 1) + p, k)" "1 \<le> i" "i \<le> tree_num s"
    "(p, k) \<in> taken 12 0 (tree_at (tree_bytes s i) 1 12)" "p < 2 ^ 24"
  using assms taken_lt unfolding owned_def by blast

text \<open>Changing one tree changes the blocks of its area only.\<close>

lemma owned_put_tree:
  assumes "bbma_inv s" and "1 \<le> i" and "i \<le> tree_num s"
  shows "owned (put_tree s i t) =
    {x \<in> owned s. \<not> (area_of (bb_base s) (i - 1) \<le> fst x \<and> fst x < area_of (bb_base s) (i - 1) + 2 ^ 24)} \<union>
    (\<lambda>(p, k). (area_of (bb_base s) (i - 1) + p, k)) ` taken 12 0 (tree_at t 1 12)"
  (is "?L = {x \<in> _. \<not> ?in x} \<union> ?I")
proof (intro set_eqI iffI)
  fix x assume "x \<in> ?L"
  then obtain j p k where x: "x = (area_of (bb_base s) (j - 1) + p, k)" "1 \<le> j" "j \<le> tree_num s"
    "(p, k) \<in> taken 12 0 (tree_at (tree_bytes (put_tree s i t) j) 1 12)" "p < 2 ^ 24"
    by (rule ownedE) auto
  show "x \<in> {x \<in> owned s. \<not> ?in x} \<union> ?I"
  proof (cases "j = i")
    case True
    then show ?thesis using x put_tree_bytes [OF assms assms(2,3)] by force
  next
    case False
    have "\<not> ?in x"
      using area_of_outside [of "i - 1" "j - 1" p "bb_base s"] x(1,2,5) False assms(2)
      by (simp only: fst_conv) arith
    moreover have "x \<in> owned s"
      using x False put_tree_bytes [OF assms x(2,3)] owned_in [OF x(2,3,5)] by simp
    ultimately show ?thesis by blast
  qed
next
  fix x assume x: "x \<in> {x \<in> owned s. \<not> ?in x} \<union> ?I"
  then show "x \<in> ?L"
  proof
    assume a: "x \<in> {x \<in> owned s. \<not> ?in x}"
    then obtain j p k where x: "x = (area_of (bb_base s) (j - 1) + p, k)" "1 \<le> j" "j \<le> tree_num s"
      "(p, k) \<in> taken 12 0 (tree_at (tree_bytes s j) 1 12)" "p < 2 ^ 24"
      by (blast elim: ownedE)
    then have "j \<noteq> i" using a by auto
    then show ?thesis
      using x put_tree_bytes [OF assms x(2,3)] owned_in [of j "put_tree s i t" p k] by simp
  next
    assume "x \<in> ?I"
    then obtain p k where x: "x = (area_of (bb_base s) (i - 1) + p, k)" "(p, k) \<in> taken 12 0 (tree_at t 1 12)"
      by auto
    then show ?thesis
      using assms(2,3) put_tree_bytes [OF assms assms(2,3)] owned_in [of i "put_tree s i t" p k]
        taken_lt [OF x(2)] by simp
  qed
qed

section \<open>The search for a tree\<close>

definition fits :: "bbma \<Rightarrow> nat \<Rightarrow> nat \<Rightarrow> bool" where
  "fits s n i \<longleftrightarrow> tree_locks s ! i = 0 \<and> n \<le> tree_bytes s i ! 1"

lemma set_lock_fields [simp]:
  "bb_base (set_lock s i v) = bb_base s" "all_trees (set_lock s i v) = all_trees s"
  "tree_mem (set_lock s i v) = tree_mem s" "tree_num (set_lock s i v) = tree_num s"
  "tree_bytes (set_lock s i v) j = tree_bytes s j"
  "tree_locks (set_lock s i v) = (tree_locks s)[i := v]"
  by (simp_all add: set_lock_def tree_bytes_def)

lemma set_lock_back: "set_lock (set_lock s i v) i (tree_locks s ! i) = s"
  by (simp add: set_lock_def)

lemma set_lock_same: "tree_locks s ! i = v \<Longrightarrow> set_lock s i v = s"
  by (auto simp: set_lock_def)

text \<open>The loop stops at the first unlocked tree whose root promises enough; nothing else changes.\<close>

lemma find_tree_loop_eq:
  "bbma_inv s \<Longrightarrow> set is \<subseteq> {1..tree_num s} \<Longrightarrow>
   find_tree_loop s n is =
     (case find (fits s n) is of None \<Rightarrow> Inr (-1, s) | Some i \<Rightarrow> Inr (int i, set_lock s i 1))"
proof (induction "is")
  case (Cons i "is")
  have i: "1 \<le> i" "i \<le> tree_num s" using Cons.prems(2) by auto
  note d = bbma_invD [OF Cons.prems(1) i]
  have "set (tree_locks s) \<subseteq> {0, 1}" using Cons.prems(1) by (simp add: bbma_inv_def)
  then have "tree_locks s ! i \<in> {0, 1}" using nth_mem [OF d(6)] by blast
  then show ?case
    using Cons d set_lock_back [of s i 1] set_lock_same [of s i 1]
    by (auto simp: try_lock_eq Let_def fits_def)
qed simp

lemma find_available_tree_eq:
  "bbma_inv s \<Longrightarrow> find_available_tree s n =
     (case find (fits s n) [1..<Suc (tree_num s)] of
        None \<Rightarrow> Inr (-1, s) | Some i \<Rightarrow> Inr (int i, set_lock s i 1))"
  unfolding find_available_tree_def by (intro find_tree_loop_eq) auto

lemma find_fits_Some:
  "find (fits s n) [1..<Suc (tree_num s)] = Some i \<Longrightarrow> 1 \<le> i \<and> i \<le> tree_num s \<and> fits s n i"
  by (auto simp: find_Some_iff simp del: upt_Suc)

lemma find_fits_None:
  "find (fits s n) [1..<Suc (tree_num s)] = None \<longleftrightarrow> (\<forall>i \<in> {1..tree_num s}. \<not> fits s n i)"
  by (auto simp: find_None_iff simp del: upt_Suc)

section \<open>Block sizes\<close>

text \<open>The height the code picks for a request: the least block that holds it.\<close>

lemma determine_bbma_size_refuse: "2 ^ 24 < unat w \<Longrightarrow> determine_bbma_size w = BBMA_REFUSE"
  by (simp add: determine_bbma_size_def word_le_nat_alt)

lemma determine_bbma_size_eq:
  assumes "k \<le> 12" and "unat w \<le> 2 ^ (12 + k)" and "k = 0 \<or> 2 ^ (11 + k) < unat w"
  shows "determine_bbma_size w = 12 + k"
proof -
  have "k \<in> set [0, 1, 2, 3, 4, 5, 6, 7, 8, 9, 10, 11, 12]"
    using assms(1) unfolding list.set insert_iff empty_iff by presburger
  then show ?thesis
    using assms(2,3)
    by (simp only: list.set insert_iff empty_iff)
       (elim disjE; simp add: determine_bbma_size_def word_le_nat_alt)
qed

lemma determine_bbma_size_cases:
  obtains "determine_bbma_size w = BBMA_REFUSE" "2 ^ 24 < unat w"
  | k where "k \<le> 12" "determine_bbma_size w = 12 + k" "unat w \<le> 2 ^ (12 + k)"
      "k = 0 \<or> 2 ^ (11 + k) < unat w"
proof (cases "2 ^ 24 < unat w")
  case True
  then show ?thesis using that(1) determine_bbma_size_refuse by blast
next
  case False
  let ?P = "\<lambda>k. unat w \<le> 2 ^ (12 + k)"
  let ?k = "LEAST k. ?P k"
  have P: "?P 12" using False by simp
  have k: "?k \<le> 12" "?P ?k" using Least_le [of ?P, OF P] LeastI [of ?P, OF P] .
  have "?k = 0 \<or> 2 ^ (11 + ?k) < unat w"
    using not_less_Least [of "?k - 1" ?P] by (cases ?k) auto
  then show ?thesis using that(2) [of ?k] determine_bbma_size_eq k by blast
qed

section \<open>Allocation\<close>

lemma block_aligned:
  assumes "bbma_inv s" and "1 \<le> i" and "i \<le> tree_num s" and "(p, k) \<in> taken 12 0 t"
  shows "2 ^ (12 + k) dvd area_of (bb_base s) (i - 1) + p"
proof -
  have p: "k \<le> 12" "2 ^ (12 + k) dvd p" using taken_bounds [OF assms(4)] by auto
  have "(2 :: nat) ^ (12 + k) dvd 2 ^ 24" using p(1) by (intro le_imp_power_dvd) simp
  moreover have "2 ^ 24 dvd unat (begin_alloc_addr (bb_base s))" using assms(1) unfolding bbma_inv_def by blast
  ultimately have "2 ^ (12 + k) dvd area_of (bb_base s) (i - 1)"
    unfolding area_of_def by (intro dvd_add dvd_mult) (auto intro: dvd_trans)
  then show ?thesis using p(2) by (rule dvd_add)
qed

lemma get_free_in_tree:
  assumes "bbma_inv s" and "1 \<le> i" and "i \<le> tree_num s" and "k \<le> 12" and "12 + k \<le> tree_bytes s i ! 1"
  shows "\<exists>p t'. get_the_free_space_in_tree (bb_base s) (all_trees s ! i) (tree_bytes s i) 1 S_16M (12 + k) =
       Inr (area_ptr (bb_base s) (i - 1) p, t') \<and> p < 2 ^ 24 \<and> length t' = 8192 \<and>
     twf 12 (tree_at t' 1 12) \<and>
     taken 12 0 (tree_at t' 1 12) = insert (p, k) (taken 12 0 (tree_at (tree_bytes s i) 1 12)) \<and>
     (p, k) \<notin> taken 12 0 (tree_at (tree_bytes s i) 1 12)"
proof -
  note d = bbma_invD [OF assms(1-3)]
  obtain p u where u: "talloc k 12 0 (tree_at (tree_bytes s i) 1 12) = (p, u)" by fastforce
  obtain t' where t': "get_the_free_space_in_tree (bb_base s) (tree_of (bb_base s) (i - 1)) (tree_bytes s i) 1
        (12 + 12) (12 + k) = Inr (begin_alloc_addr (bb_base s) + of_nat ((i - 1) * 2 ^ 24 + p), t')"
      "same_outside 1 (tree_bytes s i) t'" "tree_at t' 1 12 = u" "p < 2 ^ 24"
    using get_free_refines [OF d(3) node_at_root d(4) assms(5,4) d(1), unfolded node_base_root, OF u] by blast
  have "length t' = 8192" using t'(2) d(3) by (simp add: same_outside_def)
  then show ?thesis
    using t' talloc_correct [OF d(4) _ assms(4) u] assms(5) d(2) by (auto simp: S_16M_def area_ptr_def)
qed

lemma bbma_alloc_some:
  assumes "bbma_inv s" and "k \<le> 12" and sz: "determine_bbma_size w = 12 + k"
    and f: "find (fits s (12 + k)) [1..<Suc (tree_num s)] = Some i"
  shows "\<exists>p t'. bbma_alloc s w = Inr (area_ptr (bb_base s) (i - 1) p, put_tree s i t') \<and> p < 2 ^ 24 \<and>
     length t' = 8192 \<and> twf 12 (tree_at t' 1 12) \<and>
     taken 12 0 (tree_at t' 1 12) = insert (p, k) (taken 12 0 (tree_at (tree_bytes s i) 1 12)) \<and>
     (p, k) \<notin> taken 12 0 (tree_at (tree_bytes s i) 1 12)"
proof -
  have i: "1 \<le> i" "i \<le> tree_num s" and fit: "tree_locks s ! i = 0" "12 + k \<le> tree_bytes s i ! 1"
    using find_fits_Some [OF f] by (auto simp: fits_def)
  note d = bbma_invD [OF assms(1) i]
  obtain p t' where t': "get_the_free_space_in_tree (bb_base s) (all_trees s ! i) (tree_bytes s i) 1 S_16M (12 + k) =
       Inr (area_ptr (bb_base s) (i - 1) p, t')" "p < 2 ^ 24" "length t' = 8192" "twf 12 (tree_at t' 1 12)"
     "taken 12 0 (tree_at t' 1 12) = insert (p, k) (taken 12 0 (tree_at (tree_bytes s i) 1 12))"
     "(p, k) \<notin> taken 12 0 (tree_at (tree_bytes s i) 1 12)"
    using get_free_in_tree [OF assms(1) i assms(2) fit(2)] by blast
  have "2 ^ (12 + k) dvd unat (area_ptr (bb_base s) (i - 1) p)"
    using block_aligned [OF assms(1) i, of p k "tree_at t' 1 12"] t'(5) area_ptr_unat [OF d(1) t'(2)] by simp
  then have al: "is_align_to (area_ptr (bb_base s) (i - 1) p) (12 + k) = Inr True"
    using assms(2) by (subst is_align_to_small) auto
  have refuse: "12 + k \<noteq> BBMA_REFUSE" using assms(2) by (simp add: BBMA_REFUSE_def)
  have unlocked: "set_lock (set_lock s i 1\<lparr>tree_mem := (tree_mem s)(all_trees s ! i := t')\<rparr>) i 0 = put_tree s i t'"
    using fit(1) list_update_id [of "tree_locks s" i] by (simp add: set_lock_def put_tree_def)
  have "find_the_free_space_in_bbma_system s (12 + k) =
      Inr (area_ptr (bb_base s) (i - 1) p, put_tree s i t')"
    using refuse find_available_tree_eq [OF assms(1), of "12 + k"] f i(2) d(3,8) fit(2) t'(1) unlocked
    by (simp add: find_the_free_space_in_bbma_system_def Let_def del: upt_Suc)
  then have "bbma_alloc s w = Inr (area_ptr (bb_base s) (i - 1) p, put_tree s i t')"
    using sz refuse al by (simp add: bbma_alloc_def)
  then show ?thesis using t' by blast
qed

lemma bbma_alloc_none:
  assumes "bbma_inv s" and "k \<le> 12" and "determine_bbma_size w = 12 + k"
    and "find (fits s (12 + k)) [1..<Suc (tree_num s)] = None"
  shows "bbma_alloc s w = Inr (0, s)"
  using assms find_available_tree_eq [OF assms(1), of "12 + k"]
  by (simp add: bbma_alloc_def find_the_free_space_in_bbma_system_def BBMA_REFUSE_def Let_def
      is_align_to_small del: upt_Suc)

lemma bbma_alloc_refuse: "2 ^ 24 < unat w \<Longrightarrow> bbma_alloc s w = Inr (0, s)"
  using determine_bbma_size_refuse [of w] by (simp add: bbma_alloc_def)

lemma owned_new_block:
  assumes "bbma_inv s" and "1 \<le> i" and "i \<le> tree_num s"
    and t': "taken 12 0 (tree_at t' 1 12) = insert (p, k) (taken 12 0 (tree_at (tree_bytes s i) 1 12))"
      "(p, k) \<notin> taken 12 0 (tree_at (tree_bytes s i) 1 12)" "p < 2 ^ 24"
  shows "owned (put_tree s i t') = insert (area_of (bb_base s) (i - 1) + p, k) (owned s)"
    and "(area_of (bb_base s) (i - 1) + p, k) \<notin> owned s"
proof -
  have same: "owned s = owned (put_tree s i (tree_bytes s i))"
    by (simp add: put_tree_def tree_bytes_def)
  show "owned (put_tree s i t') = insert (area_of (bb_base s) (i - 1) + p, k) (owned s)"
    unfolding same unfolding owned_put_tree [OF assms(1-3)] t'(1) by auto
  show "(area_of (bb_base s) (i - 1) + p, k) \<notin> owned s"
    using owned_in [OF assms(2,3) t'(3)] t'(2) by simp
qed

text \<open>The abstract effect of \<open>bbma_alloc\<close>.\<close>

definition alloc_effect :: "bbma \<Rightarrow> u64 \<Rightarrow> addr \<Rightarrow> bbma \<Rightarrow> bool" where
  "alloc_effect s w p s' \<longleftrightarrow>
     p = 0 \<and> s' = s \<or>
     p \<noteq> 0 \<and> (\<exists>k \<le> 12. determine_bbma_size w = 12 + k \<and> unat w \<le> 2 ^ (12 + k) \<and>
        (unat p, k) \<notin> owned s \<and> owned s' = insert (unat p, k) (owned s) \<and>
        2 ^ (12 + k) dvd unat p)"

lemma bbma_alloc_effect:
  assumes "bbma_inv s"
  shows "\<exists>p s'. bbma_alloc s w = Inr (p, s') \<and> bbma_inv s' \<and> alloc_effect s w p s' \<and>
     tree_locks s' = tree_locks s \<and> tree_num s' = tree_num s \<and> bb_base s' = bb_base s \<and>
     (p = 0 \<longleftrightarrow> determine_bbma_size w = BBMA_REFUSE \<or>
        (\<forall>i \<in> {1..tree_num s}. \<not> fits s (determine_bbma_size w) i))"
proof (cases rule: determine_bbma_size_cases [of w])
  case 1
  then show ?thesis using assms bbma_alloc_refuse by (simp add: alloc_effect_def)
next
  case (2 k)
  have refuse: "12 + k \<noteq> BBMA_REFUSE" using 2(1) by (simp add: BBMA_REFUSE_def)
  show ?thesis
  proof (cases "find (fits s (12 + k)) [1..<Suc (tree_num s)]")
    case None
    then show ?thesis
      using bbma_alloc_none [OF assms 2(1,2)] 2(2) assms
      by (simp only: find_fits_None) (simp add: alloc_effect_def)
  next
    case (Some i)
    have i: "1 \<le> i" "i \<le> tree_num s" "fits s (12 + k) i" using find_fits_Some [OF Some] by auto
    obtain p t' where t': "bbma_alloc s w = Inr (area_ptr (bb_base s) (i - 1) p, put_tree s i t')" "p < 2 ^ 24"
      "length t' = 8192" "twf 12 (tree_at t' 1 12)"
      "taken 12 0 (tree_at t' 1 12) = insert (p, k) (taken 12 0 (tree_at (tree_bytes s i) 1 12))"
      "(p, k) \<notin> taken 12 0 (tree_at (tree_bytes s i) 1 12)"
      using bbma_alloc_some [OF assms 2(1,2) Some] by blast
    note own = owned_new_block [OF assms i(1,2) t'(5,6,2)]
    have g: "gap_ok (bb_base s) (i - 1)" using bbma_invD(1) [OF assms i(1,2)] .
    have ptr: "unat (area_ptr (bb_base s) (i - 1) p) = area_of (bb_base s) (i - 1) + p"
      using area_ptr_unat [OF g t'(2)] .
    have nz: "area_ptr (bb_base s) (i - 1) p \<noteq> 0"
      using area_addr(2) [OF g t'(2)] by (simp add: area_ptr_def)
    have "2 ^ (12 + k) dvd area_of (bb_base s) (i - 1) + p"
      using block_aligned [OF assms i(1,2), of p k "tree_at t' 1 12"] t'(5) by simp
    then have "alloc_effect s w (area_ptr (bb_base s) (i - 1) p) (put_tree s i t')"
      using nz own ptr 2 unfolding alloc_effect_def by auto
    moreover have "bbma_inv (put_tree s i t')" using put_tree_inv [OF assms i(1,2) t'(3,4)] .
    moreover have "\<exists>i \<in> {1..tree_num s}. fits s (12 + k) i" using i by auto
    ultimately show ?thesis using t'(1) nz 2(2) refuse by auto
  qed
qed

section \<open>Release\<close>

lemma determine_which_tree_eq:
  assumes "bbma_inv s" and "1 \<le> i" and "i \<le> tree_num s" and "p < 2 ^ 24"
    and "unat ptr = area_of (bb_base s) (i - 1) + p"
  shows "determine_which_tree s ptr =
    (if ptr = begin_alloc_addr (bb_base s) then Inl Assert else Inr (int i))"
proof -
  let ?b = "begin_alloc_addr (bb_base s)"
  have num: "tree_num s \<le> 32" and al: "2 ^ 24 dvd unat ?b" using assms(1) unfolding bbma_inv_def by blast+
  have area: "2 ^ 24 dvd area_of (bb_base s) (i - 1)" unfolding area_of_def by (intro dvd_add dvd_triv_right al)
  have p: "unat ptr mod 2 ^ 24 = p" using area assms(4,5) by (simp add: mod_add_eq [symmetric] dvd_eq_mod_eq_0)
  have mask: "push_bit S_16M (1 :: u64) - 1 = mask 24" by (simp add: S_16M_def mask_eq_exp_minus_1)
  have mb: "unat (ptr AND NOT (mask 24)) = unat ?b + (i - 1) * 2 ^ 24"
    using p assms(5) by (simp add: unat_and_not_mask area_of_def)
  have diff: "unat ((ptr AND NOT (mask 24)) - ?b) = (i - 1) * 2 ^ 24"
    using mb unat_sub_le [of ?b "ptr AND NOT (mask 24)"] by (simp add: word_le_nat_alt)
  then have "unat (drop_bit 24 ((ptr AND NOT (mask 24)) - ?b)) = i - 1" by (simp add: unat_drop_bit)
  then have "drop_bit 24 ((ptr AND NOT (mask 24)) - ?b) = of_nat (i - 1)" by (metis of_nat_unat ucast_id)
  then have "drop_bit 24 ((ptr AND NOT (mask 24)) - ?b) + 1 = of_nat i"
    using assms(2) by (metis Suc_diff_1 of_nat_Suc add.commute less_le_trans zero_less_one)
  moreover have "sint (ucast (of_nat i :: u64) :: 32 word) = int i"
  proof -
    have "unat (of_nat i :: u64) = i" using num assms(3) by (intro unat_of_nat_small) simp
    then have "(ucast (of_nat i :: u64) :: 32 word) = of_nat i" by (metis of_nat_unat)
    moreover have "sint (of_nat i :: 32 word) = int i"
      using num assms(3) by (simp add: signed_of_nat) (simp add: signed_take_bit_int_eq_self)
    ultimately show ?thesis by simp
  qed
  moreover have "ptr > ?b \<longleftrightarrow> ptr \<noteq> ?b"
    using assms(5) by (auto simp: word_less_nat_alt word_unat_eq_iff area_of_def)
  ultimately show ?thesis
    unfolding determine_which_tree_def mask Let_def unfolding S_16M_def by auto
qed

lemma free_in_tree:
  assumes "bbma_inv s" and "1 \<le> i" and "i \<le> tree_num s"
    and "(p, k) \<in> taken 12 0 (tree_at (tree_bytes s i) 1 12)"
    and ptr: "unat ptr = area_of (bb_base s) (i - 1) + p"
  shows "\<exists>t'. free_tree_ptr (bb_base s) (all_trees s ! i) (tree_bytes s i) 1 ptr S_16M = Inr t' \<and>
     length t' = 8192 \<and> twf 12 (tree_at t' 1 12) \<and>
     taken 12 0 (tree_at t' 1 12) = taken 12 0 (tree_at (tree_bytes s i) 1 12) - {(p, k)}"
proof -
  note d = bbma_invD [OF assms(1-3)]
  have "ptr = area_ptr (bb_base s) (i - 1) p"
    using area_ptr_unat [OF d(1) taken_lt [OF assms(4)]] ptr by (simp add: word_unat_eq_iff)
  moreover obtain t' where t': "free_tree_ptr (bb_base s) (tree_of (bb_base s) (i - 1)) (tree_bytes s i) 1
        (area_ptr (bb_base s) (i - 1) p) (12 + 12) = Inr t'"
      "same_outside 1 (tree_bytes s i) t'" "tree_at t' 1 12 = tfree p 12 0 (tree_at (tree_bytes s i) 1 12)"
    using free_refines [OF d(3) node_at_root d(4) d(1), unfolded node_base_root, OF assms(4)] by blast
  moreover have "length t' = 8192" using t'(2) d(3) by (simp add: same_outside_def)
  ultimately show ?thesis
    using tfree_correct [OF d(4) assms(4)] d(2) by (auto simp: S_16M_def)
qed

text \<open>The index of the tree whose area holds an address.\<close>

definition home :: "bbma \<Rightarrow> addr \<Rightarrow> nat" where
  "home s ptr = (unat ptr - unat (begin_alloc_addr (bb_base s))) div 2 ^ 24 + 1"

lemma home_eq:
  "1 \<le> i \<Longrightarrow> p < 2 ^ 24 \<Longrightarrow> unat ptr = area_of (bb_base s) (i - 1) + p \<Longrightarrow> home s ptr = i"
  by (simp add: home_def area_of_def)

lemma bbma_free_effect:
  assumes "bbma_inv s" and "(unat ptr, k) \<in> owned s"
  shows "1 \<le> home s ptr" and "home s ptr \<le> tree_num s"
    and "ptr = begin_alloc_addr (bb_base s) \<Longrightarrow> bbma_free s ptr = Inl Assert"
    and "ptr \<noteq> begin_alloc_addr (bb_base s) \<Longrightarrow> tree_locks s ! home s ptr \<noteq> 0 \<Longrightarrow> bbma_free s ptr = Inl Hang"
    and "ptr \<noteq> begin_alloc_addr (bb_base s) \<Longrightarrow> tree_locks s ! home s ptr = 0 \<Longrightarrow>
      \<exists>s'. bbma_free s ptr = Inr s' \<and> bbma_inv s' \<and> owned s' = owned s - {(unat ptr, k)} \<and>
        tree_locks s' = tree_locks s \<and> tree_num s' = tree_num s \<and> bb_base s' = bb_base s"
proof -
  obtain i p where x: "unat ptr = area_of (bb_base s) (i - 1) + p" "1 \<le> i" "i \<le> tree_num s"
    "(p, k) \<in> taken 12 0 (tree_at (tree_bytes s i) 1 12)" "p < 2 ^ 24"
    using ownedE [OF assms(2)] by (metis prod.inject)
  note d = bbma_invD [OF assms(1) x(2,3)]
  have home: "home s ptr = i" using home_eq [OF x(2,5,1)] .
  then show "1 \<le> home s ptr" "home s ptr \<le> tree_num s" using x by simp_all
  have "0 < unat (begin_alloc_addr (bb_base s))" using d(1) by (simp add: gap_ok_def)
  then have nz: "ptr \<noteq> 0" using x(1) unfolding area_of_def by auto
  note which = determine_which_tree_eq [OF assms(1) x(2,3,5,1)]
  show "ptr = begin_alloc_addr (bb_base s) \<Longrightarrow> bbma_free s ptr = Inl Assert"
    using nz which by (simp add: bbma_free_def)
  note start = bbma_free_def which nz d(8) not_le [THEN iffD2, OF d(5)]
  show "ptr \<noteq> begin_alloc_addr (bb_base s) \<Longrightarrow> tree_locks s ! home s ptr \<noteq> 0 \<Longrightarrow> bbma_free s ptr = Inl Hang"
    using home by (simp add: start spin_lock_eq Let_def)
  assume ne: "ptr \<noteq> begin_alloc_addr (bb_base s)" "tree_locks s ! home s ptr = 0"
  obtain t' where t': "free_tree_ptr (bb_base s) (all_trees s ! i) (tree_bytes s i) 1 ptr S_16M = Inr t'"
    "length t' = 8192" "twf 12 (tree_at t' 1 12)"
    "taken 12 0 (tree_at t' 1 12) = taken 12 0 (tree_at (tree_bytes s i) 1 12) - {(p, k)}"
    using free_in_tree [OF assms(1) x(2-4,1)] by blast
  have unlocked: "set_lock (set_lock s i 1\<lparr>tree_mem := (tree_mem s)(all_trees s ! i := t')\<rparr>) i 0 = put_tree s i t'"
    using ne(2) home list_update_id [of "tree_locks s" i] by (simp add: set_lock_def put_tree_def)
  have res: "bbma_free s ptr = Inr (put_tree s i t')"
    using ne home t'(1) unlocked by (simp add: start spin_lock_eq Let_def)
  have same: "owned s = owned (put_tree s i (tree_bytes s i))" by (simp add: put_tree_def tree_bytes_def)
  have own: "owned (put_tree s i t') = owned s - {(unat ptr, k)}"
    unfolding same unfolding owned_put_tree [OF assms(1) x(2,3)] t'(4) x(1)
    using x(5) by auto
  show "\<exists>s'. bbma_free s ptr = Inr s' \<and> bbma_inv s' \<and> owned s' = owned s - {(unat ptr, k)} \<and>
        tree_locks s' = tree_locks s \<and> tree_num s' = tree_num s \<and> bb_base s' = bb_base s"
    using res own put_tree_inv [OF assms(1) x(2,3) t'(2,3)] by (intro exI [of _ "put_tree s i t'"]) simp
qed

text \<open>Blocks handed out never overlap and lie in the managed range.\<close>

lemma owned_bounds:
  assumes "bbma_inv s" and "(a, k) \<in> owned s"
  shows "unat (begin_alloc_addr (bb_base s)) \<le> a" and "k \<le> 12"
    and "a + 2 ^ (12 + k) \<le> unat (begin_alloc_addr (bb_base s)) + tree_num s * 2 ^ 24"
    and "2 ^ (12 + k) dvd a"
proof -
  obtain i p where x: "a = area_of (bb_base s) (i - 1) + p" "1 \<le> i" "i \<le> tree_num s"
    "(p, k) \<in> taken 12 0 (tree_at (tree_bytes s i) 1 12)"
    using ownedE [OF assms(2)] by (metis prod.inject)
  have b: "p + 2 ^ (12 + k) \<le> 2 ^ 24" "k \<le> 12" using taken_bounds [OF x(4)] by auto
  have "(i - 1 + 1) * 2 ^ 24 \<le> tree_num s * 2 ^ 24" using x(2,3) by (intro mult_le_mono1) simp
  then show "a + 2 ^ (12 + k) \<le> unat (begin_alloc_addr (bb_base s)) + tree_num s * 2 ^ 24"
    using b(1) x(1) by (simp add: area_of_def)
  show "unat (begin_alloc_addr (bb_base s)) \<le> a" using x(1) by (simp add: area_of_def)
  show "k \<le> 12" "2 ^ (12 + k) dvd a" using b block_aligned [OF assms(1) x(2-4)] x(1) by auto
qed

lemma owned_disjoint:
  assumes "bbma_inv s" and "x \<in> owned s" and "y \<in> owned s" and "x \<noteq> y"
  shows "block x \<inter> block y = {}"
proof -
  obtain i p k where x: "x = (area_of (bb_base s) (i - 1) + p, k)" "1 \<le> i"
    "(p, k) \<in> taken 12 0 (tree_at (tree_bytes s i) 1 12)"
    using ownedE [OF assms(2)] by metis
  obtain j q l where y: "y = (area_of (bb_base s) (j - 1) + q, l)" "1 \<le> j"
    "(q, l) \<in> taken 12 0 (tree_at (tree_bytes s j) 1 12)"
    using ownedE [OF assms(3)] by metis
  have bx: "p + 2 ^ (12 + k) \<le> 2 ^ 24" and by': "q + 2 ^ (12 + l) \<le> 2 ^ 24"
    using taken_bounds [OF x(3)] taken_bounds [OF y(3)] by auto
  show ?thesis
  proof (cases "i = j")
    case True
    then have "block (p, k) \<inter> block (q, l) = {}"
      using taken_disjoint [OF x(3)] y(3) assms(4) x(1) y(1) by auto
    then show ?thesis using True x(1) y(1) by (fastforce simp: block_def)
  next
    case False
    have step: "area_of (bb_base s) (m - 1) + 2 ^ 24 \<le> area_of (bb_base s) (n - 1)"
      if "m < n" "1 \<le> m" for m n
    proof -
      have "(m - 1 + 1) * 2 ^ 24 \<le> (n - 1) * 2 ^ 24" using that by (intro mult_le_mono1) simp
      then show ?thesis by (simp add: area_of_def)
    qed
    show ?thesis
      using step [of i j] step [of j i] False x(1,2) y(1,2) bx by'
      by (cases i j rule: linorder_cases) (auto simp: block_def)
  qed
qed

end
