(* ===== verification/Buddy_Props.thy ===== *)
theory Buddy_Props
  imports Buddy_Spec
begin

text \<open>
  Start-up of the buddy allocator, the allocator seen through an interface that its clients
  (the slab allocator, the kernel services) rely on, and the properties of the component.
\<close>

section \<open>Start-up\<close>

lemma fill_range_length [simp]: "length (fill_range t i n v) = length t"
  by (induction t i n v rule: fill_range.induct) auto

lemma fill_range_nth:
  "j < length t \<Longrightarrow> fill_range t i n v ! j = (if i \<le> j \<and> j < i + n then v else t ! j)"
  by (induction t i n v rule: fill_range.induct) (auto simp: nth_list_update)

lemma initialize_levels_length [simp]: "length (initialize_levels t is c) = length t"
  by (induction t "is" c rule: initialize_levels.induct) (auto simp: Let_def)

lemma level_end: "i < 13 \<Longrightarrow> (if i = 12 then 8192 else calculate_addr_helper ! (i + 1)) = 2 ^ Suc i"
  using helper_nth [of "i + 1"] by auto

text \<open>After the loop every node of level \<open>l\<close> holds the exponent of its size.\<close>

lemma initialize_levels_nth:
  "length t = 8192 \<Longrightarrow> i \<le> 13 \<Longrightarrow> l < 13 \<Longrightarrow> 2 ^ l \<le> j \<Longrightarrow> j < 2 ^ Suc l \<Longrightarrow>
     initialize_levels t [i..<13] (24 - i) ! j = (if i \<le> l then 24 - l else t ! j)"
proof (induction "13 - i" arbitrary: i t)
  case (Suc n)
  then have i: "i < 13" "[i..<13] = i # [Suc i..<13]" by (simp_all add: upt_conv_Cons)
  let ?t = "fill_range t (2 ^ i) (2 ^ Suc i - 2 ^ i) (24 - i)"
  have "(2 :: nat) ^ Suc l \<le> 2 ^ 13" using Suc.prems(3) by (intro power_increasing) auto
  then have j: "j < 8192" using Suc.prems(5) by simp
  have level: "2 ^ i \<le> j \<and> j < 2 ^ Suc i \<longleftrightarrow> i = l"
  proof (cases i l rule: linorder_cases)
    case less
    then have "(2 :: nat) ^ Suc i \<le> 2 ^ l" by (intro power_increasing) auto
    then show ?thesis using less Suc.prems(4) by simp
  next
    case greater
    then have "(2 :: nat) ^ Suc l \<le> 2 ^ i" by (intro power_increasing) auto
    then show ?thesis using greater Suc.prems(5) by simp
  qed (use Suc.prems in simp)
  have "initialize_levels t [i..<13] (24 - i) = initialize_levels ?t [Suc i..<13] (24 - Suc i)"
    using i level_end [OF i(1)] helper_nth [OF i(1)] by (simp only: initialize_levels.simps Let_def) simp
  moreover have "initialize_levels ?t [Suc i..<13] (24 - Suc i) ! j = (if Suc i \<le> l then 24 - l else ?t ! j)"
    using Suc.hyps(2) Suc.prems i by (intro Suc.hyps(1)) auto
  moreover have "?t ! j = (if i = l then 24 - i else t ! j)"
    using fill_range_nth [of j t "2 ^ i" "2 ^ Suc i - 2 ^ i" "24 - i"] j Suc.prems(1) level
    by (simp add: mult_2)
  ultimately show ?case by auto
qed auto

lemma initialize_tree_node:
  assumes "length t = 8192" and "node_at h j"
  shows "initialize_tree t ! j = 12 + h"
proof -
  have "h \<le> 12 \<Longrightarrow> 13 - h = Suc (12 - h)" by simp
  then have h: "h \<le> 12" "2 ^ (12 - h) \<le> j" "j < 2 ^ Suc (12 - h)"
    using assms(2) unfolding node_at_def by metis+
  have "initialize_levels t [0..<13] (24 - 0) ! j = (if 0 \<le> 12 - h then 24 - (12 - h) else t ! j)"
    using initialize_levels_nth [of t 0 "12 - h" j] assms(1) h by simp
  then show ?thesis using h(1) by (simp add: initialize_tree_def S_16M_def)
qed

lemma full_tree_at:
  "(\<And>h j. node_at h j \<Longrightarrow> t ! j = 12 + h) \<Longrightarrow> node_at h i \<Longrightarrow> full h (tree_at t i h)"
  by (induction h arbitrary: i) (auto dest: node_at_child)

lemma initialize_tree_full:
  "length t = 8192 \<Longrightarrow> length (initialize_tree t) = 8192 \<and> full 12 (tree_at (initialize_tree t) 1 12)"
  using full_tree_at [OF initialize_tree_node node_at_root] by (simp add: initialize_tree_def)

lemma bbma_init_loop_eq:
  "unat m + n * 2 ^ 24 \<le> unat e \<Longrightarrow> unat e < unat m + (n + 1) * 2 ^ 24 \<Longrightarrow> unat e + 2 ^ 24 < 2 ^ 64 \<Longrightarrow>
   cnt + n \<le> 33 \<Longrightarrow> length (all_trees s) = 33 \<Longrightarrow> (\<And>a. length (tree_mem s a) = 8192) \<Longrightarrow>
   \<exists>s'. bbma_init_loop s m t e cnt = Inr (s', cnt + n) \<and>
     bb_base s' = bb_base s \<and> tree_locks s' = tree_locks s \<and> cpu_trees s' = cpu_trees s \<and>
     length (all_trees s') = 33 \<and>
     (\<forall>j < 33. all_trees s' ! j =
        (if cnt \<le> j \<and> j < cnt + n then t + of_nat ((j - cnt) * 8192) else all_trees s ! j)) \<and>
     (\<forall>a. length (tree_mem s' a) = 8192 \<and> (full 12 (tree_at (tree_mem s a) 1 12) \<longrightarrow> full 12 (tree_at (tree_mem s' a) 1 12))) \<and>
     (\<forall>j. cnt \<le> j \<and> j < cnt + n \<longrightarrow> full 12 (tree_at (tree_mem s' (t + of_nat ((j - cnt) * 8192))) 1 12))"
proof (induction n arbitrary: s m t cnt)
  case 0
  have "unat (m + 2 ^ 24) = unat m + 2 ^ 24"
    using 0(1,3) unat_add_nowrap [of m "2 ^ 24"] by simp
  then have "\<not> m + push_bit S_16M 1 \<le> e" using 0(2) by (simp add: word_le_nat_alt S_16M_def)
  then have "bbma_init_loop s m t e cnt = Inr (s, cnt + 0)" by (subst bbma_init_loop.simps) simp
  then show ?case using 0(5,6) by (intro exI [of _ s]) auto
next
  case (Suc n)
  let ?s = "s\<lparr>all_trees := (all_trees s)[cnt := t], tree_mem := (tree_mem s)(t := initialize_tree (tree_mem s t))\<rparr>"
  have next_mem: "unat (m + 2 ^ 24) = unat m + 2 ^ 24"
    using Suc.prems(1,3) unat_add_nowrap [of m "2 ^ 24"] by simp
  then have "m + push_bit S_16M 1 \<le> e" using Suc.prems(1) by (simp add: word_le_nat_alt S_16M_def)
  then have eq: "bbma_init_loop s m t e cnt = bbma_init_loop ?s (m + 2 ^ 24) (t + 8192) e (Suc cnt)"
    using Suc.prems(4) by (subst bbma_init_loop.simps) (simp add: MAX_TREE_def MAX_NODE_def S_16M_def)
  have fulls: "full 12 (tree_at (tree_mem ?s t) 1 12)" "\<And>a. length (tree_mem ?s a) = 8192"
    "\<And>a. full 12 (tree_at (tree_mem s a) 1 12) \<Longrightarrow> full 12 (tree_at (tree_mem ?s a) 1 12)"
    using initialize_tree_full Suc.prems(6) by (simp_all add: initialize_tree_full)
  obtain s' where s': "bbma_init_loop ?s (m + 2 ^ 24) (t + 8192) e (Suc cnt) = Inr (s', Suc cnt + n)"
     "bb_base s' = bb_base ?s" "tree_locks s' = tree_locks ?s" "cpu_trees s' = cpu_trees ?s"
     "length (all_trees s') = 33"
     "\<forall>j < 33. all_trees s' ! j =
        (if Suc cnt \<le> j \<and> j < Suc cnt + n then t + 8192 + of_nat ((j - Suc cnt) * 8192) else all_trees ?s ! j)"
     "\<forall>a. length (tree_mem s' a) = 8192 \<and> (full 12 (tree_at (tree_mem ?s a) 1 12) \<longrightarrow> full 12 (tree_at (tree_mem s' a) 1 12))"
     "\<forall>j. Suc cnt \<le> j \<and> j < Suc cnt + n \<longrightarrow>
        full 12 (tree_at (tree_mem s' (t + 8192 + of_nat ((j - Suc cnt) * 8192))) 1 12)"
    using Suc.IH [of "m + 2 ^ 24" "Suc cnt" ?s "t + 8192"] next_mem Suc.prems fulls(2) by auto
  have step: "t + 8192 + of_nat ((j - Suc cnt) * 8192) = t + of_nat ((j - cnt) * 8192)" if "Suc cnt \<le> j" for j
  proof -
    have "(j - cnt) * 8192 = 8192 + (j - Suc cnt) * 8192" using that by simp
    then show ?thesis by (simp only: of_nat_add) simp
  qed
  show ?case
  proof (intro exI [of _ s'] conjI)
    show "bbma_init_loop s m t e cnt = Inr (s', cnt + Suc n)" using eq s'(1) by simp
    show "\<forall>j < 33. all_trees s' ! j =
        (if cnt \<le> j \<and> j < cnt + Suc n then t + of_nat ((j - cnt) * 8192) else all_trees s ! j)"
    proof (intro allI impI)
      fix j :: nat assume j: "j < 33"
      show "all_trees s' ! j =
        (if cnt \<le> j \<and> j < cnt + Suc n then t + of_nat ((j - cnt) * 8192) else all_trees s ! j)"
        using s'(6) j step [of j] Suc.prems(4,5) by (cases "j = cnt") (auto simp: nth_list_update)
    qed
    show "\<forall>a. length (tree_mem s' a) = 8192 \<and>
        (full 12 (tree_at (tree_mem s a) 1 12) \<longrightarrow> full 12 (tree_at (tree_mem s' a) 1 12))"
      using s'(7) fulls(3) by blast
    show "\<forall>j. cnt \<le> j \<and> j < cnt + Suc n \<longrightarrow> full 12 (tree_at (tree_mem s' (t + of_nat ((j - cnt) * 8192))) 1 12)"
    proof (intro allI impI)
      fix j assume j: "cnt \<le> j \<and> j < cnt + Suc n"
      show "full 12 (tree_at (tree_mem s' (t + of_nat ((j - cnt) * 8192))) 1 12)"
        using s'(7,8) fulls(1) step [of j] j by (cases "j = cnt") (auto simp: not_less_eq_eq)
    qed
  qed (use s' in auto)
qed

lemma put_cpu_tree_ok:
  "i < length ct \<Longrightarrow> t < length (ct ! i) \<Longrightarrow> \<exists>ct'. put_cpu_tree ct i t v = Inr ct' \<and> map length ct' = map length ct"
  by (simp add: put_cpu_tree_def map_update) (metis list_update_id length_map nth_map)

lemma same_rows:
  assumes "map length ct' = map length ct"
  shows "length ct' = length ct" and "i < length ct \<Longrightarrow> length (ct' ! i) = length (ct ! i)"
proof -
  show "length ct' = length ct" using assms by (rule map_eq_imp_length_eq)
  then show "i < length ct \<Longrightarrow> length (ct' ! i) = length (ct ! i)"
    using arg_cong [OF assms, of "\<lambda>xs. xs ! i"] by simp
qed

lemma deal_row_ok:
  "i < length ct \<Longrightarrow> \<forall>t \<in> set ts. t < length (ct ! i) \<Longrightarrow>
     \<exists>ct' cur'. deal_row ct i ts cur = Inr (ct', cur') \<and> map length ct' = map length ct"
proof (induction ts arbitrary: ct cur)
  case (Cons t ts)
  obtain ct' where ct': "put_cpu_tree ct i t cur = Inr ct'" "map length ct' = map length ct"
    using put_cpu_tree_ok [of i ct t cur] Cons.prems by auto
  note rows = same_rows [OF ct'(2)]
  then show ?case using Cons.IH [of ct' "Suc cur"] Cons.prems ct' by auto
qed auto

lemma deal_cpus_ok:
  "\<forall>i \<in> set is. i < length ct \<and> normal_num + (if extra_num > 0 then 1 else 0) \<le> length (ct ! i) \<Longrightarrow>
     \<exists>ct'. deal_cpus ct is normal_num extra_num cur = Inr ct'"
proof (induction "is" arbitrary: ct extra_num cur)
  case (Cons i "is")
  obtain ct1 cur1 where 1: "deal_row ct i [0..<normal_num] cur = Inr (ct1, cur1)"
    "map length ct1 = map length ct"
    using deal_row_ok [of i ct "[0..<normal_num]" cur] Cons.prems by fastforce
  note len = same_rows [OF 1(2)]
  show ?case
  proof (cases "extra_num > 0")
    case True
    have "i < length ct1" "normal_num < length (ct1 ! i)" using True Cons.prems len by auto
    then obtain ct2 where 2: "put_cpu_tree ct1 i normal_num cur1 = Inr ct2" "map length ct2 = map length ct1"
      using put_cpu_tree_ok by blast
    then have "map length ct2 = map length ct" using 1(2) by simp
    note len2 = same_rows [OF this]
    have "\<exists>ct'. deal_cpus ct2 is normal_num (extra_num - 1) (Suc cur1) = Inr ct'"
      using Cons.prems len2 True by (intro Cons.IH) auto
    then show ?thesis using 1 2 True by simp
  next
    case False
    have "\<exists>ct'. deal_cpus ct1 is normal_num extra_num cur1 = Inr ct'"
      using Cons.prems len False by (intro Cons.IH) auto
    then show ?thesis using 1 False by simp
  qed
qed simp

lemma distribute_tree_ok:
  assumes "1 \<le> cpu_num" and "cpu_num \<le> 8" and "tree_count \<le> 33"
  shows "\<exists>ct. distribute_tree (replicate MAX_CPU (replicate (Suc MAX_TREE) 0)) cpu_num tree_count = Inr ct"
proof -
  have "tree_count div cpu_num \<le> tree_count div 1" using assms(1) by (intro div_le_mono2) auto
  moreover have "tree_count div cpu_num \<le> tree_count div 2" if "2 \<le> cpu_num"
    using that by (intro div_le_mono2) auto
  ultimately have "tree_count div cpu_num + (if tree_count mod cpu_num > 0 then 1 else 0) \<le> 33"
    using assms by (cases "cpu_num = 1") auto
  then have "\<exists>ct. deal_cpus (replicate MAX_CPU (replicate (Suc MAX_TREE) 0)) [0..<cpu_num]
      (tree_count div cpu_num) (tree_count mod cpu_num) 1 = Inr ct"
    using assms(2) by (intro deal_cpus_ok) (auto simp: MAX_CPU_def MAX_TREE_def)
  then show ?thesis using assms(1) by (simp add: distribute_tree_def)
qed

lemma bbma_init_ok:
  assumes start: "0 < unat start" "2 ^ 24 dvd unat start" and cpu: "1 \<le> cpu_num" "cpu_num \<le> 8"
    and n: "unat start + (n + 1) * 2 ^ 24 \<le> unat e" "unat e < unat start + (n + 2) * 2 ^ 24"
      "unat e + 2 ^ 24 < 2 ^ 64" "n \<le> 32"
    and mem: "\<And>a. length (mem a) = 8192"
  shows "\<exists>s. bbma_init (bbma_zero mem) cpu_num start e = Inr s \<and> bbma_inv s \<and> owned s = {} \<and>
     tree_num s = n \<and> tree_locks s = replicate 33 0 \<and>
     begin_alloc_addr (bb_base s) = start + 2 ^ 24 \<and>
     (\<forall>i \<in> {1..n}. full 12 (tree_at (tree_bytes s i) 1 12))"
proof -
  let ?b = "\<lparr>real_start_addr = start, begin_alloc_addr = start + push_bit S_16M 1\<rparr>"
  let ?s0 = "bbma_zero mem\<lparr>bb_base := ?b\<rparr>"
  have "unat start + 2 ^ 24 \<le> unat start + (n + 1) * 2 ^ 24" by simp
  also have "\<dots> < 2 ^ 64" using n(1,3) by linarith
  finally have fit: "unat start + 2 ^ 24 < 2 ^ 64" .
  have beg: "unat (start + push_bit S_16M 1) = unat start + 2 ^ 24"
    using unat_add_nowrap [of start "2 ^ 24"] fit by (simp add: S_16M_def)
  have "unat (start + push_bit S_16M 1) + n * 2 ^ 24 \<le> unat e"
    "unat e < unat (start + push_bit S_16M 1) + (n + 1) * 2 ^ 24"
    using n(1,2) unfolding beg by (simp_all add: algebra_simps)
  from bbma_init_loop_eq [OF this n(3), of 1 ?s0 start] obtain s1 where
    s1: "bbma_init_loop ?s0 (start + push_bit S_16M 1) start e 1 = Inr (s1, 1 + n)"
      "bb_base s1 = ?b" "tree_locks s1 = replicate 33 0" "cpu_trees s1 = cpu_trees (bbma_zero mem)"
      "length (all_trees s1) = 33"
      "\<forall>j < 33. all_trees s1 ! j =
        (if 1 \<le> j \<and> j < 1 + n then start + of_nat ((j - 1) * 8192) else all_trees ?s0 ! j)"
      "\<forall>a. length (tree_mem s1 a) = 8192"
      "\<forall>j. 1 \<le> j \<and> j < 1 + n \<longrightarrow> full 12 (tree_at (tree_mem s1 (start + of_nat ((j - 1) * 8192))) 1 12)"
    using n(4) mem by (auto simp: bbma_zero_def MAX_TREE_def)
  obtain ct where ct: "distribute_tree (cpu_trees s1) cpu_num (1 + n) = Inr ct"
    using distribute_tree_ok [OF cpu, of "1 + n"] n(4) s1(4) by (auto simp: bbma_zero_def)
  let ?s = "s1\<lparr>tree_num := n, cpu_trees := ct\<rparr>"
  have init: "bbma_init (bbma_zero mem) cpu_num start e = Inr ?s"
    using s1(1) ct by (simp add: bbma_init_def)
  have tree: "all_trees ?s ! i = tree_of (bb_base ?s) (i - 1) \<and> length (tree_bytes ?s i) = 8192 \<and>
      full 12 (tree_at (tree_bytes ?s i) 1 12)" if "i \<in> {1..n}" for i
    using that s1(2,6,7,8) n(4) by (simp add: tree_of_def MAX_NODE_def tree_bytes_def)
  have ok: "tree_ok ?s i" if "i \<in> {1..n}" for i
    using tree [OF that] full_wf by (simp add: tree_ok_def)
  have top: "unat (begin_alloc_addr (bb_base ?s)) + n * 2 ^ 24 \<le> 2 ^ 64"
    using n(1,3) beg s1(2) by (simp add: algebra_simps)
  have al: "2 ^ 24 dvd unat (begin_alloc_addr (bb_base ?s))"
    using start(2) beg s1(2) by simp
  have "bbma_inv ?s"
    unfolding bbma_inv_def using ok top al beg s1(2,3,5) n(4) start(1) by auto
  moreover have "owned ?s = {}"
  proof -
    have "taken 12 0 (tree_at (tree_bytes ?s i) 1 12) = {}" if "1 \<le> i" "i \<le> n" for i
      using tree [of i] that full_taken by simp
    then show ?thesis unfolding owned_def by auto
  qed
  ultimately show ?thesis using init tree s1(2,3) by (intro exI [of _ ?s]) (simp add: S_16M_def)
qed

section \<open>The interface to the clients\<close>

text \<open>
  What a client of a block allocator relies on. \<open>blocks\<close> is the set of blocks handed out
  (address and height), \<open>acquire\<close> returns 0 when it has nothing to give.
\<close>

locale block_allocator =
  fixes ok :: "'s \<Rightarrow> bool" and blocks :: "'s \<Rightarrow> (nat \<times> nat) set"
    and acquire :: "'s \<Rightarrow> u64 \<Rightarrow> (addr \<times> 's) res" and release :: "'s \<Rightarrow> addr \<Rightarrow> 's res"
  assumes acquire_law: "ok s \<Longrightarrow> acquire s n = Inr (p, s') \<Longrightarrow>
      ok s' \<and> (p = 0 \<and> blocks s' = blocks s \<or>
        p \<noteq> 0 \<and> (\<exists>k. unat n \<le> 2 ^ (12 + k) \<and> (unat p, k) \<notin> blocks s \<and> blocks s' = insert (unat p, k) (blocks s)))"
    and release_law: "ok s \<Longrightarrow> (unat p, k) \<in> blocks s \<Longrightarrow> release s p = Inr s' \<Longrightarrow>
      ok s' \<and> blocks s' = blocks s - {(unat p, k)}"
    and disjoint_law: "ok s \<Longrightarrow> x \<in> blocks s \<Longrightarrow> y \<in> blocks s \<Longrightarrow> x \<noteq> y \<Longrightarrow> block x \<inter> block y = {}"
begin

lemma acquire_keeps: "ok s \<Longrightarrow> acquire s n = Inr (p, s') \<Longrightarrow> blocks s \<subseteq> blocks s'"
  by (drule (1) acquire_law) blast

lemma acquire_fresh:
  assumes "ok s" and "acquire s n = Inr (p, s')" and "p \<noteq> 0" and "x \<in> blocks s"
  shows "{unat p..<unat p + unat n} \<inter> block x = {}"
proof -
  obtain k where k: "ok s'" "unat n \<le> 2 ^ (12 + k)" "(unat p, k) \<notin> blocks s"
    "blocks s' = insert (unat p, k) (blocks s)"
    using acquire_law [OF assms(1,2)] assms(3) by blast
  have "block (unat p, k) \<inter> block x = {}" using disjoint_law [OF k(1)] k(3,4) assms(4) by blast
  moreover have "{unat p..<unat p + unat n} \<subseteq> block (unat p, k)" using k(2) by (auto simp: block_def)
  ultimately show ?thesis by blast
qed

lemma release_keeps_others:
  "ok s \<Longrightarrow> (unat p, k) \<in> blocks s \<Longrightarrow> release s p = Inr s' \<Longrightarrow> x \<in> blocks s \<Longrightarrow>
     x \<noteq> (unat p, k) \<Longrightarrow> x \<in> blocks s'"
  by (drule (2) release_law) blast

lemma acquire_release:
  assumes "ok s" and "acquire s n = Inr (p, s')" and "p \<noteq> 0" and "release s' p = Inr s''"
  shows "blocks s'' = blocks s"
  using acquire_law [OF assms(1,2)] assms(3,4) release_law [of s' p _ s''] by blast

end

interpretation buddy: block_allocator bbma_inv owned bbma_alloc bbma_free
proof
  fix s s' :: bbma and n p :: u64
  assume "bbma_inv s" and "bbma_alloc s n = Inr (p, s')"
  then show "bbma_inv s' \<and> (p = 0 \<and> owned s' = owned s \<or>
        p \<noteq> 0 \<and> (\<exists>k. unat n \<le> 2 ^ (12 + k) \<and> (unat p, k) \<notin> owned s \<and> owned s' = insert (unat p, k) (owned s)))"
    using bbma_alloc_effect [of s n] unfolding alloc_effect_def by auto
next
  fix s s' :: bbma and p :: u64 and k
  assume a: "bbma_inv s" "(unat p, k) \<in> owned s" "bbma_free s p = Inr s'"
  note e = bbma_free_effect [OF a(1,2)]
  have ne: "p \<noteq> begin_alloc_addr (bb_base s)" using e(3) a(3) by auto
  have "tree_locks s ! home s p = 0" using e(4) [OF ne] a(3) by (rule_tac ccontr) simp
  with ne show "bbma_inv s' \<and> owned s' = owned s - {(unat p, k)}" using e(5) a(3) by auto
next
  fix s x y assume "bbma_inv s" "x \<in> owned s" "y \<in> owned s" "x \<noteq> y"
  then show "block x \<inter> block y = {}" by (rule owned_disjoint)
qed

section \<open>Histories\<close>

text \<open>
  The states the kernel can drive the allocator through from its initialisation: requests of
  any size, and releases of blocks that are handed out.
\<close>

inductive bbma_reach :: "bbma \<Rightarrow> bool" where
  boot: "0 < unat start \<Longrightarrow> 2 ^ 24 dvd unat start \<Longrightarrow> 1 \<le> cpu_num \<Longrightarrow> cpu_num \<le> 8 \<Longrightarrow>
     (\<And>a. length (mem a) = 8192) \<Longrightarrow> n \<le> 32 \<Longrightarrow>
     unat start + (n + 1) * 2 ^ 24 \<le> unat e \<Longrightarrow> unat e < unat start + (n + 2) * 2 ^ 24 \<Longrightarrow>
     unat e + 2 ^ 24 < 2 ^ 64 \<Longrightarrow> bbma_init (bbma_zero mem) cpu_num start e = Inr s \<Longrightarrow> bbma_reach s"
| alloc: "bbma_reach s \<Longrightarrow> bbma_alloc s w = Inr (p, s') \<Longrightarrow> bbma_reach s'"
| release: "bbma_reach s \<Longrightarrow> (unat p, k) \<in> owned s \<Longrightarrow> bbma_free s p = Inr s' \<Longrightarrow> bbma_reach s'"

lemma bbma_reach_inv: "bbma_reach s \<Longrightarrow> bbma_inv s"
proof (induction rule: bbma_reach.induct)
  case (boot start cpu_num mem n e s)
  then show ?case using bbma_init_ok [of start cpu_num n e mem] by auto
next
  case (alloc s w p s')
  then show ?case using buddy.acquire_law by blast
next
  case (release s p k s')
  then show ?case using buddy.release_law by blast
qed

text \<open>A machine with four areas of memory, for the witnesses.\<close>

lemma boot_example:
  "\<exists>s. bbma_init (bbma_zero (\<lambda>_. replicate 8192 0)) 2 0x1000000 0x6000000 = Inr s \<and> bbma_inv s \<and>
     owned s = {} \<and> tree_num s = 4 \<and> tree_locks s = replicate 33 0 \<and> begin_alloc_addr (bb_base s) = 0x2000000 \<and>
     (\<forall>i \<in> {1..4}. full 12 (tree_at (tree_bytes s i) 1 12))"
proof -
  have "\<exists>s. bbma_init (bbma_zero (\<lambda>_. replicate 8192 0)) 2 0x1000000 0x6000000 = Inr s \<and> bbma_inv s \<and>
     owned s = {} \<and> tree_num s = 4 \<and> tree_locks s = replicate 33 0 \<and> begin_alloc_addr (bb_base s) = 0x1000000 + 2 ^ 24 \<and>
     (\<forall>i \<in> {1..4}. full 12 (tree_at (tree_bytes s i) 1 12))"
    by (rule bbma_init_ok) simp_all
  then show ?thesis by simp
qed

section \<open>Properties\<close>

text \<open>
  \<open>determine_bbma_size\<close> picks the least block: the exponent is at least 12, the block
  holds the request, the next smaller block would not; above 16 MiB the request is refused.
\<close>

theorem determine_bbma_size_least:
  "(if 2 ^ 24 < unat w then determine_bbma_size w = BBMA_REFUSE
    else 12 \<le> determine_bbma_size w \<and> determine_bbma_size w \<le> 24 \<and> unat w \<le> 2 ^ determine_bbma_size w \<and>
      (determine_bbma_size w = 12 \<or> 2 ^ (determine_bbma_size w - 1) < unat w))"
proof (cases rule: determine_bbma_size_cases [of w])
  case (2 k)
  have "unat w \<le> 2 ^ 24" using 2(1,3) power_increasing [of "12 + k" 24 "2 :: nat"] by simp
  then show ?thesis using 2 by auto
qed simp

text \<open>
  C20: initialisation: \<open>bbma_init\<close> on an aligned start address cuts the memory into as many
  16 MiB areas as fit after the first one (which holds the trees), leaves nothing handed out
  and every lock free, and establishes the invariant of the allocator.
\<close>

theorem bbma_init_correct:
  assumes "0 < unat start" and "2 ^ 24 dvd unat start" and "1 \<le> cpu_num" and "cpu_num \<le> 8"
    and "unat start + (n + 1) * 2 ^ 24 \<le> unat e" and "unat e < unat start + (n + 2) * 2 ^ 24"
    and "unat e + 2 ^ 24 < 2 ^ 64" and "n \<le> 32" and "\<And>a. length (mem a) = 8192"
  shows "\<exists>s. bbma_init (bbma_zero mem) cpu_num start e = Inr s \<and> bbma_inv s \<and> owned s = {} \<and>
     tree_num s = n \<and> tree_locks s = replicate 33 0"
  using bbma_init_ok [OF assms(1-8), of mem] assms(9) by blast

theorem bbma_init_correct_witness:
  "\<exists>s. bbma_init (bbma_zero (\<lambda>_. replicate 8192 0)) 2 0x1000000 0x6000000 = Inr s \<and> bbma_inv s \<and>
     owned s = {} \<and> tree_num s = 4 \<and> tree_locks s = replicate 33 0"
  by (rule bbma_init_correct) simp_all

text \<open>
  C13: allocation: \<open>bbma_alloc\<close> always returns and keeps the invariant. It returns 0 and
  changes nothing exactly when the request is above 16 MiB or no unlocked tree promises a
  large enough block; otherwise it returns a block that holds the request, is aligned to its
  size, was not handed out before, and is the only change to the blocks handed out.
\<close>

theorem bbma_alloc_correct:
  assumes "bbma_inv s"
  shows "\<exists>p s'. bbma_alloc s w = Inr (p, s') \<and> bbma_inv s' \<and> tree_locks s' = tree_locks s \<and>
     (if determine_bbma_size w = BBMA_REFUSE \<or> (\<forall>i \<in> {1..tree_num s}. \<not> fits s (determine_bbma_size w) i)
      then p = 0 \<and> s' = s
      else p \<noteq> 0 \<and> (\<exists>k \<le> 12. determine_bbma_size w = 12 + k \<and> unat w \<le> 2 ^ (12 + k) \<and>
        (unat p, k) \<notin> owned s \<and> owned s' = insert (unat p, k) (owned s) \<and> 2 ^ (12 + k) dvd unat p))"
  using bbma_alloc_effect [OF assms, of w] unfolding alloc_effect_def by auto

theorem bbma_alloc_correct_witness:
  "\<exists>s p s'. bbma_inv s \<and> bbma_alloc s 5000 = Inr (p, s') \<and> p \<noteq> 0 \<and> owned s' = {(unat p, 1)} \<and> 2 ^ 13 dvd unat p"
proof -
  obtain s where s: "bbma_inv s" "owned s = {}" "tree_num s = 4" "tree_locks s = replicate 33 0"
    "\<forall>i \<in> {1..4}. full 12 (tree_at (tree_bytes s i) 1 12)"
    using boot_example by blast
  have sz: "determine_bbma_size 5000 = 13" by (simp add: determine_bbma_size_def)
  have "fits s 13 1" using s(4,5) full_val [of 12 "tree_at (tree_bytes s 1) 1 12"] by (simp add: fits_def)
  then have "\<not> (determine_bbma_size 5000 = BBMA_REFUSE \<or> (\<forall>i \<in> {1..tree_num s}. \<not> fits s (determine_bbma_size 5000) i))"
    using s(3) sz by (auto simp: BBMA_REFUSE_def intro!: bexI [of _ 1])
  note room = this [THEN eq_False [THEN iffD2]]
  obtain p s' k where "bbma_alloc s 5000 = Inr (p, s')" "p \<noteq> 0" "determine_bbma_size 5000 = 12 + k"
    "owned s' = insert (unat p, k) (owned s)" "2 ^ (12 + k) dvd unat p"
    using bbma_alloc_correct [OF s(1), of 5000] unfolding room by auto
  moreover then have "k = 1" using sz by simp
  ultimately show ?thesis using s(1,2) by auto
qed

text \<open>
  C14: release: \<open>bbma_free\<close> of a block that is handed out, with its tree unlocked, returns,
  keeps the invariant and takes exactly this block out of the blocks handed out; while
  another CPU holds the tree's lock it waits. The block at the very start of the memory is the
  exception: its release fails the assertion \<open>ptr > begin_alloc_addr\<close>.
\<close>

theorem bbma_free_correct:
  assumes "bbma_inv s" and "(unat ptr, k) \<in> owned s"
  shows "if ptr = begin_alloc_addr (bb_base s) then bbma_free s ptr = Inl Assert
    else if tree_locks s ! home s ptr \<noteq> 0 then bbma_free s ptr = Inl Hang
    else \<exists>s'. bbma_free s ptr = Inr s' \<and> bbma_inv s' \<and> owned s' = owned s - {(unat ptr, k)} \<and>
        tree_locks s' = tree_locks s"
  using bbma_free_effect(3-5) [OF assms] by auto

text \<open>Two 16 MiB requests: the first block is the one at the start of the memory.\<close>

lemma two_blocks_example:
  "\<exists>s p q s1 s2. bbma_reach s \<and> bbma_alloc s 0x1000000 = Inr (p, s1) \<and> bbma_alloc s1 0x1000000 = Inr (q, s2) \<and>
     p = begin_alloc_addr (bb_base s2) \<and> q \<noteq> 0 \<and> q \<noteq> p \<and> owned s2 = {(unat p, 12), (unat q, 12)} \<and>
     tree_locks s2 = replicate 33 0 \<and> bbma_inv s2"
proof -
  obtain s where init: "bbma_init (bbma_zero (\<lambda>_. replicate 8192 0)) 2 0x1000000 0x6000000 = Inr s"
    and s: "bbma_inv s" "owned s = {}" "tree_num s = 4" "tree_locks s = replicate 33 0"
    "begin_alloc_addr (bb_base s) = 0x2000000" "\<forall>i \<in> {1..4}. full 12 (tree_at (tree_bytes s i) 1 12)"
    using boot_example by blast
  have reach: "bbma_reach s" by (rule bbma_reach.boot [OF _ _ _ _ _ _ _ _ _ init, where n = 4]) simp_all
  have sz: "determine_bbma_size 0x1000000 = 12 + 12" by (simp add: determine_bbma_size_def)
  have root: "tree_bytes s i ! 1 = 24" if "i \<in> {1..4}" for i
    using s(6) that full_val [of 12 "tree_at (tree_bytes s i) 1 12"] by simp
  then have f: "find (fits s (12 + 12)) [1..<Suc (tree_num s)] = Some 1"
    using s(3,4) by (simp add: upt_rec fits_def)
  obtain p t' where p: "bbma_alloc s 0x1000000 = Inr (area_ptr (bb_base s) (1 - 1) p, put_tree s 1 t')"
      "p < 2 ^ 24" "length t' = 8192" "twf 12 (tree_at t' 1 12)"
      "taken 12 0 (tree_at t' 1 12) = insert (p, 12) (taken 12 0 (tree_at (tree_bytes s 1) 1 12))"
      "(p, 12) \<notin> taken 12 0 (tree_at (tree_bytes s 1) 1 12)"
    using bbma_alloc_some [OF s(1) _ sz f] by auto
  let ?s1 = "put_tree s 1 t'"
  have "p + 2 ^ (12 + 12) \<le> 0 + 2 ^ (12 + 12)" using taken_bounds [of p 12 12 0 "tree_at t' 1 12"] p(5) by blast
  then have p0: "p = 0" by simp
  have inv1: "bbma_inv ?s1" using put_tree_inv [OF s(1) _ _ p(3,4)] s(3) by simp
  have own1: "owned ?s1 = {(0x2000000, 12)}"
    using owned_new_block(1) [OF s(1) _ _ p(5,6,2)] s(2,3,5) p0 by (simp add: area_of_def)
  have "fits ?s1 24 2" using root [of 2] put_tree_bytes [OF s(1), of 1 2 t'] s(3,4) by (simp add: fits_def)
  then obtain q s2 k where q: "bbma_alloc ?s1 0x1000000 = Inr (q, s2)" "bbma_inv s2" "q \<noteq> 0"
     "determine_bbma_size 0x1000000 = 12 + k" "(unat q, k) \<notin> owned ?s1"
     "owned s2 = insert (unat q, k) (owned ?s1)" "tree_locks s2 = tree_locks ?s1" "bb_base s2 = bb_base ?s1"
    using bbma_alloc_effect [of ?s1 "0x1000000"] inv1 s(3) sz unfolding alloc_effect_def
    by (auto simp: BBMA_REFUSE_def)
  have "k = 12" using q(4) sz by simp
  then have own2: "owned s2 = {(0x2000000, 12), (unat q, 12)}" using q(6) own1 by auto
  have ne: "q \<noteq> 0x2000000" using q(5) own1 \<open>k = 12\<close> by auto
  have p1: "bbma_alloc s 0x1000000 = Inr (0x2000000, ?s1)" using p(1) p0 s(5) by (simp add: area_ptr_def)
  have base: "begin_alloc_addr (bb_base s2) = 0x2000000" using q(8) s(5) by simp
  have locks: "tree_locks s2 = replicate 33 0" using q(7) s(4) by simp
  have u: "unat (0x2000000 :: u64) = 0x2000000" by simp
  show ?thesis using reach p1 q(1,2,3) base ne own2 [folded u] locks by metis
qed

theorem bbma_free_correct_witness:
  "\<exists>s p q s'. bbma_inv s \<and> owned s = {(unat p, 12), (unat q, 12)} \<and> p \<noteq> q \<and>
     bbma_free s p = Inl Assert \<and> bbma_free s q = Inr s' \<and> owned s' = {(unat p, 12)}"
proof -
  obtain s p q where s: "bbma_inv s" "p = begin_alloc_addr (bb_base s)" "q \<noteq> p"
    "owned s = {(unat p, 12), (unat q, 12)}" "tree_locks s = replicate 33 0"
    using two_blocks_example by blast
  have "(unat p, 12) \<in> owned s" "(unat q, 12) \<in> owned s" using s(4) by simp_all
  note free = bbma_free_correct [OF s(1) this(1)] bbma_free_correct [OF s(1) this(2)]
  have "home s q < 33"
    using bbma_free_effect(2) [OF s(1), of q 12] s(1,4) by (simp add: bbma_inv_def)
  then have "tree_locks s ! home s q = 0" using s(5) by simp
  moreover have "unat p \<noteq> unat q" using s(3) by (simp add: word_unat_eq_iff)
  ultimately have "bbma_free s p = Inl Assert" and
    "\<exists>s'. bbma_free s q = Inr s' \<and> owned s' = {(unat p, 12)}"
    using free s(2-4) by (auto simp: insert_Diff_if)
  then show ?thesis using s(1,3,4) by blast
qed



text \<open>
  C4: refinement: on the byte array of a tree, \<open>get_the_free_space_in_tree\<close> computes what
  the allocator on binary trees computes (leftmost subtree that promises enough), and returns
  the address of the block it picked; no byte outside the node's subtree changes.
\<close>

theorem get_free_refines_talloc:
  assumes "length t = 8192" and "twf 12 (tree_at t 1 12)" and "12 + k \<le> t ! 1" and "k \<le> 12"
    and "gap_ok b gap" and "talloc k 12 0 (tree_at t 1 12) = (p, u)"
  shows "\<exists>t'. get_the_free_space_in_tree b (tree_of b gap) t 1 S_16M (12 + k) = Inr (area_ptr b gap p, t') \<and>
     tree_at t' 1 12 = u \<and> t' ! 0 = t ! 0"
proof -
  have "\<not> below 1 0" using below_le by fastforce
  then show ?thesis
    using get_free_refines [OF assms(1) node_at_root assms(2-5), unfolded node_base_root, OF assms(6)]
    by (auto simp: S_16M_def area_ptr_def same_outside_def)
qed

theorem get_free_refines_talloc_witness:
  "\<exists>t'. get_the_free_space_in_tree \<lparr>real_start_addr = 0x1000000, begin_alloc_addr = 0x2000000\<rparr> 0x1002000
      (initialize_tree (replicate 8192 0)) 1 S_16M (12 + 12) = Inr (0x3000000, t') \<and> val (tree_at t' 1 12) = 0"
proof -
  let ?b = "\<lparr>real_start_addr = 0x1000000, begin_alloc_addr = 0x2000000\<rparr>"
  let ?t = "initialize_tree (replicate 8192 0)"
  have t: "length ?t = 8192" "full 12 (tree_at ?t 1 12)"
    using initialize_tree_full [of "replicate 8192 0"] by simp_all
  have "tree_at ?t 1 (Suc 11) = Split (?t ! 1) (tree_at ?t (2 * 1) 11) (tree_at ?t (2 * 1 + 1) 11)"
    by (rule tree_at.simps(2))
  then have "tree_at ?t 1 12 = Split (?t ! 1) (tree_at ?t 2 11) (tree_at ?t 3 11)" by simp
  then have "talloc 12 12 0 (tree_at ?t 1 12) = (0, Split 0 (tree_at ?t 2 11) (tree_at ?t 3 11))"
    by (simp del: tree_at.simps)
  moreover have "?t ! 1 = 24" using full_val [OF t(2)] by simp
  moreover have "gap_ok ?b 1" by (simp add: gap_ok_def area_of_def)
  ultimately have "\<exists>t'. get_the_free_space_in_tree ?b (tree_of ?b 1) ?t 1 S_16M (12 + 12) =
      Inr (area_ptr ?b 1 0, t') \<and> tree_at t' 1 12 = Split 0 (tree_at ?t 2 11) (tree_at ?t 3 11) \<and> t' ! 0 = ?t ! 0"
    using t(1) full_wf [OF t(2)] by (intro get_free_refines_talloc) (simp_all del: tree_at.simps)
  moreover have "tree_of ?b 1 = 0x1002000" "area_ptr ?b 1 0 = 0x3000000"
    by (simp_all add: tree_of_def area_ptr_def MAX_NODE_def)
  ultimately show ?thesis by (auto simp del: tree_at.simps val_tree_at)
qed

end
