(* ===== verification/Slab.thy ===== *)
theory Slab
  imports Buddy_Props
begin

text \<open>
  The slab allocator (\<open>kernel/src/slab.c\<close>, \<open>kernel/include/slab.h\<close>) and the physical
  memory manager on top of both allocators (\<open>kernel/src/pmm.c\<close>). A slab is a 4 KiB page of the
  buddy allocator: a \<open>SLAB_STICK\<close> header, then blocks of one size, the free ones linked
  through their first word.
\<close>

section \<open>State\<close>

definition SLAB_NUM :: nat where "SLAB_NUM = 7"
definition CPU_FIND_SLAB_OFFSET :: nat where "CPU_FIND_SLAB_OFFSET = 5"
definition SLAB_REFUSE :: nat where "SLAB_REFUSE = 12"
definition S_2KB :: nat where "S_2KB = 11"
definition SLAB_REQUEST_SPACE :: u64 where "SLAB_REQUEST_SPACE = 0x1000"

text \<open>\<open>sizeof(SLAB_STICK)\<close>: an \<open>int\<close>, two pointers and an \<open>unsigned int\<close>, with padding.\<close>

definition SLAB_STICK_SIZE :: u64 where "SLAB_STICK_SIZE = 32"

lemmas slab_consts = SLAB_NUM_def CPU_FIND_SLAB_OFFSET_def SLAB_REFUSE_def S_2KB_def
  SLAB_REQUEST_SPACE_def SLAB_STICK_SIZE_def

record slab_stick =
  slab_lock :: int
  current_slab_free_block_list :: addr
  next_slab_stick :: addr
  current_slab_free_space :: nat

text \<open>
  Memory as the allocator uses it: \<open>stick\<close> reads the header at the start of a page,
  \<open>next_free\<close> the first word of a block. A header occupies the first 32 bytes of its page and
  no block starts there, so the two views do not overlap.
\<close>

record slab_sys =
  sl_bbma :: bbma
  cpu_own_area :: "addr list list"
  stick :: "addr \<Rightarrow> slab_stick"
  next_free :: "addr \<Rightarrow> addr"

definition upd_stick :: "slab_sys \<Rightarrow> addr \<Rightarrow> (slab_stick \<Rightarrow> slab_stick) \<Rightarrow> slab_sys" where
  "upd_stick s a f = s\<lparr>stick := (stick s)(a := f (stick s a))\<rparr>"

section \<open>Block sizes\<close>

definition determine_slab_size :: "u64 \<Rightarrow> nat" where
  "determine_slab_size sz =
    (if sz \<le> 32 then 5
     else if sz \<le> 64 then 6
     else if sz \<le> 128 then 7
     else if sz \<le> 256 then 8
     else if sz \<le> 512 then 9
     else if sz \<le> 1024 then 10
     else if sz \<le> 2048 then 11
     else SLAB_REFUSE)"

definition slab_align_to_4kb :: "addr \<Rightarrow> addr" where
  "slab_align_to_4kb ptr = (let mask = push_bit 12 1 - 1 in ptr AND NOT mask)"

section \<open>Taking a block\<close>

text \<open>
  The walk over the pages of a size class. A page without free blocks is locked, found empty
  and unlocked. The walk over a cyclic list would not end; \<open>fuel\<close> bounds it.
\<close>

fun find_page_loop :: "nat \<Rightarrow> slab_sys \<Rightarrow> addr \<Rightarrow> (addr \<times> slab_sys) res" where
  "find_page_loop 0 s free_space = Inl Hang"
| "find_page_loop (Suc fuel) s free_space =
    (if free_space = 0 then Inr (0, s)
     else res_bind (spin_lock (slab_lock (stick s free_space))) (\<lambda>lk.
       let s1 = upd_stick s free_space (slab_lock_update (\<lambda>_. lk)) in
       if current_slab_free_space (stick s1 free_space) = 0 then
         (let need_unlock = free_space; nxt = next_slab_stick (stick s1 free_space) in
          find_page_loop fuel (upd_stick s1 need_unlock (slab_lock_update spin_unlock)) nxt)
       else Inr (free_space, s1)))"

definition area_slot :: "slab_sys \<Rightarrow> nat \<Rightarrow> nat \<Rightarrow> addr res" where
  "area_slot s cpu_num slab_size =
    (if slab_size < CPU_FIND_SLAB_OFFSET then Inl Undefined
     else if length (cpu_own_area s) \<le> cpu_num then Inl Undefined
     else if length (cpu_own_area s ! cpu_num) \<le> slab_size - CPU_FIND_SLAB_OFFSET then Inl Undefined
     else Inr (cpu_own_area s ! cpu_num ! (slab_size - CPU_FIND_SLAB_OFFSET)))"

text \<open>At most \<open>32 * 4096\<close> pages are managed, so a longer walk repeats a page.\<close>

definition SLAB_FUEL :: nat where "SLAB_FUEL = 131074"

definition find_the_avaliable_page_in_slab_and_lock :: "slab_sys \<Rightarrow> nat \<Rightarrow> nat \<Rightarrow> (addr \<times> slab_sys) res" where
  "find_the_avaliable_page_in_slab_and_lock s cpu_num slab_size =
    res_bind (area_slot s cpu_num slab_size) (\<lambda>slab_addr.
      if slab_addr = 0 then Inr (0, s) else find_page_loop SLAB_FUEL s slab_addr)"

definition find_the_free_space_in_slab :: "slab_sys \<Rightarrow> nat \<Rightarrow> nat \<Rightarrow> (addr \<times> slab_sys) res" where
  "find_the_free_space_in_slab s cpu_num slab_size =
    res_bind (find_the_avaliable_page_in_slab_and_lock s cpu_num slab_size) (\<lambda>(free_space, s1).
      if \<not> (free_space = 0 \<or> current_slab_free_space (stick s1 free_space) > 0) then Inl Assert
      else if free_space = 0 then Inr (0, s1)
      else if current_slab_free_block_list (stick s1 free_space) = 0 then Inl Assert
      else
        let blk = current_slab_free_block_list (stick s1 free_space);
            s2 = upd_stick s1 free_space (current_slab_free_block_list_update (\<lambda>_. next_free s1 blk));
            s3 = upd_stick s2 free_space (current_slab_free_space_update (\<lambda>n. n - 1));
            s4 = upd_stick s3 free_space (slab_lock_update spin_unlock)
        in Inr (blk, s4))"

section \<open>A new page\<close>

text \<open>The loop that links the blocks: the last one is at the head of the list.\<close>

fun link_blocks :: "slab_sys \<Rightarrow> addr \<Rightarrow> nat \<Rightarrow> nat \<Rightarrow> addr \<Rightarrow> slab_sys" where
  "link_blocks s slab_page slab_size 0 slab_block_addr = s"
| "link_blocks s slab_page slab_size (Suc n) slab_block_addr =
    (let s1 = s\<lparr>next_free := (next_free s)(slab_block_addr := current_slab_free_block_list (stick s slab_page))\<rparr>;
         s2 = upd_stick s1 slab_page (current_slab_free_block_list_update (\<lambda>_. slab_block_addr))
     in link_blocks s2 slab_page slab_size n (slab_block_addr + push_bit slab_size 1))"

definition initialize_a_slab_new_page :: "slab_sys \<Rightarrow> nat \<Rightarrow> addr \<Rightarrow> slab_sys res" where
  "initialize_a_slab_new_page s slab_size slab_page =
    res_bind (is_align_to slab_page 12) (\<lambda>al.
    if \<not> al then Inl Assert
    else if \<not> slab_size \<le> S_2KB then Inl Assert
    else res_bind (align_to SLAB_STICK_SIZE slab_size) (\<lambda>slab_stick_size.
      if \<not> slab_stick_size \<le> push_bit S_2KB 1 then Inl Assert
      else
        let n = unat (drop_bit slab_size (SLAB_REQUEST_SPACE - slab_stick_size));
            s1 = upd_stick s slab_page (\<lambda>st. st\<lparr>current_slab_free_space := n, current_slab_free_block_list := 0\<rparr>)
        in Inr (link_blocks s1 slab_page slab_size n (slab_page + slab_stick_size))))"

definition request_a_slab_from_bbma :: "slab_sys \<Rightarrow> nat \<Rightarrow> nat \<Rightarrow> (addr \<times> slab_sys) res" where
  "request_a_slab_from_bbma s cpu_num slab_size =
    res_bind (bbma_alloc (sl_bbma s) SLAB_REQUEST_SPACE) (\<lambda>(slab_addr, bb).
      let s1 = s\<lparr>sl_bbma := bb\<rparr> in
      if slab_addr AND (SLAB_REQUEST_SPACE - 1) \<noteq> 0 then Inl Assert
      else if slab_addr = 0 then Inr (0, s1)
      else res_bind (area_slot s1 cpu_num slab_size) (\<lambda>head.
        let s2 = upd_stick s1 slab_addr (next_slab_stick_update (\<lambda>_. head));
            s3 = s2\<lparr>cpu_own_area := (cpu_own_area s2)[cpu_num :=
                   (cpu_own_area s2 ! cpu_num)[slab_size - CPU_FIND_SLAB_OFFSET := slab_addr]]\<rparr>
        in res_bind (initialize_a_slab_new_page s3 slab_size slab_addr) (\<lambda>s4.
           find_the_free_space_in_slab s4 cpu_num slab_size)))"

definition slab_alloc :: "slab_sys \<Rightarrow> nat \<Rightarrow> u64 \<Rightarrow> (addr \<times> slab_sys) res" where
  "slab_alloc s cpu_num sz =
    (if sz = 0 then Inr (0, s)
     else let slab_size = determine_slab_size sz in
     if slab_size = SLAB_REFUSE then
       res_bind (bbma_alloc (sl_bbma s) sz) (\<lambda>(p, bb). Inr (p, s\<lparr>sl_bbma := bb\<rparr>))
     else if \<not> (slab_size \<ge> 5 \<and> slab_size \<le> S_2KB) then Inl Assert
     else res_bind (find_the_free_space_in_slab s cpu_num slab_size) (\<lambda>(p, s1).
       res_bind (if p = 0 then Inr True else is_align_to p slab_size) (\<lambda>ok.
         if \<not> ok then Inl Assert
         else res_bind (if p = 0 then request_a_slab_from_bbma s1 cpu_num slab_size else Inr (p, s1))
           (\<lambda>(q, s2). res_bind (is_align_to q slab_size) (\<lambda>ok2.
              if ok2 then Inr (q, s2) else Inl Assert)))))"

section \<open>Giving a block back\<close>

definition slab_free :: "slab_sys \<Rightarrow> addr \<Rightarrow> slab_sys res" where
  "slab_free s ptr =
    (if ptr AND (SLAB_REQUEST_SPACE - 1) = 0 then Inl Assert
     else let st = slab_align_to_4kb ptr in
     if st AND (SLAB_REQUEST_SPACE - 1) \<noteq> 0 then Inl Assert
     else if \<not> st < ptr then Inl Assert
     else if \<not> ptr - st < push_bit 12 1 then Inl Assert
     else res_bind (spin_lock (slab_lock (stick s st))) (\<lambda>lk.
       let s1 = upd_stick s st (slab_lock_update (\<lambda>_. lk));
           s2 = s1\<lparr>next_free := (next_free s1)(ptr := current_slab_free_block_list (stick s1 st))\<rparr>;
           s3 = upd_stick s2 st (current_slab_free_block_list_update (\<lambda>_. ptr));
           s4 = upd_stick s3 st (current_slab_free_space_update (\<lambda>n. (n + 1) mod 2 ^ 32))
       in Inr (upd_stick s4 st (slab_lock_update spin_unlock))))"

section \<open>Start-up\<close>

fun initialize_slabs :: "slab_sys \<Rightarrow> nat \<Rightarrow> nat list \<Rightarrow> slab_sys res" where
  "initialize_slabs s cpu_num [] = Inr s"
| "initialize_slabs s cpu_num (i # is) =
     res_bind (request_a_slab_from_bbma s cpu_num (i + CPU_FIND_SLAB_OFFSET)) (\<lambda>(_, s1).
       initialize_slabs s1 cpu_num is)"

definition initialize_a_cpu_slab_area :: "slab_sys \<Rightarrow> nat \<Rightarrow> slab_sys res" where
  "initialize_a_cpu_slab_area s cpu_num = initialize_slabs s cpu_num [0..<SLAB_NUM]"

fun initialize_cpus :: "slab_sys \<Rightarrow> nat list \<Rightarrow> slab_sys res" where
  "initialize_cpus s [] = Inr s"
| "initialize_cpus s (i # is) = res_bind (initialize_a_cpu_slab_area s i) (\<lambda>s1. initialize_cpus s1 is)"

definition slab_init :: "slab_sys \<Rightarrow> nat \<Rightarrow> slab_sys res" where
  "slab_init s cpu_num = initialize_cpus s [0..<cpu_num]"

section \<open>The physical memory manager\<close>

definition kalloc :: "slab_sys \<Rightarrow> nat \<Rightarrow> u64 \<Rightarrow> (addr \<times> slab_sys) res" where
  "kalloc s cpu sz = slab_alloc s cpu sz"

definition kfree :: "slab_sys \<Rightarrow> addr \<Rightarrow> slab_sys res" where
  "kfree s ptr = res_bind (is_align_to ptr 12) (\<lambda>page.
     if page then res_bind (bbma_free (sl_bbma s) ptr) (\<lambda>bb. Inr (s\<lparr>sl_bbma := bb\<rparr>))
     else slab_free s ptr)"

text \<open>The entry points run with interrupts off and leave them as they found them.\<close>

definition kalloc_safe :: "bool \<Rightarrow> slab_sys \<Rightarrow> nat \<Rightarrow> int \<Rightarrow> (addr \<times> slab_sys \<times> bool) res" where
  "kalloc_safe intr s cpu sz =
    (let i = intr; intr1 = False in
     res_bind (kalloc s cpu (of_int sz)) (\<lambda>(ret, s1). Inr (ret, s1, if i then True else intr1)))"

definition kfree_safe :: "bool \<Rightarrow> slab_sys \<Rightarrow> addr \<Rightarrow> (slab_sys \<times> bool) res" where
  "kfree_safe intr s ptr =
    (let i = intr; intr1 = False in
     res_bind (kfree s ptr) (\<lambda>s1. Inr (s1, if i then True else intr1)))"

definition pmm_init :: "slab_sys \<Rightarrow> nat \<Rightarrow> addr \<Rightarrow> addr \<Rightarrow> slab_sys res" where
  "pmm_init s cpu_num heap_start heap_end =
    res_bind (align_to heap_start 24) (\<lambda>align_begin_address.
    res_bind (bbma_init (sl_bbma s) cpu_num align_begin_address heap_end) (\<lambda>bb.
      slab_init (s\<lparr>sl_bbma := bb\<rparr>) cpu_num))"

end
