(* ===== verification/Slab_Spec.thy ===== *)
theory Slab_Spec
  imports Slab
begin

text \<open>
  The invariant of the slab allocator and of the memory manager, the set of memory ranges a
  client holds, and the effect of every operation on it.
\<close>

section \<open>The blocks of a page\<close>

definition classes :: "nat set" where "classes = {5..11}"

definition page_blocks :: "addr \<Rightarrow> nat \<Rightarrow> addr list" where
  "page_blocks p k = map (\<lambda>j. p + of_nat (j * 2 ^ k)) [1..<2 ^ (12 - k)]"

definition page_at :: "addr \<Rightarrow> bool" where
  "page_at p \<longleftrightarrow> 0 < unat p \<and> 4096 dvd unat p \<and> unat p + 4096 \<le> 2 ^ 64"

lemma class_power:
  assumes "k \<in> classes"
  shows "(2 :: nat) ^ (12 - k) * 2 ^ k = 4096" and "32 \<le> (2 :: nat) ^ k" and "(2 :: nat) ^ k \<le> 2048"
    and "2 \<le> (2 :: nat) ^ (12 - k)" and "(2 :: nat) ^ k dvd 4096"
proof -
  have k: "5 \<le> k" "k \<le> 11" using assms by (auto simp: classes_def)
  show "(2 :: nat) ^ (12 - k) * 2 ^ k = 4096" using k by (simp flip: power_add)
  then show "(2 :: nat) ^ k dvd 4096" by (metis dvd_triv_right)
  show "32 \<le> (2 :: nat) ^ k" using power_increasing [OF k(1), of "2 :: nat"] by simp
  show "(2 :: nat) ^ k \<le> 2048" using power_increasing [OF k(2), of "2 :: nat"] by simp
  show "2 \<le> (2 :: nat) ^ (12 - k)" using power_increasing [of 1 "12 - k" "2 :: nat"] k by simp
qed

lemma block_offset:
  fixes j :: nat
  assumes "k \<in> classes" and "1 \<le> j" and "j < 2 ^ (12 - k)"
  shows "j * 2 ^ k + 2 ^ k \<le> 4096" and "2 ^ k \<le> j * 2 ^ k"
proof -
  have "(j + 1) * 2 ^ k \<le> 2 ^ (12 - k) * 2 ^ k" using assms(3) by (intro mult_le_mono1) simp
  then show "j * 2 ^ k + 2 ^ k \<le> 4096" using class_power(1) [OF assms(1)] by simp
  show "2 ^ k \<le> j * 2 ^ k" using assms(2) by simp
qed

lemma block_unat:
  assumes "page_at p" and "k \<in> classes" and "1 \<le> j" and "j < 2 ^ (12 - k)"
  shows "unat (p + of_nat (j * 2 ^ k)) = unat p + j * 2 ^ k"
proof -
  have off: "j * 2 ^ k < 4096"
    using block_offset(1) [OF assms(2-4)] class_power(2) [OF assms(2)] by linarith
  then have "unat (of_nat (j * 2 ^ k) :: u64) = j * 2 ^ k" by (intro unat_of_nat_small) simp
  then show ?thesis
    using unat_add_nowrap [of p "of_nat (j * 2 ^ k)"] off assms(1) by (simp add: page_at_def)
qed

lemma page_blocksE:
  assumes "b \<in> set (page_blocks p k)" and "page_at p" and "k \<in> classes"
  obtains j where "b = p + of_nat (j * 2 ^ k)" "1 \<le> j" "j < 2 ^ (12 - k)" "unat b = unat p + j * 2 ^ k"
    "2 ^ k \<le> j * 2 ^ k" "j * 2 ^ k + 2 ^ k \<le> 4096"
proof -
  obtain j where j: "b = p + of_nat (j * 2 ^ k)" "1 \<le> j" "j < 2 ^ (12 - k)"
    using assms(1) by (auto simp: page_blocks_def)
  show ?thesis
    using that [OF j] block_unat [OF assms(2,3) j(2,3)] block_offset [OF assms(3) j(2,3)] j(1) by simp
qed

lemma page_blocks_in:
  assumes "b \<in> set (page_blocks p k)" and "page_at p" and "k \<in> classes"
  shows "unat p < unat b" and "unat b + 2 ^ k \<le> unat p + 4096" and "2 ^ k dvd unat b"
    and "\<not> 4096 dvd unat b" and "b \<noteq> 0" and "unat b - unat b mod 4096 = unat p" and "b \<noteq> p"
proof -
  obtain j where j: "unat b = unat p + j * 2 ^ k" "2 ^ k \<le> j * 2 ^ k" "j * 2 ^ k + 2 ^ k \<le> 4096"
    using page_blocksE [OF assms] by metis
  have pos: "32 \<le> (2 :: nat) ^ k" using class_power(2) [OF assms(3)] .
  show lt: "unat p < unat b" "unat b + 2 ^ k \<le> unat p + 4096" using j pos by linarith+
  have p: "4096 dvd unat p" using assms(2) by (simp add: page_at_def)
  then have "2 ^ k dvd unat p" using class_power(5) [OF assms(3)] by (rule dvd_trans [rotated])
  then show "2 ^ k dvd unat b" using j(1) by simp
  have m: "unat b mod 4096 = j * 2 ^ k" using p j(1,3) pos by (auto elim!: dvdE)
  then show "\<not> 4096 dvd unat b" using j(2) pos by (simp add: dvd_eq_mod_eq_0)
  show "unat b - unat b mod 4096 = unat p" using m j(1) by simp
  show "b \<noteq> 0" "b \<noteq> p" using lt by auto
qed

lemma page_blocks_distinct:
  assumes "page_at p" and "k \<in> classes" shows "distinct (page_blocks p k)"
proof -
  have "inj_on (\<lambda>j. p + of_nat (j * 2 ^ k)) {1..<2 ^ (12 - k)}"
    using block_unat [OF assms] by (intro inj_onI) (metis add_left_cancel atLeastLessThan_iff
      mult_right_cancel power_eq_0_iff zero_neq_numeral)
  then show ?thesis by (simp add: page_blocks_def distinct_map)
qed

lemma page_of_block:
  assumes "b \<in> set (page_blocks p k)" and "page_at p" and "k \<in> classes"
  shows "slab_align_to_4kb b = p"
proof -
  have m: "(push_bit 12 1 - 1 :: u64) = mask 12" by (simp add: mask_eq_exp_minus_1)
  have "unat (b AND NOT (mask 12)) = unat p"
    using page_blocks_in(6) [OF assms] by (simp add: unat_and_not_mask)
  then show ?thesis unfolding slab_align_to_4kb_def m Let_def by (simp only: word_unat_eq_iff)
qed

lemma blocks_disjoint_pages:
  "b \<in> set (page_blocks p k) \<Longrightarrow> b \<in> set (page_blocks q l) \<Longrightarrow> page_at p \<Longrightarrow> page_at q \<Longrightarrow>
     k \<in> classes \<Longrightarrow> l \<in> classes \<Longrightarrow> p = q"
  using page_of_block by metis

text \<open>Two blocks of a page do not overlap.\<close>

lemma page_blocks_apart:
  assumes "a \<in> set (page_blocks p k)" and "b \<in> set (page_blocks p k)" and "a \<noteq> b"
    and "page_at p" and "k \<in> classes"
  shows "{unat a..<unat a + 2 ^ k} \<inter> {unat b..<unat b + 2 ^ k} = {}"
proof -
  obtain i where i: "a = p + of_nat (i * 2 ^ k)" "unat a = unat p + i * 2 ^ k"
    using page_blocksE [OF assms(1,4,5)] by metis
  obtain j where j: "b = p + of_nat (j * 2 ^ k)" "unat b = unat p + j * 2 ^ k"
    using page_blocksE [OF assms(2,4,5)] by metis
  have "i \<noteq> j" using i j assms(3) by auto
  then have "(i + 1) * 2 ^ k \<le> j * 2 ^ k \<or> (j + 1) * 2 ^ k \<le> i * 2 ^ k"
    by (cases i j rule: linorder_cases) (auto intro!: mult_le_mono1 simp del: mult_Suc)
  then show ?thesis using i j by auto
qed

section \<open>The invariant\<close>

text \<open>
  \<open>L c k\<close> lists the pages of class \<open>k\<close> of CPU \<open>c\<close>, \<open>F p\<close> the free blocks of page
  \<open>p\<close>, in the order of the pointers. Pages are buddy blocks of 4 KiB, no page is in two
  lists, the counter of a page is the length of its free list. No lock is held, and the lock
  word of a page that is not a slab reads 0: the program relies on the latter, since it never
  initialises the lock of a new page.
\<close>

definition page_ok :: "slab_sys \<Rightarrow> (addr \<Rightarrow> addr list) \<Rightarrow> nat \<Rightarrow> addr \<Rightarrow> bool" where
  "page_ok s F k p \<longleftrightarrow> (unat p, 0) \<in> owned (sl_bbma s) \<and>
     set (F p) \<subseteq> set (page_blocks p k) \<and> distinct (F p) \<and>
     linked (next_free s) (current_slab_free_block_list (stick s p)) (F p) \<and>
     current_slab_free_space (stick s p) = length (F p)"

definition slab_rel :: "slab_sys \<Rightarrow> (nat \<Rightarrow> nat \<Rightarrow> addr list) \<Rightarrow> (addr \<Rightarrow> addr list) \<Rightarrow> bool" where
  "slab_rel s L F \<longleftrightarrow>
     bbma_inv (sl_bbma s) \<and> tree_locks (sl_bbma s) = replicate 33 0 \<and>
     length (cpu_own_area s) = 8 \<and> (\<forall>c < 8. length (cpu_own_area s ! c) = 7) \<and>
     (\<forall>a. slab_lock (stick s a) = 0) \<and>
     (\<forall>c < 8. \<forall>k \<in> classes. distinct (L c k) \<and>
        linked (\<lambda>p. next_slab_stick (stick s p)) (cpu_own_area s ! c ! (k - 5)) (L c k) \<and>
        (\<forall>p \<in> set (L c k). page_ok s F k p)) \<and>
     (\<forall>c < 8. \<forall>k \<in> classes. \<forall>c' < 8. \<forall>k' \<in> classes. \<forall>p.
        p \<in> set (L c k) \<longrightarrow> p \<in> set (L c' k') \<longrightarrow> c = c' \<and> k = k')"

text \<open>The ranges a client holds, as pairs of a start and a length.\<close>

definition is_slab :: "(nat \<Rightarrow> nat \<Rightarrow> addr list) \<Rightarrow> addr \<Rightarrow> bool" where
  "is_slab L p \<longleftrightarrow> (\<exists>c < 8. \<exists>k \<in> classes. p \<in> set (L c k))"

definition small_live :: "(nat \<Rightarrow> nat \<Rightarrow> addr list) \<Rightarrow> (addr \<Rightarrow> addr list) \<Rightarrow> (nat \<times> nat) set" where
  "small_live L F = {(unat b, 2 ^ k) | b k c p. c < 8 \<and> k \<in> classes \<and> p \<in> set (L c k) \<and>
      b \<in> set (page_blocks p k) \<and> b \<notin> set (F p)}"

definition big_live :: "slab_sys \<Rightarrow> (nat \<Rightarrow> nat \<Rightarrow> addr list) \<Rightarrow> (nat \<times> nat) set" where
  "big_live s L = {(a, 2 ^ (12 + k)) | a k. (a, k) \<in> owned (sl_bbma s) \<and> \<not> (\<exists>p. is_slab L p \<and> (a, k) = (unat p, 0))}"

definition live :: "slab_sys \<Rightarrow> (nat \<Rightarrow> nat \<Rightarrow> addr list) \<Rightarrow> (addr \<Rightarrow> addr list) \<Rightarrow> (nat \<times> nat) set" where
  "live s L F = small_live L F \<union> big_live s L"

lemma owned_page_at:
  assumes "bbma_inv bb" and "(unat p, 0) \<in> owned bb" shows "page_at p"
proof -
  note b = owned_bounds [OF assms]
  have "0 < unat (begin_alloc_addr (bb_base bb))"
    "unat (begin_alloc_addr (bb_base bb)) + tree_num bb * 2 ^ 24 \<le> 2 ^ 64"
    using assms(1) by (simp_all add: bbma_inv_def)
  then show ?thesis using b by (simp add: page_at_def)
qed

lemma slab_relD:
  assumes "slab_rel s L F"
  shows "bbma_inv (sl_bbma s)" and "tree_locks (sl_bbma s) = replicate 33 0"
    and "length (cpu_own_area s) = 8" and "c < 8 \<Longrightarrow> length (cpu_own_area s ! c) = 7"
    and "slab_lock (stick s a) = 0"
    and "c < 8 \<Longrightarrow> k \<in> classes \<Longrightarrow> distinct (L c k)"
    and "c < 8 \<Longrightarrow> k \<in> classes \<Longrightarrow>
      linked (\<lambda>p. next_slab_stick (stick s p)) (cpu_own_area s ! c ! (k - 5)) (L c k)"
    and "c < 8 \<Longrightarrow> k \<in> classes \<Longrightarrow> p \<in> set (L c k) \<Longrightarrow> page_ok s F k p"
    and "c < 8 \<Longrightarrow> k \<in> classes \<Longrightarrow> c' < 8 \<Longrightarrow> k' \<in> classes \<Longrightarrow> p \<in> set (L c k) \<Longrightarrow> p \<in> set (L c' k') \<Longrightarrow>
      c = c' \<and> k = k'"
  using assms unfolding slab_rel_def by blast+

lemma slab_rel_page_at:
  "slab_rel s L F \<Longrightarrow> c < 8 \<Longrightarrow> k \<in> classes \<Longrightarrow> p \<in> set (L c k) \<Longrightarrow> page_at p"
  using owned_page_at slab_relD(1,8) unfolding page_ok_def by blast

text \<open>A change confined to one page.\<close>

lemma slab_rel_page:
  assumes rel: "slab_rel s L F" and p: "c < 8" "k \<in> classes" "p \<in> set (L c k)"
    and same: "sl_bbma s' = sl_bbma s" "cpu_own_area s' = cpu_own_area s"
      "\<And>a. slab_lock (stick s' a) = 0" "\<And>a. next_slab_stick (stick s' a) = next_slab_stick (stick s a)"
      "\<And>a. a \<noteq> p \<Longrightarrow> stick s' a = stick s a"
      "\<And>b. b \<notin> set (page_blocks p k) \<Longrightarrow> next_free s' b = next_free s b"
    and ok: "page_ok s' F' k p" "\<And>q. q \<noteq> p \<Longrightarrow> F' q = F q"
  shows "slab_rel s' L F'"
proof -
  have other: "page_ok s' F' l q" if q: "d < 8" "l \<in> classes" "q \<in> set (L d l)" "q \<noteq> p" for d l q
  proof -
    have ok': "page_ok s F l q" using slab_relD(8) [OF rel q(1-3)] .
    have "next_free s' b = next_free s b" if "b \<in> set (F q)" for b
      using that ok' blocks_disjoint_pages [of b p k q l] slab_rel_page_at [OF rel q(1-3)]
        slab_rel_page_at [OF rel p] p(2) q(2,4) same(6) [of b] by (auto simp: page_ok_def)
    then have "linked (next_free s') a (F q) = linked (next_free s) a (F q)" for a
      by (rule linked_cong)
    then show ?thesis using ok' same(1,5) ok(2) q(4) by (simp add: page_ok_def)
  qed
  show ?thesis
    unfolding slab_rel_def same(1,2,4)
    using rel other p(1,2) ok(1) same(3) slab_relD(9) [OF rel _ _ p(1,2) _ p(3)]
    unfolding slab_rel_def by (intro conjI) blast+
qed

section \<open>The walk over the pages\<close>

lemma upd_stick_fields [simp]:
  "sl_bbma (upd_stick s a f) = sl_bbma s" "cpu_own_area (upd_stick s a f) = cpu_own_area s"
  "next_free (upd_stick s a f) = next_free s" "stick (upd_stick s a f) = (stick s)(a := f (stick s a))"
  by (simp_all add: upd_stick_def)

lemma upd_stick_twice: "upd_stick (upd_stick s a f) a g = upd_stick s a (g \<circ> f)"
  by (simp add: upd_stick_def)

lemma upd_stick_id: "f (stick s a) = stick s a \<Longrightarrow> upd_stick s a f = s"
  by (simp add: upd_stick_def)

lemma find_page_loop_eq:
  "\<forall>a. slab_lock (stick s a) = 0 \<Longrightarrow> linked (\<lambda>p. next_slab_stick (stick s p)) a ps \<Longrightarrow> length ps < fuel \<Longrightarrow>
   find_page_loop fuel s a =
     (case find (\<lambda>p. current_slab_free_space (stick s p) \<noteq> 0) ps of
        None \<Rightarrow> Inr (0, s) | Some p \<Rightarrow> Inr (p, upd_stick s p (slab_lock_update (\<lambda>_. 1))))"
proof (induction ps arbitrary: a fuel)
  case Nil
  then show ?case by (cases fuel) auto
next
  case (Cons p ps)
  obtain m where m: "fuel = Suc m" using Cons.prems(3) by (cases fuel) auto
  have "upd_stick (upd_stick s p (slab_lock_update (\<lambda>_. 1))) p (slab_lock_update spin_unlock) = s"
    using Cons.prems(1) by (simp only: upd_stick_twice) (simp add: upd_stick_id)
  then show ?case
    using Cons m by (auto simp: spin_lock_eq Let_def)
qed

lemma pages_bounded:
  assumes "slab_rel s L F" and "c < 8" and "k \<in> classes"
  shows "length (L c k) < SLAB_FUEL"
proof -
  let ?B = "unat (begin_alloc_addr (bb_base (sl_bbma s)))"
  have inv: "bbma_inv (sl_bbma s)" using slab_relD(1) [OF assms(1)] .
  have num: "tree_num (sl_bbma s) \<le> 32" using inv by (simp add: bbma_inv_def)
  have pages: "4096 dvd unat p \<and> ?B \<le> unat p \<and> unat p < ?B + 2 ^ 29" if "p \<in> set (L c k)" for p
  proof -
    have "(unat p, 0) \<in> owned (sl_bbma s)"
      using slab_relD(8) [OF assms that] by (simp add: page_ok_def)
    note b = owned_bounds [OF inv this]
    have "tree_num (sl_bbma s) * 2 ^ 24 \<le> 32 * 2 ^ 24" using num by (intro mult_le_mono1)
    then show ?thesis using b by simp
  qed
  have inj: "inj_on (\<lambda>p. unat p div 4096) (set (L c k))"
  proof (rule inj_onI)
    fix p q assume pq: "p \<in> set (L c k)" "q \<in> set (L c k)" and eq: "unat p div 4096 = unat q div 4096"
    have "unat p = 4096 * (unat p div 4096)" "unat q = 4096 * (unat q div 4096)"
      using pages [OF pq(1)] pages [OF pq(2)] by simp_all
    then have "unat p = unat q" using eq by argo
    then show "p = q" by (simp only: word_unat_eq_iff)
  qed
  have "(\<lambda>p. unat p div 4096) ` set (L c k) \<subseteq> {?B div 4096..(?B + 2 ^ 29) div 4096}"
  proof (rule image_subsetI)
    fix p assume "p \<in> set (L c k)"
    then have "?B \<le> unat p" "unat p \<le> ?B + 2 ^ 29" using pages less_imp_le by blast+
    then show "unat p div 4096 \<in> {?B div 4096..(?B + 2 ^ 29) div 4096}"
      by (simp only: atLeastAtMost_iff div_le_mono)
  qed
  then have "card (set (L c k)) \<le> card {?B div 4096..(?B + 2 ^ 29) div 4096}"
    using card_inj_on_le [OF inj] by blast
  also have "\<dots> \<le> 131073"
  proof -
    have "(?B + 2 ^ 29) div 4096 = ?B div 4096 + 131072" by (simp add: div_add)
    then show ?thesis by simp
  qed
  finally show ?thesis
    using distinct_card [OF slab_relD(6) [OF assms]] by (simp add: SLAB_FUEL_def)
qed

lemma area_slot_eq:
  "slab_rel s L F \<Longrightarrow> c < 8 \<Longrightarrow> k \<in> classes \<Longrightarrow> area_slot s c k = Inr (cpu_own_area s ! c ! (k - 5))"
  using slab_relD(3,4) [of s L F] by (auto simp: area_slot_def slab_consts classes_def)

lemma find_page_eq:
  assumes "slab_rel s L F" and "c < 8" and "k \<in> classes"
  shows "find_the_avaliable_page_in_slab_and_lock s c k =
     (case find (\<lambda>p. F p \<noteq> []) (L c k) of
        None \<Rightarrow> Inr (0, s) | Some p \<Rightarrow> Inr (p, upd_stick s p (slab_lock_update (\<lambda>_. 1))))"
proof -
  note lk = slab_relD(7) [OF assms]
  have len: "p \<in> set (L c k) \<Longrightarrow> (current_slab_free_space (stick s p) \<noteq> 0) = (F p \<noteq> [])" for p
    using slab_relD(8) [OF assms] by (simp add: page_ok_def)
  have "find (\<lambda>p. current_slab_free_space (stick s p) \<noteq> 0) (L c k) = find (\<lambda>p. F p \<noteq> []) (L c k)"
    using len by (intro find_cong) auto
  moreover have "cpu_own_area s ! c ! (k - 5) = 0 \<Longrightarrow> L c k = []" using lk by (simp add: linked_null)
  ultimately show ?thesis
    using find_page_loop_eq [OF _ lk pages_bounded [OF assms]] slab_relD(5) [OF assms(1)] area_slot_eq [OF assms]
    by (auto simp: find_the_avaliable_page_in_slab_and_lock_def)
qed

section \<open>Taking a block\<close>

lemma find_free_space_some:
  assumes rel: "slab_rel s L F" and c: "c < 8" "k \<in> classes"
    and f: "find (\<lambda>p. F p \<noteq> []) (L c k) = Some p"
  shows "\<exists>s' b. find_the_free_space_in_slab s c k = Inr (b, s') \<and> slab_rel s' L (F(p := tl (F p))) \<and>
      b = hd (F p) \<and> F p \<noteq> [] \<and> p \<in> set (L c k) \<and> sl_bbma s' = sl_bbma s"
proof -
  have p: "p \<in> set (L c k)" "F p \<noteq> []" using f by (auto simp: find_Some_iff)
  obtain b bs where b: "F p = b # bs" using p(2) by (cases "F p") auto
  have ok: "page_ok s F k p" using slab_relD(8) [OF rel c p(1)] .
  have hd: "current_slab_free_block_list (stick s p) = b" "b \<noteq> 0" "linked (next_free s) (next_free s b) bs"
    using ok b by (auto simp: page_ok_def)
  have nz: "p \<noteq> 0" using slab_rel_page_at [OF rel c p(1)] by (auto simp: page_at_def)
  let ?g = "\<lambda>st. st\<lparr>slab_lock := 0, current_slab_free_block_list := next_free s b, current_slab_free_space := length bs\<rparr>"
  let ?s = "upd_stick s p ?g"
  have upd: "slab_lock_update spin_unlock (current_slab_free_space_update (\<lambda>n. n - 1)
      (current_slab_free_block_list_update (\<lambda>_. next_free s b) (slab_lock_update (\<lambda>_. 1) (stick s p)))) = ?g (stick s p)"
    using ok b by (simp add: page_ok_def)
  have res: "find_the_free_space_in_slab s c k = Inr (b, ?s)"
    using find_page_eq [OF rel c] f nz hd ok b upd
    by (simp add: find_the_free_space_in_slab_def Let_def page_ok_def) (simp add: upd_stick_def, cases "stick s p", simp)
  have "page_ok ?s (F(p := bs)) k p" using ok b hd by (simp add: page_ok_def)
  then have "slab_rel ?s L (F(p := bs))"
    using slab_relD(5) [OF rel] by (intro slab_rel_page [OF rel c p(1)]) auto
  then show ?thesis using res b p by (intro exI [of _ ?s] exI [of _ b]) simp
qed

lemma find_free_space_none:
  assumes rel: "slab_rel s L F" and c: "c < 8" "k \<in> classes"
    and f: "find (\<lambda>p. F p \<noteq> []) (L c k) = None"
  shows "find_the_free_space_in_slab s c k = Inr (0, s)"
  using find_page_eq [OF rel c] f by (simp add: find_the_free_space_in_slab_def)

section \<open>A new page\<close>

lemma blocks_shift:
  "map (\<lambda>j. a + of_nat (j * 2 ^ k)) [0..<Suc n] = a # map (\<lambda>j. (a + push_bit k 1) + of_nat (j * 2 ^ k)) [0..<n]"
  for a :: addr
  by (simp add: upt_conv_Cons map_Suc_upt [symmetric] algebra_simps del: upt_Suc)

lemma link_blocks_fields:
  "sl_bbma (link_blocks s p k n a) = sl_bbma s \<and> cpu_own_area (link_blocks s p k n a) = cpu_own_area s \<and>
   (\<forall>q. q \<noteq> p \<longrightarrow> stick (link_blocks s p k n a) q = stick s q) \<and>
   (\<exists>v. stick (link_blocks s p k n a) p = (stick s p)\<lparr>current_slab_free_block_list := v\<rparr>) \<and>
   (\<forall>b. b \<notin> set (map (\<lambda>j. a + of_nat (j * 2 ^ k)) [0..<n]) \<longrightarrow> next_free (link_blocks s p k n a) b = next_free s b)"
proof (induction s p k n a rule: link_blocks.induct)
  case (1 s p k a)
  have "stick s p = (stick s p)\<lparr>current_slab_free_block_list := current_slab_free_block_list (stick s p)\<rparr>"
    by simp
  then have "\<exists>v. stick s p = (stick s p)\<lparr>current_slab_free_block_list := v\<rparr>" by (rule exI)
  then show ?case by simp
next
  case (2 s p k n a)
  show ?case
    using "2.IH" [OF refl refl] unfolding blocks_shift by (auto simp: Let_def)
qed

lemma link_blocks_linked:
  "linked (next_free s) (current_slab_free_block_list (stick s p)) bs \<Longrightarrow>
   distinct (map (\<lambda>j. a + of_nat (j * 2 ^ k)) [0..<n]) \<Longrightarrow>
   0 \<notin> set (map (\<lambda>j. a + of_nat (j * 2 ^ k)) [0..<n]) \<Longrightarrow>
   set (map (\<lambda>j. a + of_nat (j * 2 ^ k)) [0..<n]) \<inter> set bs = {} \<Longrightarrow>
   linked (next_free (link_blocks s p k n a)) (current_slab_free_block_list (stick (link_blocks s p k n a) p))
     (rev (map (\<lambda>j. a + of_nat (j * 2 ^ k)) [0..<n]) @ bs)"
proof (induction s p k n a arbitrary: bs rule: link_blocks.induct)
  case (2 s p k n a)
  let ?v = "current_slab_free_block_list (stick s p)"
  have a: "a \<notin> set bs" using "2.prems"(4) unfolding blocks_shift by simp
  have l: "linked ((next_free s)(a := ?v)) ?v bs" using "2.prems"(1) a by simp
  then show ?case
    using "2.IH" [OF refl refl, of "a # bs"] "2.prems" unfolding blocks_shift
    by (simp add: Let_def fun_upd_def)
qed simp

lemma class_cases:
  assumes "k \<in> classes"
  obtains "k = 5" | "k = 6" | "k = 7" | "k = 8" | "k = 9" | "k = 10" | "k = 11"
proof -
  have "k = 5 \<or> k = 6 \<or> k = 7 \<or> k = 8 \<or> k = 9 \<or> k = 10 \<or> k = 11"
    using assms unfolding classes_def by auto
  then show ?thesis using that by blast
qed

lemma class_align:
  assumes "k \<in> classes" shows "align_to SLAB_STICK_SIZE k = Inr (2 ^ k)"
  using assms by (cases rule: class_cases) (simp_all add: align_to_def align_unit_def slab_consts)

lemma class_count:
  assumes "k \<in> classes" shows "unat (drop_bit k (SLAB_REQUEST_SPACE - 2 ^ k)) = 2 ^ (12 - k) - 1"
  using assms by (cases rule: class_cases) (simp_all add: slab_consts unat_drop_bit)

lemma page_blocks_shift:
  assumes "k \<in> classes"
  shows "map (\<lambda>j. (p + 2 ^ k) + of_nat (j * 2 ^ k)) [0..<2 ^ (12 - k) - 1] = page_blocks p k"
proof -
  have "[1..<2 ^ (12 - k)] = map Suc [0..<2 ^ (12 - k) - 1]"
    using class_power(4) [OF assms] by (simp add: map_Suc_upt)
  then show ?thesis by (simp add: page_blocks_def algebra_simps)
qed

lemma page_aligned:
  assumes "page_at p" shows "is_align_to p 12 = Inr True" and "p AND (SLAB_REQUEST_SPACE - 1) = 0" and "p \<noteq> 0"
proof -
  show "is_align_to p 12 = Inr True" using assms by (simp add: is_align_to_small page_at_def)
  have "(SLAB_REQUEST_SPACE - 1 :: u64) = mask 12" by (simp add: slab_consts mask_eq_exp_minus_1)
  then show "p AND (SLAB_REQUEST_SPACE - 1) = 0" using assms by (simp add: and_mask_eq_0_iff page_at_def)
  show "p \<noteq> 0" using assms by (auto simp: page_at_def)
qed

lemma init_page:
  assumes p: "page_at p" and k: "k \<in> classes"
  shows "\<exists>s'. initialize_a_slab_new_page s k p = Inr s' \<and>
     sl_bbma s' = sl_bbma s \<and> cpu_own_area s' = cpu_own_area s \<and>
     (\<forall>q. q \<noteq> p \<longrightarrow> stick s' q = stick s q) \<and>
     slab_lock (stick s' p) = slab_lock (stick s p) \<and> next_slab_stick (stick s' p) = next_slab_stick (stick s p) \<and>
     current_slab_free_space (stick s' p) = 2 ^ (12 - k) - 1 \<and>
     (\<forall>b. b \<notin> set (page_blocks p k) \<longrightarrow> next_free s' b = next_free s b) \<and>
     linked (next_free s') (current_slab_free_block_list (stick s' p)) (rev (page_blocks p k))"
proof -
  let ?n = "2 ^ (12 - k) - 1 :: nat"
  let ?s1 = "upd_stick s p (\<lambda>st. st\<lparr>current_slab_free_space := ?n, current_slab_free_block_list := 0\<rparr>)"
  let ?s = "link_blocks ?s1 p k ?n (p + 2 ^ k)"
  have k11: "k \<le> S_2KB" using k by (simp add: classes_def slab_consts)
  have small: "(2 :: u64) ^ k \<le> push_bit S_2KB 1"
    using k by (cases rule: class_cases) (simp_all add: slab_consts)
  have res: "initialize_a_slab_new_page s k p = Inr ?s"
    using page_aligned(1) [OF p] k11 class_align [OF k] small class_count [OF k]
    by (simp add: initialize_a_slab_new_page_def Let_def)
  note shift = page_blocks_shift [OF k, of p]
  note fields = link_blocks_fields [of ?s1 p k ?n "p + 2 ^ k", unfolded shift]
  have nz: "0 \<notin> set (page_blocks p k)" using page_blocks_in(5) [OF _ p k] by blast
  have "linked (next_free ?s) (current_slab_free_block_list (stick ?s p)) (rev (page_blocks p k) @ [])"
    using link_blocks_linked [of ?s1 p "[]" "p + 2 ^ k" k ?n, unfolded shift] nz page_blocks_distinct [OF p k]
    by simp
  moreover obtain v where sp: "stick ?s p = (stick ?s1 p)\<lparr>current_slab_free_block_list := v\<rparr>"
    using fields by blast
  moreover have "slab_lock (stick ?s p) = slab_lock (stick s p)" "next_slab_stick (stick ?s p) = next_slab_stick (stick s p)"
    "current_slab_free_space (stick ?s p) = ?n"
    unfolding sp by simp_all
  moreover have "\<forall>q. q \<noteq> p \<longrightarrow> stick ?s q = stick s q"
    using fields [THEN conjunct2, THEN conjunct2, THEN conjunct1] by simp
  moreover have "sl_bbma ?s = sl_bbma s" "cpu_own_area ?s = cpu_own_area s"
    "\<forall>b. b \<notin> set (page_blocks p k) \<longrightarrow> next_free ?s b = next_free s b"
    using fields unfolding upd_stick_fields by blast+
  ultimately show ?thesis using res by (intro exI [of _ ?s]) (simp only: append_Nil2)
qed

text \<open>The buddy allocator may change underneath as long as it keeps the pages.\<close>

lemma slab_rel_bbma:
  assumes rel: "slab_rel s L F" and bb: "bbma_inv bb" "tree_locks bb = replicate 33 0"
    and pages: "\<And>p. is_slab L p \<Longrightarrow> (unat p, 0) \<in> owned bb"
  shows "slab_rel (s\<lparr>sl_bbma := bb\<rparr>) L F"
proof -
  have "page_ok (s\<lparr>sl_bbma := bb\<rparr>) F k p" if "c < 8" "k \<in> classes" "p \<in> set (L c k)" for c k p
    using slab_relD(8) [OF rel that] pages [of p] that by (auto simp: page_ok_def is_slab_def)
  then show ?thesis using rel bb unfolding slab_rel_def by simp
qed

lemma slab_page_owned: "slab_rel s L F \<Longrightarrow> is_slab L p \<Longrightarrow> (unat p, 0) \<in> owned (sl_bbma s)"
  using slab_relD(8) unfolding is_slab_def page_ok_def by blast

definition add_page :: "(nat \<Rightarrow> nat \<Rightarrow> addr list) \<Rightarrow> nat \<Rightarrow> nat \<Rightarrow> addr \<Rightarrow> nat \<Rightarrow> nat \<Rightarrow> addr list" where
  "add_page L c k p = (\<lambda>d l. if d = c \<and> l = k then p # L c k else L d l)"

lemma is_slab_add_page: "c < 8 \<Longrightarrow> k \<in> classes \<Longrightarrow> is_slab (add_page L c k p) q \<longleftrightarrow> q = p \<or> is_slab L q"
  unfolding is_slab_def add_page_def by auto

lemma slab_rel_new:
  assumes rel: "slab_rel s L F" and c: "c < 8" "k \<in> classes"
    and bb: "bbma_inv (sl_bbma s')" "tree_locks (sl_bbma s') = replicate 33 0"
      "owned (sl_bbma s') = insert (unat p, 0) (owned (sl_bbma s))" "(unat p, 0) \<notin> owned (sl_bbma s)"
    and area: "cpu_own_area s' = (cpu_own_area s)[c := (cpu_own_area s ! c)[k - 5 := p]]"
    and st: "\<And>q. q \<noteq> p \<Longrightarrow> stick s' q = stick s q" "slab_lock (stick s' p) = 0"
      "next_slab_stick (stick s' p) = cpu_own_area s ! c ! (k - 5)"
      "current_slab_free_space (stick s' p) = 2 ^ (12 - k) - 1"
    and nf: "\<And>b. b \<notin> set (page_blocks p k) \<Longrightarrow> next_free s' b = next_free s b"
      "linked (next_free s') (current_slab_free_block_list (stick s' p)) (rev (page_blocks p k))"
  shows "slab_rel s' (add_page L c k p) (F(p := rev (page_blocks p k)))"
    (is "slab_rel s' ?L ?F")
proof -
  have p: "page_at p" using owned_page_at [OF bb(1)] bb(3) by simp
  have pnz: "p \<noteq> 0" using p by (auto simp: page_at_def)
  have new: "p \<notin> set (L d l)" if "d < 8" "l \<in> classes" for d l
    using bb(4) slab_relD(8) [OF rel that] by (auto simp: page_ok_def)
  have k: "k - 5 < 7" using c(2) by (auto simp: classes_def)
  have okp: "page_ok s' ?F k p"
    using bb(3) nf(2) st(4) page_blocks_distinct [OF p c(2)] by (simp add: page_ok_def page_blocks_def)
  have oldok: "page_ok s' ?F l q" if q: "d < 8" "l \<in> classes" "q \<in> set (L d l)" for d l q
  proof -
    have ok: "page_ok s F l q" and ne: "q \<noteq> p" using slab_relD(8) [OF rel q] new [OF q(1,2)] q(3) by auto
    have "next_free s' b = next_free s b" if "b \<in> set (F q)" for b
      using that ok blocks_disjoint_pages [of b p k q l] slab_rel_page_at [OF rel q] p c(2) q(2) ne nf(1)
      by (auto simp: page_ok_def)
    then have "linked (next_free s') a (F q) = linked (next_free s) a (F q)" for a
      by (rule linked_cong)
    then show ?thesis using ok st(1) [OF ne] bb(3) ne by (simp add: page_ok_def)
  qed
  have chain: "linked (\<lambda>p. next_slab_stick (stick s' p)) a (L d l) \<longleftrightarrow> linked (\<lambda>p. next_slab_stick (stick s p)) a (L d l)"
    if "d < 8" "l \<in> classes" for a d l
    using new [OF that] st(1) by (intro linked_cong) metis
  have list: "distinct (?L d l) \<and> linked (\<lambda>p. next_slab_stick (stick s' p)) (cpu_own_area s' ! d ! (l - 5)) (?L d l) \<and>
      (\<forall>q \<in> set (?L d l). page_ok s' ?F l q)" if dl: "d < 8" "l \<in> classes" for d l
  proof (cases "d = c \<and> l = k")
    case True
    then show ?thesis
      using slab_relD(3,4,6,7) [OF rel] c k area new [OF c] chain [OF c] st(3) pnz okp oldok [OF c]
      by (simp add: add_page_def)
  next
    case False
    have "cpu_own_area s' ! d ! (l - 5) = cpu_own_area s ! d ! (l - 5)"
      using False area slab_relD(3) [OF rel] dl c by (auto simp: nth_list_update classes_def)
    then show ?thesis
      using False slab_relD(6,7) [OF rel dl] chain [OF dl] oldok [OF dl] unfolding add_page_def by auto
  qed
  have uniq: "d = e \<and> l = m" if "d < 8" "l \<in> classes" "e < 8" "m \<in> classes" "q \<in> set (?L d l)" "q \<in> set (?L e m)" for d l e m q
    using that slab_relD(9) [OF rel that(1-4), of q] new [OF that(1,2)] new [OF that(3,4)]
    by (auto simp: add_page_def split: if_splits)
  have lens: "length (cpu_own_area s') = 8" "\<forall>d < 8. length (cpu_own_area s' ! d) = 7"
    unfolding area using slab_relD(3,4) [OF rel] c(1) by (simp_all add: nth_list_update)
  have locks: "\<forall>a. slab_lock (stick s' a) = 0"
    using st(1,2) slab_relD(5) [OF rel] by metis
  show ?thesis
    unfolding slab_rel_def using bb(1,2) lens locks list uniq by blast
qed

lemma request_slab:
  assumes rel: "slab_rel s L F" and c: "c < 8" "k \<in> classes"
  shows "\<exists>q s'. request_a_slab_from_bbma s c k = Inr (q, s') \<and>
    (q = 0 \<and> s' = s \<or>
     (\<exists>p. (unat p, 0) \<notin> owned (sl_bbma s) \<and> owned (sl_bbma s') = insert (unat p, 0) (owned (sl_bbma s)) \<and>
        q = last (page_blocks p k) \<and> q \<in> set (page_blocks p k) \<and>
        slab_rel s' (add_page L c k p) (F(p := tl (rev (page_blocks p k))))))"
proof -
  have size: "determine_bbma_size SLAB_REQUEST_SPACE = 12" by (simp add: determine_bbma_size_def slab_consts)
  obtain p bb where alloc: "bbma_alloc (sl_bbma s) SLAB_REQUEST_SPACE = Inr (p, bb)" "bbma_inv bb"
      "alloc_effect (sl_bbma s) SLAB_REQUEST_SPACE p bb" "tree_locks bb = tree_locks (sl_bbma s)"
    using bbma_alloc_effect [OF slab_relD(1) [OF rel]] by blast
  show ?thesis
  proof (cases "p = 0")
    case True
    then have "bb = sl_bbma s" using alloc(3) by (auto simp: alloc_effect_def)
    then show ?thesis using True alloc(1) by (simp add: request_a_slab_from_bbma_def)
  next
    case False
    then have own: "(unat p, 0) \<notin> owned (sl_bbma s)" "owned bb = insert (unat p, 0) (owned (sl_bbma s))"
      using alloc(3) size by (auto simp: alloc_effect_def)
    have p: "page_at p" using owned_page_at [OF alloc(2)] own by simp
    let ?head = "cpu_own_area s ! c ! (k - 5)"
    let ?s1 = "s\<lparr>sl_bbma := bb\<rparr>"
    have rel1: "slab_rel ?s1 L F"
      using slab_rel_bbma [OF rel alloc(2)] alloc(4) slab_relD(2) [OF rel] slab_page_owned [OF rel] own by auto
    let ?s2 = "upd_stick ?s1 p (next_slab_stick_update (\<lambda>_. ?head))"
    let ?s3 = "?s2\<lparr>cpu_own_area := (cpu_own_area ?s2)[c := (cpu_own_area ?s2 ! c)[k - CPU_FIND_SLAB_OFFSET := p]]\<rparr>"
    obtain s4 where s4: "initialize_a_slab_new_page ?s3 k p = Inr s4"
      "sl_bbma s4 = sl_bbma ?s3" "cpu_own_area s4 = cpu_own_area ?s3" "\<forall>q. q \<noteq> p \<longrightarrow> stick s4 q = stick ?s3 q"
      "slab_lock (stick s4 p) = slab_lock (stick ?s3 p)" "next_slab_stick (stick s4 p) = next_slab_stick (stick ?s3 p)"
      "current_slab_free_space (stick s4 p) = 2 ^ (12 - k) - 1"
      "\<forall>b. b \<notin> set (page_blocks p k) \<longrightarrow> next_free s4 b = next_free ?s3 b"
      "linked (next_free s4) (current_slab_free_block_list (stick s4 p)) (rev (page_blocks p k))"
      using init_page [OF p c(2), of ?s3] by blast
    have rel4: "slab_rel s4 (add_page L c k p) (F(p := rev (page_blocks p k)))"
      using own alloc(2,4) s4 slab_relD(2,5) [OF rel]
      by (intro slab_rel_new [OF rel c]) (simp_all add: CPU_FIND_SLAB_OFFSET_def)
    have blocks: "page_blocks p k \<noteq> []" using class_power(4) [OF c(2)] by (simp add: page_blocks_def)
    have f: "find (\<lambda>q. (F(p := rev (page_blocks p k))) q \<noteq> []) (add_page L c k p c k) = Some p"
      using blocks by (simp add: add_page_def)
    obtain s' where s': "find_the_free_space_in_slab s4 c k = Inr (last (page_blocks p k), s')"
      "slab_rel s' (add_page L c k p) (F(p := tl (rev (page_blocks p k))))" "sl_bbma s' = sl_bbma s4"
      using find_free_space_some [OF rel4 c f] unfolding fun_upd_upd fun_upd_same hd_rev [of "page_blocks p k"]
      by blast
    have res: "request_a_slab_from_bbma s c k = Inr (last (page_blocks p k), s')"
      using alloc(1) page_aligned(2,3) [OF p] area_slot_eq [OF rel1 c] s4(1) s'(1)
      by (simp add: request_a_slab_from_bbma_def Let_def)
    show ?thesis
      using res s'(2,3) own s4(2) blocks by (intro exI [of _ "last (page_blocks p k)"] exI [of _ s']) auto
  qed
qed

section \<open>What a client holds\<close>

lemma small_liveE:
  assumes "x \<in> small_live L F" and "slab_rel s L F"
  obtains b k c p where "x = (unat b, 2 ^ k)" "c < 8" "k \<in> classes" "p \<in> set (L c k)"
    "b \<in> set (page_blocks p k)" "b \<notin> set (F p)" "page_at p" "(unat p, 0) \<in> owned (sl_bbma s)"
proof -
  obtain b k c p where x: "x = (unat b, 2 ^ k)" "c < 8" "k \<in> classes" "p \<in> set (L c k)"
    "b \<in> set (page_blocks p k)" "b \<notin> set (F p)"
    using assms(1) unfolding small_live_def by blast
  show ?thesis
    using that [OF x] slab_rel_page_at [OF assms(2) x(2-4)] slab_relD(8) [OF assms(2) x(2-4)]
    by (simp add: page_ok_def)
qed

lemma small_live_in:
  assumes rel: "slab_rel s L F" and p: "c < 8" "k \<in> classes" "p \<in> set (L c k)" "b \<in> set (page_blocks p k)"
  shows "(unat b, 2 ^ k) \<in> small_live L F \<longleftrightarrow> b \<notin> set (F p)"
proof
  assume "(unat b, 2 ^ k) \<in> small_live L F"
  then obtain b' k' c' p' where x: "(unat b, (2 :: nat) ^ k) = (unat b', 2 ^ k')" "c' < 8" "k' \<in> classes" "p' \<in> set (L c' k')"
    "b' \<in> set (page_blocks p' k')" "b' \<notin> set (F p')" "page_at p'"
    by (rule small_liveE [OF _ rel]) auto
  have b': "b' = b" using x(1) by (simp add: word_unat_eq_iff)
  have "p' = p"
    using blocks_disjoint_pages [of b p' k' p k] x(3,5,7) b' slab_rel_page_at [OF rel p(1-3)] p(2,4) by simp
  then show "b \<notin> set (F p)" using x(6) b' by simp
qed (use p in \<open>auto simp: small_live_def\<close>)

lemma small_live_upd:
  assumes rel: "slab_rel s L F" and p: "c < 8" "k \<in> classes" "p \<in> set (L c k)"
  shows "small_live L (F(p := fs)) =
     (small_live L F - (\<lambda>b. (unat b, 2 ^ k)) ` set (page_blocks p k)) \<union>
     (\<lambda>b. (unat b, 2 ^ k)) ` (set (page_blocks p k) - set fs)"
proof (intro set_eqI iffI)
  fix x assume "x \<in> small_live L (F(p := fs))"
  then obtain b l d q where x: "x = (unat b, 2 ^ l)" "d < 8" "l \<in> classes" "q \<in> set (L d l)"
    "b \<in> set (page_blocks q l)" "b \<notin> set ((F(p := fs)) q)"
    unfolding small_live_def by blast
  show "x \<in> (small_live L F - (\<lambda>b. (unat b, 2 ^ k)) ` set (page_blocks p k)) \<union>
     (\<lambda>b. (unat b, 2 ^ k)) ` (set (page_blocks p k) - set fs)"
  proof (cases "q = p")
    case True
    then have "l = k" using slab_relD(9) [OF rel x(2,3) p(1,2) x(4)] p(3) by simp
    then show ?thesis using True x by auto
  next
    case False
    have "x \<in> small_live L F" using x False small_live_in [OF rel x(2-5)] by simp
    moreover have "x \<notin> (\<lambda>b. (unat b, 2 ^ k)) ` set (page_blocks p k)"
      using blocks_disjoint_pages [of b q l p k] slab_rel_page_at [OF rel x(2-4)] slab_rel_page_at [OF rel p]
        x(1,3,5) p(2) False by (auto simp: word_unat_eq_iff [symmetric])
    ultimately show ?thesis by blast
  qed
next
  fix x assume "x \<in> (small_live L F - (\<lambda>b. (unat b, 2 ^ k)) ` set (page_blocks p k)) \<union>
     (\<lambda>b. (unat b, 2 ^ k)) ` (set (page_blocks p k) - set fs)"
  then show "x \<in> small_live L (F(p := fs))"
  proof
    assume a: "x \<in> small_live L F - (\<lambda>b. (unat b, 2 ^ k)) ` set (page_blocks p k)"
    then obtain b l d q where x: "x = (unat b, 2 ^ l)" "d < 8" "l \<in> classes" "q \<in> set (L d l)"
      "b \<in> set (page_blocks q l)" "b \<notin> set (F q)"
      unfolding small_live_def by blast
    have "q \<noteq> p" using a x slab_relD(9) [OF rel x(2,3) p(1,2) x(4)] p(3) by auto
    then show ?thesis using x unfolding small_live_def by fastforce
  next
    assume "x \<in> (\<lambda>b. (unat b, 2 ^ k)) ` (set (page_blocks p k) - set fs)"
    then show ?thesis using p unfolding small_live_def by fastforce
  qed
qed

lemma small_live_take:
  assumes rel: "slab_rel s L F" and p: "c < 8" "k \<in> classes" "p \<in> set (L c k)" and F: "F p = b # bs"
  shows "small_live L (F(p := bs)) = insert (unat b, 2 ^ k) (small_live L F)"
    and "(unat b, 2 ^ k) \<notin> small_live L F"
proof -
  have ok: "set (b # bs) \<subseteq> set (page_blocks p k)" "distinct (b # bs)"
    using slab_relD(8) [OF rel p] F by (simp_all add: page_ok_def)
  show "(unat b, 2 ^ k) \<notin> small_live L F" using small_live_in [OF rel p, of b] ok F by simp
  have split: "set (page_blocks p k) - set bs = insert b (set (page_blocks p k) - set (F p))"
    using ok unfolding F by auto
  show "small_live L (F(p := bs)) = insert (unat b, 2 ^ k) (small_live L F)"
    unfolding small_live_upd [OF rel p, of bs] split image_insert Un_insert_right
    using small_live_upd [OF rel p, of "F p"] by (simp only: fun_upd_triv)
qed

lemma small_live_give:
  assumes rel: "slab_rel s L F" and p: "c < 8" "k \<in> classes" "p \<in> set (L c k)"
    and b: "b \<in> set (page_blocks p k)" "b \<notin> set (F p)"
  shows "small_live L (F(p := b # F p)) = small_live L F - {(unat b, 2 ^ k)}"
proof -
  let ?g = "\<lambda>b. (unat b, 2 ^ k)" and ?B = "set (page_blocks p k)"
  have "small_live L F = (small_live L F - ?g ` ?B) \<union> ?g ` (?B - set (F p))"
    using small_live_upd [OF rel p, of "F p"] by (simp only: fun_upd_triv)
  moreover have "?g ` (?B - set (b # F p)) = ?g ` (?B - set (F p)) - {?g b}"
  proof -
    have "inj ?g" by (rule injI) (simp add: word_unat_eq_iff)
    then have "?g ` (?B - set (F p) - {b}) = ?g ` (?B - set (F p)) - ?g ` {b}" by (rule image_set_diff)
    moreover have "?B - set (b # F p) = ?B - set (F p) - {b}" by auto
    ultimately show ?thesis by simp
  qed
  moreover have "?g b \<in> ?g ` ?B" using b(1) by (rule imageI)
  ultimately show ?thesis unfolding small_live_upd [OF rel p, of "b # F p"] by blast
qed

lemma small_live_add:
  assumes rel: "slab_rel s L F" and p: "c < 8" "k \<in> classes" "\<not> is_slab L p" "page_at p"
    and b: "page_blocks p k = bs @ [b]"
  shows "small_live (add_page L c k p) (F(p := rev bs)) = insert (unat b, 2 ^ k) (small_live L F)"
    (is "?A = ?B")
proof -
  have old: "q \<noteq> p" if "d < 8" "l \<in> classes" "q \<in> set (L d l)" for d l q
    using that p(3) unfolding is_slab_def by blast
  show ?thesis
  proof (intro set_eqI iffI)
    fix x assume "x \<in> ?A"
    then obtain b' l d q where x: "x = (unat b', 2 ^ l)" "d < 8" "l \<in> classes" "q \<in> set (add_page L c k p d l)"
      "b' \<in> set (page_blocks q l)" "b' \<notin> set ((F(p := rev bs)) q)"
      unfolding small_live_def by blast
    show "x \<in> ?B"
    proof (cases "q \<in> set (L d l)")
      case True
      then show ?thesis using x old [OF x(2,3)] unfolding small_live_def by fastforce
    next
      case False
      then have "q = p \<and> d = c \<and> l = k" using x(4) by (auto simp: add_page_def split: if_splits)
      then show ?thesis using x b by auto
    qed
  next
    fix x assume "x \<in> ?B"
    then show "x \<in> ?A"
    proof
      assume x: "x = (unat b, 2 ^ k)"
      have "p \<in> set (add_page L c k p c k)" by (simp add: add_page_def)
      moreover have "b \<notin> set bs" "b \<in> set (page_blocks p k)" using b page_blocks_distinct [OF p(4,2)] by simp_all
      ultimately show ?thesis using x p unfolding small_live_def by fastforce
    next
      assume "x \<in> small_live L F"
      then obtain b' l d q where x: "x = (unat b', 2 ^ l)" "d < 8" "l \<in> classes" "q \<in> set (L d l)"
        "b' \<in> set (page_blocks q l)" "b' \<notin> set (F q)"
        unfolding small_live_def by blast
      moreover have "q \<in> set (add_page L c k p d l)" using x(4) by (auto simp: add_page_def)
      ultimately show ?thesis using old [OF x(2-4)] unfolding small_live_def by fastforce
    qed
  qed
qed

end
