(* ===== verification/Pmm.thy ===== *)
theory Pmm
  imports Slab_Spec
begin

text \<open>
  The memory manager seen by the rest of the kernel (\<open>pmm->alloc\<close>, \<open>pmm->free\<close> of
  \<open>kernel/src/pmm.c\<close>): what \<open>kalloc\<close> and \<open>kfree\<close> do to the ranges a client holds,
  start-up, and the interface the other components use.
\<close>

section \<open>Ranges\<close>

definition range_of :: "nat \<times> nat \<Rightarrow> nat set" where
  "range_of = (\<lambda>(a, n). {a..<a + n})"

lemma big_live_bbma:
  assumes "owned bb = insert (a, j) (owned (sl_bbma s))" and "(a, j) \<notin> owned (sl_bbma s)"
    and "\<And>p. is_slab L p \<Longrightarrow> (unat p, 0) \<in> owned (sl_bbma s)"
  shows "big_live (s\<lparr>sl_bbma := bb\<rparr>) L = insert (a, 2 ^ (12 + j)) (big_live s L)"
    and "(a, 2 ^ (12 + j)) \<notin> big_live s L"
proof -
  have new: "\<not> (\<exists>p. is_slab L p \<and> (a, j) = (unat p, 0))" using assms(2,3) by metis
  show "big_live (s\<lparr>sl_bbma := bb\<rparr>) L = insert (a, 2 ^ (12 + j)) (big_live s L)"
    unfolding big_live_def using assms(1) new by auto
  have "(2 :: nat) ^ (12 + j) = 2 ^ (12 + i) \<Longrightarrow> i = j" for i
    by (metis add_left_cancel one_less_numeral_iff power_inject_exp semiring_norm(76))
  then show "(a, 2 ^ (12 + j)) \<notin> big_live s L" unfolding big_live_def using assms(2) by auto
qed

lemma big_live_page:
  assumes "owned bb = insert (unat p, 0) (owned (sl_bbma s))" and "(unat p, 0) \<notin> owned (sl_bbma s)"
    and "c < 8" and "k \<in> classes" and "sl_bbma s' = bb"
  shows "big_live s' (add_page L c k p) = big_live s L"
proof -
  have "x \<in> owned bb \<and> \<not> (\<exists>q. is_slab (add_page L c k p) q \<and> x = (unat q, 0)) \<longleftrightarrow>
      x \<in> owned (sl_bbma s) \<and> \<not> (\<exists>q. is_slab L q \<and> x = (unat q, 0))" for x
    using assms(1,2) unfolding is_slab_add_page [OF assms(3,4)] by auto
  then show ?thesis unfolding big_live_def assms(5) by (metis (no_types, lifting))
qed

lemma big_live_big: "x \<in> big_live s L \<Longrightarrow> 4096 \<le> snd x"
proof -
  assume "x \<in> big_live s L"
  then obtain k where "snd x = 2 ^ (12 + k)" unfolding big_live_def by auto
  then show ?thesis using power_increasing [of 12 "12 + k" "2 :: nat"] by simp
qed

lemma small_live_small: "x \<in> small_live L F \<Longrightarrow> snd x \<le> 2048"
  unfolding small_live_def using class_power(3) by auto

lemma live_apart: "x \<in> small_live L F \<Longrightarrow> x \<notin> big_live s L'"
  using big_live_big small_live_small by fastforce

section \<open>The invariant with the ranges held\<close>

definition pmm_holds :: "slab_sys \<Rightarrow> (nat \<times> nat) set \<Rightarrow> bool" where
  "pmm_holds s X \<longleftrightarrow> (\<exists>L F. slab_rel s L F \<and> X = live s L F)"

lemma owned_apart:
  assumes "bbma_inv bb" and "(a, i) \<in> owned bb" and "(b, j) \<in> owned bb" and "(a, i) \<noteq> (b, j)"
    and "A \<subseteq> {a..<a + 2 ^ (12 + i)}" and "B \<subseteq> {b..<b + 2 ^ (12 + j)}"
  shows "A \<inter> B = {}"
proof -
  have "{a..<a + 2 ^ (12 + i)} \<inter> {b..<b + 2 ^ (12 + j)} = {}"
    using owned_disjoint [OF assms(1-4)] by (simp only: block_def prod.case)
  then show ?thesis using assms(5,6) by blast
qed

text \<open>The buddy block a held range lies in, and how it lies there.\<close>

definition in_page :: "(nat \<Rightarrow> nat \<Rightarrow> addr list) \<Rightarrow> nat \<times> nat \<Rightarrow> nat \<Rightarrow> bool" where
  "in_page L z a \<longleftrightarrow> (\<exists>b k c p. z = (unat b, 2 ^ k) \<and> c < 8 \<and> k \<in> classes \<and> p \<in> set (L c k) \<and>
      b \<in> set (page_blocks p k) \<and> a = unat p \<and> page_at p)"

lemma liveE:
  assumes "slab_rel s L F" and "z \<in> live s L F"
  obtains (small) a where "(a, 0) \<in> owned (sl_bbma s)" "range_of z \<subseteq> {a..<a + 2 ^ (12 + 0)}" "in_page L z a"
  | (big) a i where "(a, i) \<in> owned (sl_bbma s)" "z = (a, 2 ^ (12 + i))" "\<not> (\<exists>p. is_slab L p \<and> (a, i) = (unat p, 0))"
proof (cases "z \<in> small_live L F")
  case True
  then obtain b k c p where q: "z = (unat b, 2 ^ k)" "c < 8" "k \<in> classes" "p \<in> set (L c k)"
    "b \<in> set (page_blocks p k)" "page_at p" "(unat p, 0) \<in> owned (sl_bbma s)"
    by (rule small_liveE [OF _ assms(1)]) auto
  have "range_of z \<subseteq> {unat p..<unat p + 2 ^ (12 + 0)}"
    using page_blocks_in(1,2) [OF q(5,6,3)] q(1) by (auto simp: range_of_def)
  moreover have "in_page L z (unat p)" unfolding in_page_def using q by blast
  ultimately show ?thesis using small [of "unat p"] q(7) by blast
next
  case False
  then show ?thesis using assms(2) big unfolding live_def big_live_def by blast
qed

lemma in_page_slab: "in_page L z a \<Longrightarrow> \<exists>p. is_slab L p \<and> a = unat p"
  unfolding in_page_def is_slab_def by blast

lemma in_page_apart:
  assumes rel: "slab_rel s L F" and "in_page L x a" and "in_page L y a" and "x \<noteq> y"
  shows "range_of x \<inter> range_of y = {}"
proof -
  obtain b1 k1 c1 p1 where 1: "x = (unat b1, 2 ^ k1)" "c1 < 8" "k1 \<in> classes" "p1 \<in> set (L c1 k1)"
    "b1 \<in> set (page_blocks p1 k1)" "a = unat p1" "page_at p1"
    using assms(2) unfolding in_page_def by blast
  obtain b2 k2 c2 p2 where 2: "y = (unat b2, 2 ^ k2)" "c2 < 8" "k2 \<in> classes" "p2 \<in> set (L c2 k2)"
    "b2 \<in> set (page_blocks p2 k2)" "a = unat p2"
    using assms(3) unfolding in_page_def by blast
  have p: "p2 = p1" using 1(6) 2(6) by (simp add: word_unat_eq_iff)
  have k: "k2 = k1" using slab_relD(9) [OF rel 1(2,3) 2(2,3) 1(4)] 2(4) p by simp
  have "b1 \<noteq> b2" using assms(4) 1(1) 2(1) k by auto
  then show ?thesis
    using page_blocks_apart [OF 1(5) _ _ 1(7,3)] 2(5) p k 1(1) 2(1) by (simp add: range_of_def)
qed

text \<open>Two ranges held never overlap.\<close>

lemma live_disjoint:
  assumes rel: "slab_rel s L F" and x: "x \<in> live s L F" and y: "y \<in> live s L F" and ne: "x \<noteq> y"
  shows "range_of x \<inter> range_of y = {}"
proof -
  note apart = owned_apart [OF slab_relD(1) [OF rel]]
  have self: "range_of (a, n) \<subseteq> {a..<a + n}" for a n by (simp add: range_of_def)
  show ?thesis
  proof (cases rule: liveE [OF rel x, case_names small big])
    case sx: (small a)
    show ?thesis
    proof (cases rule: liveE [OF rel y, case_names small big])
      case sy: (small b)
      show ?thesis
        using apart [OF sx(1) sy(1) _ sx(2) sy(2)] in_page_apart [OF rel sx(3)] sy(3) ne by (cases "a = b") auto
    next
      case by': (big b j)
      have "(a, 0) \<noteq> (b, j)" using in_page_slab [OF sx(3)] by'(3) by metis
      from apart [OF sx(1) by'(1) this sx(2) self] show ?thesis unfolding by'(2) .
    qed
  next
    case bx: (big a i)
    show ?thesis
    proof (cases rule: liveE [OF rel y, case_names small big])
      case sy: (small b)
      have "(a, i) \<noteq> (b, 0)" using in_page_slab [OF sy(3)] bx(3) by metis
      from apart [OF bx(1) sy(1) this self sy(2)] show ?thesis unfolding bx(2) .
    next
      case by': (big b j)
      have "(a, i) \<noteq> (b, j)" using ne bx(2) by'(2) by auto
      from apart [OF bx(1) by'(1) this self self] show ?thesis unfolding bx(2) by'(2) .
    qed
  qed
qed

section \<open>Allocation\<close>

lemma determine_slab_size_cases:
  obtains "determine_slab_size n = SLAB_REFUSE" "2048 < unat n"
  | k where "k \<in> classes" "determine_slab_size n = k" "unat n \<le> 2 ^ k" "k \<noteq> SLAB_REFUSE" "5 \<le> k" "k \<le> S_2KB"
proof -
  consider "unat n \<le> 32" | "32 < unat n" "unat n \<le> 64" | "64 < unat n" "unat n \<le> 128"
    | "128 < unat n" "unat n \<le> 256" | "256 < unat n" "unat n \<le> 512" | "512 < unat n" "unat n \<le> 1024"
    | "1024 < unat n" "unat n \<le> 2048" | "2048 < unat n" by linarith
  then show ?thesis
    by cases (use that(2) [of 5] in \<open>simp add: determine_slab_size_def word_le_nat_alt classes_def slab_consts\<close>,
      use that(2) [of 6] in \<open>simp add: determine_slab_size_def word_le_nat_alt classes_def slab_consts\<close>,
      use that(2) [of 7] in \<open>simp add: determine_slab_size_def word_le_nat_alt classes_def slab_consts\<close>,
      use that(2) [of 8] in \<open>simp add: determine_slab_size_def word_le_nat_alt classes_def slab_consts\<close>,
      use that(2) [of 9] in \<open>simp add: determine_slab_size_def word_le_nat_alt classes_def slab_consts\<close>,
      use that(2) [of 10] in \<open>simp add: determine_slab_size_def word_le_nat_alt classes_def slab_consts\<close>,
      use that(2) [of 11] in \<open>simp add: determine_slab_size_def word_le_nat_alt classes_def slab_consts\<close>,
      use that(1) in \<open>simp add: determine_slab_size_def word_le_nat_alt\<close>)
qed

text \<open>The result of a request: nothing, or a new range that holds it.\<close>

definition got :: "(nat \<times> nat) set \<Rightarrow> nat \<Rightarrow> addr \<Rightarrow> slab_sys \<Rightarrow> bool" where
  "got X n q s' \<longleftrightarrow> q = 0 \<and> pmm_holds s' X \<or>
     q \<noteq> 0 \<and> (\<exists>len. n \<le> len \<and> len dvd unat q \<and> (unat q, len) \<notin> X \<and> pmm_holds s' (insert (unat q, len) X))"

lemma alloc_big:
  assumes rel: "slab_rel s L F" and n: "2048 < unat n"
  shows "\<exists>q s'. slab_alloc s c n = Inr (q, s') \<and> got (live s L F) (unat n) q s'"
proof -
  have size: "determine_slab_size n = SLAB_REFUSE"
    using n by (cases rule: determine_slab_size_cases [of n])
      (auto dest: class_power(3))
  obtain q bb where q: "bbma_alloc (sl_bbma s) n = Inr (q, bb)" "bbma_inv bb" "alloc_effect (sl_bbma s) n q bb"
    "tree_locks bb = tree_locks (sl_bbma s)"
    using bbma_alloc_effect [OF slab_relD(1) [OF rel]] by blast
  have "n \<noteq> 0" using n by auto
  then have res: "slab_alloc s c n = Inr (q, s\<lparr>sl_bbma := bb\<rparr>)"
    using size q(1) by (simp add: slab_alloc_def)
  show ?thesis
  proof (cases "q = 0")
    case True
    then have "s\<lparr>sl_bbma := bb\<rparr> = s" using q(3) by (simp add: alloc_effect_def)
    then show ?thesis using True res rel unfolding got_def pmm_holds_def by auto
  next
    case False
    then obtain k where k: "unat n \<le> 2 ^ (12 + k)" "(unat q, k) \<notin> owned (sl_bbma s)"
      "owned bb = insert (unat q, k) (owned (sl_bbma s))" "2 ^ (12 + k) dvd unat q"
      using q(3) unfolding alloc_effect_def by blast
    have rel': "slab_rel (s\<lparr>sl_bbma := bb\<rparr>) L F"
      using slab_rel_bbma [OF rel q(2)] q(4) slab_relD(2) [OF rel] slab_page_owned [OF rel] k(3) by auto
    note big = big_live_bbma [OF k(3,2) slab_page_owned [OF rel]]
    have "(unat q, 2 ^ (12 + k)) \<notin> live s L F"
      using big(2) small_live_small [of "(unat q, 2 ^ (12 + k))" L F] power_increasing [of 12 "12 + k" "2 :: nat"]
      unfolding live_def by auto
    moreover have "live (s\<lparr>sl_bbma := bb\<rparr>) L F = insert (unat q, 2 ^ (12 + k)) (live s L F)"
      using big(1) unfolding live_def by blast
    ultimately have "got (live s L F) (unat n) q (s\<lparr>sl_bbma := bb\<rparr>)"
      using False k(1,4) rel' unfolding got_def pmm_holds_def by metis
    then show ?thesis using res by blast
  qed
qed

lemma alloc_small:
  assumes rel: "slab_rel s L F" and c: "c < 8" and n: "n \<noteq> 0" "unat n \<le> 2048"
  shows "\<exists>q s'. slab_alloc s c n = Inr (q, s') \<and> got (live s L F) (unat n) q s'"
proof -
  obtain k where k: "k \<in> classes" "determine_slab_size n = k" "unat n \<le> 2 ^ k" "k \<noteq> SLAB_REFUSE" "5 \<le> k" "k \<le> S_2KB"
    using n(2) by (cases rule: determine_slab_size_cases [of n]) auto
  have k31: "k < 31" using k(6) by (simp add: slab_consts)
  show ?thesis
  proof (cases "find (\<lambda>p. F p \<noteq> []) (L c k)")
    case (Some p)
    obtain s' where s': "find_the_free_space_in_slab s c k = Inr (hd (F p), s')" "slab_rel s' L (F(p := tl (F p)))"
      "F p \<noteq> []" "p \<in> set (L c k)" "sl_bbma s' = sl_bbma s"
      using find_free_space_some [OF rel c k(1) Some] by blast
    obtain b bs where b: "F p = b # bs" using s'(3) by (cases "F p") auto
    have "b \<in> set (page_blocks p k)"
      using slab_relD(8) [OF rel c k(1) s'(4)] b by (simp add: page_ok_def)
    note blk = page_blocks_in(3,5) [OF this slab_rel_page_at [OF rel c k(1) s'(4)] k(1)]
    have res: "slab_alloc s c n = Inr (b, s')"
      using n(1) k s'(1) b blk is_align_to_small [OF k31, of b] by (simp add: slab_alloc_def)
    note small = small_live_take [OF rel c k(1) s'(4) b]
    have "live s' L (F(p := bs)) = insert (unat b, 2 ^ k) (live s L F)"
      unfolding live_def small(1) using s'(5) by (simp add: big_live_def)
    moreover have "(unat b, 2 ^ k) \<notin> live s L F"
      using small live_apart [of "(unat b, 2 ^ k)" L "F(p := bs)" s L] unfolding live_def by blast
    moreover have "slab_rel s' L (F(p := bs))" using s'(2) b by simp
    ultimately have "got (live s L F) (unat n) b s'"
      using blk k(3) unfolding got_def pmm_holds_def by metis
    then show ?thesis using res by blast
  next
    case None
    note none = find_free_space_none [OF rel c k(1) None]
    obtain q s' where q: "request_a_slab_from_bbma s c k = Inr (q, s')"
      and cases: "q = 0 \<and> s' = s \<or>
       (\<exists>p. (unat p, 0) \<notin> owned (sl_bbma s) \<and> owned (sl_bbma s') = insert (unat p, 0) (owned (sl_bbma s)) \<and>
        q = last (page_blocks p k) \<and> q \<in> set (page_blocks p k) \<and>
        slab_rel s' (add_page L c k p) (F(p := tl (rev (page_blocks p k)))))"
      using request_slab [OF rel c k(1)] by blast
    have start: "is_align_to q k = Inr True \<Longrightarrow> slab_alloc s c n = Inr (q, s')"
      using n(1) k none q by (simp add: slab_alloc_def)
    show ?thesis
    proof (cases "q = 0")
      case True
      have "is_align_to q k = Inr True" using True is_align_to_small [OF k31] by simp
      then have res: "slab_alloc s c n = Inr (q, s')" by (rule start)
      have "s' = s"
      proof (rule ccontr)
        assume "s' \<noteq> s"
        then obtain p where p: "owned (sl_bbma s') = insert (unat p, 0) (owned (sl_bbma s))" "q \<in> set (page_blocks p k)"
          "slab_rel s' (add_page L c k p) (F(p := tl (rev (page_blocks p k))))"
          using cases by blast
        have "page_at p" using owned_page_at [OF slab_relD(1) [OF p(3)]] p(1) by simp
        then show False using page_blocks_in(5) [OF p(2) _ k(1)] True by simp
      qed
      then show ?thesis using res True rel unfolding got_def pmm_holds_def by blast
    next
      case False
      then obtain p where p: "(unat p, 0) \<notin> owned (sl_bbma s)" "owned (sl_bbma s') = insert (unat p, 0) (owned (sl_bbma s))"
        "q = last (page_blocks p k)" "q \<in> set (page_blocks p k)"
        "slab_rel s' (add_page L c k p) (F(p := tl (rev (page_blocks p k))))"
        using cases by blast
      have at: "page_at p" using owned_page_at [OF slab_relD(1) [OF p(5)]] p(2) by simp
      have ns: "\<not> is_slab L p" using p(1) slab_page_owned [OF rel] by blast
      obtain bs where bs: "page_blocks p k = bs @ [q]" using p(3,4) by (metis append_butlast_last_id list.set_cases list.distinct(1))
      have "is_align_to q k = Inr True" using page_blocks_in(3) [OF p(4) at k(1)] is_align_to_small [OF k31] by simp
      then have res: "slab_alloc s c n = Inr (q, s')" by (rule start)
      note small = small_live_add [OF rel c k(1) ns at bs]
      have "live s' (add_page L c k p) (F(p := rev bs)) = insert (unat q, 2 ^ k) (live s L F)"
        unfolding live_def small big_live_page [OF p(2,1) c k(1) refl] by simp
      moreover have "(unat q, 2 ^ k) \<notin> small_live L F"
      proof
        assume "(unat q, 2 ^ k) \<in> small_live L F"
        then obtain b l d r where x: "(unat q, (2 :: nat) ^ k) = (unat b, 2 ^ l)" "d < 8" "l \<in> classes" "r \<in> set (L d l)"
          "b \<in> set (page_blocks r l)" "page_at r"
          by (rule small_liveE [OF _ rel]) auto
        have "b = q" using x(1) by (simp add: word_unat_eq_iff)
        then have "r = p" using blocks_disjoint_pages [of q r l p k] x(3,5,6) p(4) at k(1) by simp
        then show False using ns x(2-4) unfolding is_slab_def by blast
      qed
      moreover have "(unat q, 2 ^ k) \<notin> big_live s L"
        using big_live_big [of "(unat q, 2 ^ k)" s L] class_power(3) [OF k(1)] by auto
      moreover have "slab_rel s' (add_page L c k p) (F(p := rev bs))" using p(5) bs by simp
      ultimately have "got (live s L F) (unat n) q s'"
        using False k(3) page_blocks_in(3) [OF p(4) at k(1)] unfolding got_def pmm_holds_def live_def by (metis Un_iff)
      then show ?thesis using res by blast
    qed
  qed
qed

lemma kalloc_effect:
  assumes "pmm_holds s X" and "c < 8"
  shows "\<exists>q s'. kalloc s c n = Inr (q, s') \<and> got X (unat n) q s'"
proof -
  obtain L F where rel: "slab_rel s L F" and X: "X = live s L F" using assms(1) unfolding pmm_holds_def by blast
  show ?thesis
  proof (cases "n = 0")
    case True
    then show ?thesis using assms(1) by (simp add: kalloc_def slab_alloc_def got_def)
  next
    case False
    then show ?thesis
      using alloc_big [OF rel, of n c] alloc_small [OF rel assms(2) False] X unfolding kalloc_def
      by (cases "2048 < unat n") auto
  qed
qed

section \<open>Release\<close>

lemma request_mask: "(SLAB_REQUEST_SPACE - 1 :: u64) = mask 12" "(push_bit 12 1 - 1 :: u64) = mask 12"
  by (simp_all add: slab_consts mask_eq_exp_minus_1)

lemma slab_free_small:
  assumes rel: "slab_rel s L F" and p: "c < 8" "k \<in> classes" "p \<in> set (L c k)"
    and b: "b \<in> set (page_blocks p k)" "b \<notin> set (F p)"
  shows "\<exists>s'. slab_free s b = Inr s' \<and> slab_rel s' L (F(p := b # F p)) \<and> sl_bbma s' = sl_bbma s"
proof -
  have at: "page_at p" using slab_rel_page_at [OF rel p] .
  note blk = page_blocks_in [OF b(1) at p(2)]
  have ok: "page_ok s F k p" using slab_relD(8) [OF rel p] .
  have page: "slab_align_to_4kb b = p" using page_of_block [OF b(1) at p(2)] .
  have nz: "b AND (SLAB_REQUEST_SPACE - 1) \<noteq> 0" using blk(4) by (simp add: request_mask and_mask_eq_0_iff)
  have lt: "p < b" using blk(1) by (simp add: word_less_nat_alt)
  have "unat (b - p) = unat b - unat p" using blk(1) by (intro unat_sub_le) simp
  then have gap: "b - p < push_bit 12 1"
    using blk(2) class_power(2) [OF p(2)] by (simp add: word_less_nat_alt)
  have "length (F p) = card (set (F p))" using ok by (simp add: page_ok_def distinct_card)
  also have "\<dots> \<le> card (set (page_blocks p k))" using ok by (intro card_mono) (simp_all add: page_ok_def)
  also have "\<dots> \<le> length (page_blocks p k)" by (rule card_length)
  also have "\<dots> \<le> 2 ^ (12 - k)" by (simp add: page_blocks_def)
  also have "\<dots> \<le> 2 ^ 12" by (intro power_increasing) simp_all
  finally have len: "length (F p) + 1 < 2 ^ 32" by simp
  let ?g = "\<lambda>st. st\<lparr>slab_lock := 0, current_slab_free_block_list := b, current_slab_free_space := length (F p) + 1\<rparr>"
  let ?s = "upd_stick (s\<lparr>next_free := (next_free s)(b := current_slab_free_block_list (stick s p))\<rparr>) p ?g"
  have free: "current_slab_free_space (stick s p) = length (F p)" using ok by (simp add: page_ok_def)
  have res: "slab_free s b = Inr ?s"
    using nz page lt gap page_aligned(2) [OF at] slab_relD(5) [OF rel, of p] free len
    by (simp add: slab_free_def Let_def spin_lock_eq) (simp add: upd_stick_def, cases "stick s p", simp)
  have "page_ok ?s (F(p := b # F p)) k p"
    using ok b blk(5) linked_upd [of b "F p" "next_free s"] by (simp add: page_ok_def)
  then have "slab_rel ?s L (F(p := b # F p))"
    using slab_relD(5) [OF rel] b(1) by (intro slab_rel_page [OF rel p]) auto
  then show ?thesis using res by (intro exI [of _ ?s]) simp
qed

lemma kfree_effect:
  assumes "pmm_holds s X" and x: "(unat p, len) \<in> X"
  shows "if p = begin_alloc_addr (bb_base (sl_bbma s)) then kfree s p = Inl Assert
     else \<exists>s'. kfree s p = Inr s' \<and> pmm_holds s' (X - {(unat p, len)})"
proof -
  obtain L F where rel: "slab_rel s L F" and X: "X = live s L F" using assms(1) unfolding pmm_holds_def by blast
  note inv = slab_relD(1) [OF rel]
  have base: "2 ^ 24 dvd unat (begin_alloc_addr (bb_base (sl_bbma s)))" using inv unfolding bbma_inv_def by blast
  show ?thesis
  proof (cases "(unat p, len) \<in> small_live L F")
    case True
    then obtain b k c q where b: "(unat p, len) = (unat b, 2 ^ k)" "c < 8" "k \<in> classes" "q \<in> set (L c k)"
      "b \<in> set (page_blocks q k)" "b \<notin> set (F q)" "page_at q"
      by (rule small_liveE [OF _ rel]) auto
    have bp: "b = p" "len = 2 ^ k" using b(1) by (simp_all add: word_unat_eq_iff)
    have na: "\<not> 4096 dvd unat p" using page_blocks_in(4) [OF b(5,7,3)] bp by simp
    have al: "is_align_to p 12 = Inr False" using na by (simp add: is_align_to_small)
    have ne: "p \<noteq> begin_alloc_addr (bb_base (sl_bbma s))"
      using na dvd_trans [OF _ base, of 4096] by auto
    obtain s' where s': "slab_free s p = Inr s'" "slab_rel s' L (F(q := b # F q))" "sl_bbma s' = sl_bbma s"
      using slab_free_small [OF rel b(2-6)] bp(1) by auto
    have big: "big_live s' L = big_live s L" unfolding big_live_def s'(3) ..
    have "live s' L (F(q := b # F q)) = X - {(unat p, len)}"
      unfolding live_def X big small_live_give [OF rel b(2-6)] using live_apart [OF True, of s L] b(1) by auto
    then have "pmm_holds s' (X - {(unat p, len)})" using s'(2) unfolding pmm_holds_def by metis
    moreover have "kfree s p = Inr s'" using al s'(1) by (simp add: kfree_def)
    ultimately show ?thesis using ne by simp
  next
    case False
    then obtain k where k: "(unat p, k) \<in> owned (sl_bbma s)" "len = 2 ^ (12 + k)"
      "\<not> (\<exists>q. is_slab L q \<and> (unat p, k) = (unat q, 0))"
      using x unfolding X live_def big_live_def by auto
    have "2 ^ 12 dvd unat p"
      using owned_bounds(4) [OF inv k(1)] le_imp_power_dvd [of 12 "12 + k" "2 :: nat"] by (rule dvd_trans [rotated]) simp
    then have al: "is_align_to p 12 = Inr True" by (simp add: is_align_to_small)
    note free = bbma_free_effect [OF inv k(1)]
    have lock: "tree_locks (sl_bbma s) ! home (sl_bbma s) p = 0"
      using free(2) inv slab_relD(2) [OF rel] by (simp add: bbma_inv_def)
    show ?thesis
    proof (cases "p = begin_alloc_addr (bb_base (sl_bbma s))")
      case True
      then show ?thesis using al free(3) by (simp add: kfree_def)
    next
      case ne: False
      obtain bb where bb: "bbma_free (sl_bbma s) p = Inr bb" "bbma_inv bb"
        "owned bb = owned (sl_bbma s) - {(unat p, k)}" "tree_locks bb = tree_locks (sl_bbma s)"
        using free(5) [OF ne lock] by blast
      have rel': "slab_rel (s\<lparr>sl_bbma := bb\<rparr>) L F"
      proof (rule slab_rel_bbma [OF rel bb(2)])
        show "tree_locks bb = replicate 33 0" using bb(4) slab_relD(2) [OF rel] by simp
        fix r assume "is_slab L r"
        then show "(unat r, 0) \<in> owned bb"
          using slab_page_owned [OF rel, of r] k(3) unfolding bb(3) by (metis DiffI singletonD)
      qed
      have len: "(2 :: nat) ^ (12 + i) = 2 ^ (12 + k) \<Longrightarrow> i = k" for i
        by (metis add_left_cancel one_less_numeral_iff power_inject_exp semiring_norm(76))
      have "big_live (s\<lparr>sl_bbma := bb\<rparr>) L = big_live s L - {(unat p, len)}"
        unfolding big_live_def k(2) using bb(3) by (auto dest: len)
      then have lv: "live (s\<lparr>sl_bbma := bb\<rparr>) L F = X - {(unat p, len)}"
        using False unfolding live_def X by blast
      moreover have "kfree s p = Inr (s\<lparr>sl_bbma := bb\<rparr>)" using al bb(1) by (simp add: kfree_def)
      moreover then have "pmm_holds (s\<lparr>sl_bbma := bb\<rparr>) (X - {(unat p, len)})"
        using rel' lv unfolding pmm_holds_def by metis
      ultimately show ?thesis using ne by simp
    qed
  qed
qed

section \<open>Start-up\<close>

lemma request_keeps:
  assumes "slab_rel s L F" and "c < 8" and "k \<in> classes" and "big_live s L = {}"
  shows "\<exists>q s' L' F'. request_a_slab_from_bbma s c k = Inr (q, s') \<and> slab_rel s' L' F' \<and> big_live s' L' = {}"
proof -
  obtain q s' where q: "request_a_slab_from_bbma s c k = Inr (q, s')"
    and c: "q = 0 \<and> s' = s \<or>
     (\<exists>p. (unat p, 0) \<notin> owned (sl_bbma s) \<and> owned (sl_bbma s') = insert (unat p, 0) (owned (sl_bbma s)) \<and>
        q = last (page_blocks p k) \<and> q \<in> set (page_blocks p k) \<and>
        slab_rel s' (add_page L c k p) (F(p := tl (rev (page_blocks p k)))))"
    using request_slab [OF assms(1-3)] by blast
  from c show ?thesis
    using q assms(1,4) big_live_page [OF _ _ assms(2,3) refl] by (elim disjE exE conjE) metis+
qed

lemma initialize_slabs_keeps:
  "set is \<subseteq> {0..<7} \<Longrightarrow> slab_rel s L F \<Longrightarrow> c < 8 \<Longrightarrow> big_live s L = {} \<Longrightarrow>
   \<exists>s' L' F'. initialize_slabs s c is = Inr s' \<and> slab_rel s' L' F' \<and> big_live s' L' = {}"
proof (induction "is" arbitrary: s L F)
  case (Cons i "is")
  have k: "i + CPU_FIND_SLAB_OFFSET \<in> classes" using Cons.prems(1) by (auto simp: classes_def slab_consts)
  obtain q s' L' F' where "request_a_slab_from_bbma s c (i + CPU_FIND_SLAB_OFFSET) = Inr (q, s')"
    "slab_rel s' L' F'" "big_live s' L' = {}"
    using request_keeps [OF Cons.prems(2,3) k Cons.prems(4)] by blast
  then show ?case using Cons.IH [of s' L' F'] Cons.prems(1,3) by simp
qed auto

lemma initialize_cpus_keeps:
  "set is \<subseteq> {0..<8} \<Longrightarrow> slab_rel s L F \<Longrightarrow> big_live s L = {} \<Longrightarrow>
   \<exists>s' L' F'. initialize_cpus s is = Inr s' \<and> slab_rel s' L' F' \<and> big_live s' L' = {}"
proof (induction "is" arbitrary: s L F)
  case (Cons i "is")
  obtain s' L' F' where "initialize_a_cpu_slab_area s i = Inr s'" "slab_rel s' L' F'" "big_live s' L' = {}"
    using initialize_slabs_keeps [of "[0..<SLAB_NUM]" s L F i] Cons.prems
    by (auto simp: initialize_a_cpu_slab_area_def slab_consts)
  then show ?case using Cons.IH [of s' L' F'] Cons.prems(1) by simp
qed auto

text \<open>The file-scope variables before any code runs; the memory reads 0 where headers will be.\<close>

definition slab_zero :: "(addr \<Rightarrow> nat list) \<Rightarrow> (addr \<Rightarrow> slab_stick) \<Rightarrow> (addr \<Rightarrow> addr) \<Rightarrow> slab_sys" where
  "slab_zero mem st nf = \<lparr>sl_bbma = bbma_zero mem,
     cpu_own_area = replicate MAX_CPU (replicate SLAB_NUM 0), stick = st, next_free = nf\<rparr>"

lemma slab_rel_start:
  assumes "bbma_inv bb" and "tree_locks bb = replicate 33 0" and "\<And>a. slab_lock (st a) = 0"
  shows "slab_rel (slab_zero mem st nf\<lparr>sl_bbma := bb\<rparr>) (\<lambda>_ _. []) (\<lambda>_. [])"
    and "live (slab_zero mem st nf\<lparr>sl_bbma := bb\<rparr>) (\<lambda>_ _. []) (\<lambda>_. []) = (\<lambda>(a, k). (a, 2 ^ (12 + k))) ` owned bb"
    and "owned bb = {} \<Longrightarrow> big_live (slab_zero mem st nf\<lparr>sl_bbma := bb\<rparr>) (\<lambda>_ _. []) = {}"
  using assms by (auto simp: slab_rel_def slab_zero_def MAX_CPU_def slab_consts classes_def big_live_def
      live_def small_live_def is_slab_def image_iff)

lemma pmm_init_ok:
  assumes start: "align_to heap_start 24 = Inr start" "0 < unat start" "2 ^ 24 dvd unat start"
    and cpu: "1 \<le> cpu_num" "cpu_num \<le> 8"
    and n: "unat start + (n + 1) * 2 ^ 24 \<le> unat e" "unat e < unat start + (n + 2) * 2 ^ 24"
      "unat e + 2 ^ 24 < 2 ^ 64" "n \<le> 32"
    and mem: "\<And>a. length (mem a) = 8192" "\<And>a. slab_lock (st a) = 0"
  shows "\<exists>s X. pmm_init (slab_zero mem st nf) cpu_num heap_start e = Inr s \<and> pmm_holds s X \<and> (\<forall>x \<in> X. snd x \<le> 2048)"
proof -
  obtain bb where bb: "bbma_init (bbma_zero mem) cpu_num start e = Inr bb" "bbma_inv bb" "owned bb = {}"
    "tree_locks bb = replicate 33 0"
    using bbma_init_ok [OF start(2,3) cpu n, of mem] mem(1) by blast
  note zero = slab_rel_start(1,3) [OF bb(2,4), of st mem nf]
  obtain s L F where "slab_init (slab_zero mem st nf\<lparr>sl_bbma := bb\<rparr>) cpu_num = Inr s" "slab_rel s L F" "big_live s L = {}"
    using initialize_cpus_keeps [of "[0..<cpu_num]", OF _ zero] mem(2) cpu(2) bb(3) by (auto simp: slab_init_def)
  moreover have "sl_bbma (slab_zero mem st nf) = bbma_zero mem" by (simp add: slab_zero_def)
  ultimately have "pmm_init (slab_zero mem st nf) cpu_num heap_start e = Inr s" "pmm_holds s (live s L F)"
    "live s L F = small_live L F"
    using start(1) bb(1) unfolding pmm_holds_def live_def by (auto simp: pmm_init_def)
  then show ?thesis using small_live_small by metis
qed

section \<open>The interface to the kernel\<close>

text \<open>
  What the kernel relies on when it calls \<open>pmm->alloc\<close> and \<open>pmm->free\<close>: \<open>holds s X\<close>
  says that in state \<open>s\<close> exactly the ranges \<open>X\<close> are handed out.
\<close>

locale memory_manager =
  fixes holds :: "'s \<Rightarrow> (nat \<times> nat) set \<Rightarrow> bool"
    and get :: "'s \<Rightarrow> u64 \<Rightarrow> (addr \<times> 's) res" and give :: "'s \<Rightarrow> addr \<Rightarrow> 's res"
  assumes get_law: "holds s X \<Longrightarrow> get s n = Inr (p, s') \<Longrightarrow> p \<noteq> 0 \<Longrightarrow>
      \<exists>len. unat n \<le> len \<and> (unat p, len) \<notin> X \<and> holds s' (insert (unat p, len) X)"
    and get_none: "holds s X \<Longrightarrow> get s n = Inr (0, s') \<Longrightarrow> holds s' X"
    and give_law: "holds s X \<Longrightarrow> (unat p, len) \<in> X \<Longrightarrow> give s p = Inr s' \<Longrightarrow> holds s' (X - {(unat p, len)})"
    and apart_law: "holds s X \<Longrightarrow> x \<in> X \<Longrightarrow> y \<in> X \<Longrightarrow> x \<noteq> y \<Longrightarrow> range_of x \<inter> range_of y = {}"
begin

lemma get_apart:
  assumes "holds s X" and "get s n = Inr (p, s')" and "p \<noteq> 0" and "x \<in> X"
  shows "range_of (unat p, unat n) \<inter> range_of x = {}"
proof -
  obtain len where len: "unat n \<le> len" "(unat p, len) \<notin> X" "holds s' (insert (unat p, len) X)"
    using get_law [OF assms(1-3)] by blast
  have "range_of (unat p, len) \<inter> range_of x = {}" using apart_law [OF len(3)] len(2) assms(4) by blast
  then show ?thesis using len(1) by (auto simp: range_of_def split: prod.splits)
qed

lemma get_twice_apart:
  assumes "holds s X" and "get s n = Inr (p, s1)" and "p \<noteq> 0" and "get s1 m = Inr (q, s2)" and "q \<noteq> 0"
  shows "range_of (unat q, unat m) \<inter> range_of (unat p, unat n) = {}"
proof -
  obtain len where len: "unat n \<le> len" "holds s1 (insert (unat p, len) X)"
    using get_law [OF assms(1-3)] by blast
  have "range_of (unat q, unat m) \<inter> range_of (unat p, len) = {}"
    using get_apart [OF len(2) assms(4,5)] by blast
  then show ?thesis using len(1) by (auto simp: range_of_def)
qed

lemma get_give:
  assumes "holds s X" and "get s n = Inr (p, s1)" and "p \<noteq> 0" and "give s1 p = Inr s2"
  shows "holds s2 X"
proof -
  obtain len where len: "(unat p, len) \<notin> X" "holds s1 (insert (unat p, len) X)"
    using get_law [OF assms(1-3)] by blast
  then show ?thesis using give_law [OF len(2) _ assms(4), of len] by simp
qed

end

definition pmm_on :: "nat \<Rightarrow> slab_sys \<Rightarrow> (nat \<times> nat) set \<Rightarrow> bool" where
  "pmm_on cpu s X \<longleftrightarrow> cpu < 8 \<and> pmm_holds s X"

interpretation pmm: memory_manager "pmm_on cpu" "\<lambda>s. kalloc s cpu" kfree
proof
  fix s s' :: slab_sys and X and n p :: u64
  assume a: "pmm_on cpu s X" "kalloc s cpu n = Inr (p, s')" "p \<noteq> 0"
  then show "\<exists>len. unat n \<le> len \<and> (unat p, len) \<notin> X \<and> pmm_on cpu s' (insert (unat p, len) X)"
    using kalloc_effect [of s X cpu n] by (auto simp: pmm_on_def got_def)
next
  fix s s' :: slab_sys and X and n :: u64
  assume "pmm_on cpu s X" "kalloc s cpu n = Inr (0, s')"
  then show "pmm_on cpu s' X" using kalloc_effect [of s X cpu n] by (auto simp: pmm_on_def got_def)
next
  fix s s' :: slab_sys and X and p :: u64 and len
  assume "pmm_on cpu s X" "(unat p, len) \<in> X" "kfree s p = Inr s'"
  then show "pmm_on cpu s' (X - {(unat p, len)})"
    using kfree_effect [of s X p len] by (auto simp: pmm_on_def split: if_splits)
next
  fix s :: slab_sys and X x y
  assume "pmm_on cpu s X" "x \<in> X" "y \<in> X" "x \<noteq> y"
  then show "range_of x \<inter> range_of y = {}" unfolding pmm_on_def pmm_holds_def using live_disjoint by blast
qed

section \<open>Properties\<close>

text \<open>A machine with four areas, for the witnesses.\<close>

lemma pmm_example:
  "\<exists>s X. pmm_init (slab_zero (\<lambda>_. replicate 8192 0) (\<lambda>_. \<lparr>slab_lock = 0, current_slab_free_block_list = 0,
      next_slab_stick = 0, current_slab_free_space = 0\<rparr>) (\<lambda>_. 0)) 2 0x234567 0x6000000 = Inr s \<and>
     pmm_holds s X \<and> (\<forall>x \<in> X. snd x \<le> 2048)"
  by (rule pmm_init_ok [where start = "0x1000000" and n = 4])
    (simp_all add: align_to_def align_unit_def)





text \<open>
  C12: \<open>pmm->free\<close>: for any range handed out (a slab block or a block of pages, told apart by
  the alignment of the pointer) \<open>kfree\<close> returns and takes exactly this range back; only the
  block at the start of the memory fails the assertion of the buddy allocator.
\<close>

theorem kfree_correct:
  assumes "pmm_holds s X" and "(unat p, len) \<in> X"
  shows "if p = begin_alloc_addr (bb_base (sl_bbma s)) then kfree s p = Inl Assert
     else \<exists>s'. kfree s p = Inr s' \<and> pmm_holds s' (X - {(unat p, len)})"
  by (rule kfree_effect [OF assms])

text \<open>A state in which two blocks of 16 MiB are held, one of them at the start of the memory.\<close>

lemma two_held_example:
  "\<exists>s p q. pmm_holds s {(unat p, 2 ^ 24), (unat q, 2 ^ 24)} \<and> p \<noteq> q \<and> p = begin_alloc_addr (bb_base (sl_bbma s))"
proof -
  obtain bb p q where bb: "bbma_inv bb" "tree_locks bb = replicate 33 0" "p = begin_alloc_addr (bb_base bb)"
    "owned bb = {(unat p, 12), (unat q, 12)}" "q \<noteq> p"
    using two_blocks_example by blast
  let ?st = "\<lambda>_ :: addr. \<lparr>slab_lock = 0, current_slab_free_block_list = 0, next_slab_stick = 0, current_slab_free_space = 0\<rparr>"
  let ?s = "slab_zero (\<lambda>_. []) ?st (\<lambda>_. 0)\<lparr>sl_bbma := bb\<rparr>"
  have "slab_rel ?s (\<lambda>_ _. []) (\<lambda>_. [])" "live ?s (\<lambda>_ _. []) (\<lambda>_. []) = {(unat p, 2 ^ 24), (unat q, 2 ^ 24)}"
    using slab_rel_start(1,2) [OF bb(1,2), of ?st "\<lambda>_. []" "\<lambda>_. 0"] bb(4) by simp_all
  then have "pmm_holds ?s {(unat p, 2 ^ 24), (unat q, 2 ^ 24)}" unfolding pmm_holds_def by metis
  moreover have "p = begin_alloc_addr (bb_base (sl_bbma ?s))" using bb(3) by simp
  ultimately show ?thesis using bb(5) by metis
qed

theorem kfree_correct_witness:
  "\<exists>s s' p q. pmm_holds s {(unat p, 2 ^ 24), (unat q, 2 ^ 24)} \<and> kfree s p = Inl Assert \<and>
     kfree s q = Inr s' \<and> pmm_holds s' {(unat p, 2 ^ 24)}"
proof -
  obtain s p q where s: "pmm_holds s {(unat p, 2 ^ 24), (unat q, 2 ^ 24)}" "p \<noteq> q"
    "p = begin_alloc_addr (bb_base (sl_bbma s))"
    using two_held_example by blast
  have "(unat q, (2 :: nat) ^ 24) \<noteq> (unat p, 2 ^ 24)" using s(2) by (simp add: word_unat_eq_iff)
  then have "{(unat p, 2 ^ 24), (unat q, 2 ^ 24)} - {(unat q, 2 ^ 24)} = {(unat p, (2 :: nat) ^ 24)}" by auto
  then obtain s' where "kfree s q = Inr s'" "pmm_holds s' {(unat p, 2 ^ 24)}"
    using kfree_correct [OF s(1), of q "2 ^ 24"] s(2,3) by auto
  moreover have "kfree s p = Inl Assert" using kfree_correct [OF s(1), of p "2 ^ 24"] s(3) by simp
  ultimately show ?thesis using s(1) by metis
qed



text \<open>
  The lock of a new slab page is never initialised: when the page the buddy allocator
  returns holds a nonzero first word (a reused page may), the request for a slab takes the page,
  enters it in the CPU's list, and spins on its lock forever.
\<close>

theorem slab_lock_uninitialised:
  assumes "bbma_alloc (sl_bbma s) SLAB_REQUEST_SPACE = Inr (p, bb)" and "page_at p"
    and "slab_lock (stick s p) \<noteq> 0" and "k \<in> classes"
    and "length (cpu_own_area s) = 8" and "c < 8" and "length (cpu_own_area s ! c) = 7"
  shows "request_a_slab_from_bbma s c k = Inl Hang"
proof -
  have k: "k - 5 < 7" "5 \<le> k" using assms(4) by (auto simp: classes_def)
  let ?s1 = "s\<lparr>sl_bbma := bb\<rparr>"
  have slot: "area_slot ?s1 c k = Inr (cpu_own_area s ! c ! (k - 5))"
    using k assms(5-7) by (simp add: area_slot_def slab_consts)
  let ?s2 = "upd_stick ?s1 p (next_slab_stick_update (\<lambda>_. cpu_own_area s ! c ! (k - 5)))"
  let ?s3 = "?s2\<lparr>cpu_own_area := (cpu_own_area ?s2)[c := (cpu_own_area ?s2 ! c)[k - CPU_FIND_SLAB_OFFSET := p]]\<rparr>"
  obtain s4 where s4: "initialize_a_slab_new_page ?s3 k p = Inr s4" "cpu_own_area s4 = cpu_own_area ?s3"
    "slab_lock (stick s4 p) = slab_lock (stick ?s3 p)"
    using init_page [OF assms(2,4), of ?s3] by blast
  have slot4: "area_slot s4 c k = Inr p"
    using k assms(5-7) s4(2) by (simp add: area_slot_def slab_consts)
  have fuel: "SLAB_FUEL = Suc 131073" by (simp add: SLAB_FUEL_def)
  have "find_page_loop SLAB_FUEL s4 p = Inl Hang"
    unfolding fuel find_page_loop.simps using assms(3) s4(3) page_aligned(3) [OF assms(2)]
    by (simp add: spin_lock_eq)
  then have "find_the_free_space_in_slab s4 c k = Inl Hang"
    using slot4 page_aligned(3) [OF assms(2)]
    by (simp add: find_the_free_space_in_slab_def find_the_avaliable_page_in_slab_and_lock_def)
  then show ?thesis
    using assms(1) page_aligned(2,3) [OF assms(2)] slot s4(1)
    by (simp add: request_a_slab_from_bbma_def Let_def)
qed

theorem slab_lock_uninitialised_witness:
  "\<exists>s p bb. bbma_alloc (sl_bbma s) SLAB_REQUEST_SPACE = Inr (p, bb) \<and> slab_lock (stick s p) = 7 \<and>
     request_a_slab_from_bbma s 3 6 = Inl Hang"
proof -
  obtain b where b: "bbma_inv b" "owned b = {}" "tree_num b = 4" "tree_locks b = replicate 33 0"
    "\<forall>i \<in> {1..4}. full 12 (tree_at (tree_bytes b i) 1 12)"
    using boot_example by blast
  have sz: "determine_bbma_size SLAB_REQUEST_SPACE = 12" by (simp add: determine_bbma_size_def slab_consts)
  have "fits b 12 1" using b(4,5) full_val [of 12 "tree_at (tree_bytes b 1) 1 12"] by (simp add: fits_def)
  then obtain p bb where p: "bbma_alloc b SLAB_REQUEST_SPACE = Inr (p, bb)" "bbma_inv bb" "p \<noteq> 0"
    "alloc_effect b SLAB_REQUEST_SPACE p bb"
    using bbma_alloc_effect [OF b(1), of SLAB_REQUEST_SPACE] b(3) sz by (force simp: BBMA_REFUSE_def)
  then have "(unat p, 0) \<in> owned bb" using sz unfolding alloc_effect_def by auto
  then have at: "page_at p" using owned_page_at [OF p(2)] by blast
  let ?s = "\<lparr>sl_bbma = b, cpu_own_area = replicate 8 (replicate 7 0),
     stick = (\<lambda>_. \<lparr>slab_lock = 7, current_slab_free_block_list = 0, next_slab_stick = 0, current_slab_free_space = 0\<rparr>),
     next_free = (\<lambda>_. 0)\<rparr>"
  have "request_a_slab_from_bbma ?s 3 6 = Inl Hang"
    by (rule slab_lock_uninitialised [of _ p bb]) (use p(1) at in \<open>simp_all add: classes_def\<close>)
  then show ?thesis using p(1) by (intro exI [of _ ?s] exI [of _ p] exI [of _ bb]) simp
qed

end
