(* ===== verification/Klib_String.thy ===== *)
theory Klib_String
  imports JYY_Prelude
begin

text \<open>
  The C library of the kernel, \<open>abstract-machine/klib/src/string.c\<close> and \<open>stdlib.c\<close>, over a
  memory of bytes. A \<open>char\<close> is signed on this target. Loops that run until a terminator is
  found need not end; their result is then \<open>Inl Hang\<close>.
\<close>

type_synonym mem = "addr \<Rightarrow> u8"

section \<open>Blocks of memory\<close>

fun memset_loop :: "mem \<Rightarrow> addr \<Rightarrow> u8 \<Rightarrow> nat \<Rightarrow> mem" where
  "memset_loop m p c 0 = m"
| "memset_loop m p c (Suc n) = memset_loop (m(p := c)) (p + 1) c n"

definition memset :: "mem \<Rightarrow> addr \<Rightarrow> int \<Rightarrow> nat \<Rightarrow> mem res" where
  "memset m s c n = (if s = 0 then Inl Assert else Inr (memset_loop m s (of_int c) n))"

fun copy_loop :: "mem \<Rightarrow> addr \<Rightarrow> addr \<Rightarrow> nat \<Rightarrow> mem" where
  "copy_loop m dst src 0 = m"
| "copy_loop m dst src (Suc n) = copy_loop (m(dst := m src)) (dst + 1) (src + 1) n"

definition memcpy :: "mem \<Rightarrow> addr \<Rightarrow> addr \<Rightarrow> nat \<Rightarrow> mem res" where
  "memcpy m out inp n = (if out = 0 \<or> inp = 0 then Inl Assert else Inr (copy_loop m out inp n))"

text \<open>
  \<open>memmove\<close> copies upwards when the destination is below the source. Otherwise its loop starts
  at \<open>n - 1\<close> and counts up as well (\<open>++i\<close>) while \<open>i >= 0\<close>, until the \<open>int\<close> overflows.
\<close>

function memmove_back :: "mem \<Rightarrow> addr \<Rightarrow> addr \<Rightarrow> int \<Rightarrow> mem res" where
  "memmove_back m dst src i =
    (if i < 0 then Inr m
     else if 2 ^ 31 - 1 \<le> i then Inl Undefined
     else memmove_back (m(dst + of_int i := m (src + of_int i))) dst src (i + 1))"
  by pat_completeness auto
termination
  by (relation "measure (\<lambda>(m, d, s, i). nat (2 ^ 31 - i))") auto

declare memmove_back.simps [simp del]

definition memmove :: "mem \<Rightarrow> addr \<Rightarrow> addr \<Rightarrow> nat \<Rightarrow> mem res" where
  "memmove m dst src n =
    (if dst = 0 \<or> src = 0 then Inl Assert
     else if dst > src then memmove_back m dst src (int n - 1)
     else Inr (copy_loop m dst src n))"

fun compare_loop :: "mem \<Rightarrow> addr \<Rightarrow> addr \<Rightarrow> nat \<Rightarrow> int" where
  "compare_loop m s1 s2 0 = 0"
| "compare_loop m s1 s2 (Suc n) =
    (if m s1 \<noteq> m s2 then sint (m s1) - sint (m s2) else compare_loop m (s1 + 1) (s2 + 1) n)"

definition memcmp :: "mem \<Rightarrow> addr \<Rightarrow> addr \<Rightarrow> nat \<Rightarrow> int res" where
  "memcmp m s1 s2 n = (if s1 = 0 \<or> s2 = 0 then Inl Assert else Inr (compare_loop m s1 s2 n))"

section \<open>Strings\<close>

partial_function (option) strlen_loop :: "mem \<Rightarrow> addr \<Rightarrow> nat \<Rightarrow> nat option" where
  "strlen_loop m p len = (if m p = 0 then Some len else strlen_loop m (p + 1) (len + 1))"

definition strlen :: "mem \<Rightarrow> addr \<Rightarrow> nat res" where
  "strlen m s = (if s = 0 then Inl Assert else
     case strlen_loop m s 0 of None \<Rightarrow> Inl Hang | Some len \<Rightarrow> Inr len)"

definition strncpy :: "mem \<Rightarrow> addr \<Rightarrow> addr \<Rightarrow> nat \<Rightarrow> mem res" where
  "strncpy m dst src n = (if dst = 0 \<or> src = 0 then Inl Assert
     else Inr ((copy_loop m dst src n)(dst + of_nat n := 0)))"

definition strcpy :: "mem \<Rightarrow> addr \<Rightarrow> addr \<Rightarrow> mem res" where
  "strcpy m dst src = (if dst = 0 \<or> src = 0 then Inl Assert
     else res_bind (strlen m src) (\<lambda>n. strncpy m dst src n))"

definition strcat :: "mem \<Rightarrow> addr \<Rightarrow> addr \<Rightarrow> mem res" where
  "strcat m dst src = (if dst = 0 \<or> src = 0 then Inl Assert
     else res_bind (strlen m dst) (\<lambda>n. strcpy m (dst + of_nat n) src))"

definition strncmp :: "mem \<Rightarrow> addr \<Rightarrow> addr \<Rightarrow> nat \<Rightarrow> int res" where
  "strncmp m s1 s2 n = (if s1 = 0 \<or> s2 = 0 then Inl Assert else Inr (compare_loop m s1 s2 n))"

definition strcmp :: "mem \<Rightarrow> addr \<Rightarrow> addr \<Rightarrow> int res" where
  "strcmp m s1 s2 = (if s1 = 0 \<or> s2 = 0 then Inl Assert
     else res_bind (strlen m s1) (\<lambda>len1. res_bind (strlen m s2) (\<lambda>len2.
       let n = (if len1 < len2 then len1 else len2) in strncmp m s1 s2 (n + 1))))"

definition strtok :: "mem \<Rightarrow> addr \<Rightarrow> addr \<Rightarrow> addr res" where
  "strtok m s delim = Inl (Panic ''Not implemented'')"
definition strstr :: "mem \<Rightarrow> addr \<Rightarrow> addr \<Rightarrow> addr res" where
  "strstr m str1 str2 = Inl (Panic ''Not implemented'')"
definition strchr :: "mem \<Rightarrow> addr \<Rightarrow> int \<Rightarrow> addr res" where
  "strchr m s c = Inl (Panic ''Not implemented'')"
definition strrchr :: "mem \<Rightarrow> addr \<Rightarrow> int \<Rightarrow> addr res" where
  "strrchr m s c = Inl (Panic ''Not implemented'')"

section \<open>Numbers\<close>

text \<open>The generator's state is the file-scope \<open>next\<close>.\<close>

definition rand :: "u64 \<Rightarrow> int \<times> u64" where
  "rand nxt = (let nxt' = nxt * 1103515245 + 12345;
                   r = (ucast (nxt' div 65536) :: u32) mod 32768
               in (uint r, nxt'))"

definition srand :: "u32 \<Rightarrow> u64" where "srand seed = ucast seed"

definition abs_int :: "int \<Rightarrow> int res" where
  "abs_int x = (if x < 0 then (if x = - (2 ^ 31) then Inl Undefined else Inr (- x)) else Inr x)"

partial_function (option) skip_blanks :: "mem \<Rightarrow> addr \<Rightarrow> addr option" where
  "skip_blanks m p = (if m p = 32 then skip_blanks m (p + 1) else Some p)"

text \<open>The digits are accumulated in an \<open>int\<close>; leaving its range is undefined.\<close>

partial_function (option) atoi_loop :: "mem \<Rightarrow> addr \<Rightarrow> int \<Rightarrow> int res option" where
  "atoi_loop m p x =
    (if 48 \<le> sint (m p) \<and> sint (m p) \<le> 57 then
       (let x' = x * 10 + sint (m p) - 48 in
        if x * 10 + sint (m p) < 2 ^ 31 then atoi_loop m (p + 1) x' else Some (Inl Undefined))
     else Some (Inr x))"

definition atoi :: "mem \<Rightarrow> addr \<Rightarrow> int res" where
  "atoi m nptr = (case skip_blanks m nptr of None \<Rightarrow> Inl Hang
     | Some p \<Rightarrow> (case atoi_loop m p 0 of None \<Rightarrow> Inl Hang | Some r \<Rightarrow> r))"

definition malloc :: "nat \<Rightarrow> addr res" where "malloc n = Inl (Panic ''Not implemented'')"

text \<open>\<open>free\<close> does nothing.\<close>

definition free :: "mem \<Rightarrow> addr \<Rightarrow> mem" where "free m p = m"

section \<open>What they compute\<close>

text \<open>The string \<open>s\<close> (without its terminator) is stored at \<open>p\<close>.\<close>

fun cstr :: "mem \<Rightarrow> addr \<Rightarrow> u8 list \<Rightarrow> bool" where
  "cstr m p [] \<longleftrightarrow> m p = 0"
| "cstr m p (c # s) \<longleftrightarrow> m p = c \<and> c \<noteq> 0 \<and> cstr m (p + 1) s"

lemma cstr_unique: "cstr m p s \<Longrightarrow> cstr m p t \<Longrightarrow> s = t"
proof (induction s arbitrary: p t)
  case Nil
  then show ?case by (cases t) auto
next
  case (Cons c s)
  then show ?case by (cases t) auto
qed

lemma strlen_loop_cstr: "cstr m p s \<Longrightarrow> strlen_loop m p n = Some (n + length s)"
  by (induction s arbitrary: p n) (subst strlen_loop.simps, simp)+

lemma strlen_cstr: "cstr m p s \<Longrightarrow> p \<noteq> 0 \<Longrightarrow> strlen m p = Inr (length s)"
  by (simp add: strlen_def strlen_loop_cstr)

text \<open>The cells of a block of \<open>n\<close> bytes.\<close>

definition cells :: "addr \<Rightarrow> nat \<Rightarrow> addr set" where
  "cells p n = (\<lambda>i. p + of_nat i) ` {..<n}"

lemma cells_0 [simp]: "cells p 0 = {}"
  by (simp add: cells_def)

lemma cells_Suc: "cells p (Suc n) = insert p (cells (p + 1) n)"
proof -
  have "{..<Suc n} = insert 0 (Suc ` {..<n})" by (rule lessThan_Suc_eq_insert_0)
  then show ?thesis by (simp add: cells_def image_image add.assoc)
qed

lemma copy_loop_outside: "a \<notin> cells dst n \<Longrightarrow> copy_loop m dst src n a = m a"
  by (induction m dst src n rule: copy_loop.induct) (auto simp: cells_Suc)

lemma memset_loop_eq: "n < 2 ^ 64 \<Longrightarrow> memset_loop m p c n a = (if a \<in> cells p n then c else m a)"
  by (induction m p c n rule: memset_loop.induct) (auto simp: cells_Suc)

lemma cells_fresh: "n < 2 ^ 64 \<Longrightarrow> p \<notin> cells (p + 1) n"
proof
  assume n: "n < 2 ^ 64" and "p \<in> cells (p + 1) n"
  then obtain i where i: "i < n" "p = p + 1 + of_nat i" by (auto simp: cells_def)
  then have "(of_nat (Suc i) :: u64) = 0" by simp
  moreover have "unat (of_nat (Suc i) :: u64) = Suc i" using i n by (intro unat_of_nat_small) simp
  ultimately show False by simp
qed

lemma copy_loop_inside:
  "n < 2 ^ 64 \<Longrightarrow> cells dst n \<inter> cells src n = {} \<Longrightarrow> i < n \<Longrightarrow>
     copy_loop m dst src n (dst + of_nat i) = m (src + of_nat i)"
proof (induction m dst src n arbitrary: i rule: copy_loop.induct)
  case (2 m dst src n)
  have disj: "cells (dst + 1) n \<inter> cells (src + 1) n = {}" "dst \<notin> cells (src + 1) n"
    using "2.prems"(2) by (auto simp: cells_Suc)
  show ?case
  proof (cases i)
    case 0
    then show ?thesis using cells_fresh [of n dst] "2.prems"(1) by (simp add: copy_loop_outside)
  next
    case (Suc j)
    then have j: "j < n" using "2.prems"(3) by simp
    have "copy_loop (m(dst := m src)) (dst + 1) (src + 1) n (dst + 1 + of_nat j) =
        (m(dst := m src)) (src + 1 + of_nat j)"
      using "2.IH" [OF _ disj(1) j] "2.prems"(1) by (simp add: fun_upd_def)
    moreover have "src + 1 + of_nat j \<in> cells (src + 1) n" using j by (auto simp: cells_def)
    then have "src + 1 + of_nat j \<noteq> dst" using disj(2) by auto
    ultimately show ?thesis using Suc by (simp add: add.assoc)
  qed
qed simp

lemma cstr_iff:
  "cstr m p s \<longleftrightarrow> (\<forall>i < length s. m (p + of_nat i) = s ! i \<and> s ! i \<noteq> 0) \<and> m (p + of_nat (length s)) = 0"
proof (induction s arbitrary: p)
  case (Cons c s)
  then show ?case by (auto simp: nth_Cons add.assoc split: nat.splits)
qed simp

text \<open>
  C21: \<open>strcpy\<close>: copying a string to a place that does not overlap it returns, stores the
  string with its terminator at the destination, and changes no other byte.
\<close>

theorem strcpy_correct:
  assumes s: "cstr m src s" and "src \<noteq> 0" and "dst \<noteq> 0" and len: "length s + 1 < 2 ^ 64"
    and apart: "cells dst (length s + 1) \<inter> cells src (length s + 1) = {}"
  shows "\<exists>m'. strcpy m dst src = Inr m' \<and> cstr m' dst s \<and> cstr m' src s \<and>
     (\<forall>a. a \<notin> cells dst (length s + 1) \<longrightarrow> m' a = m a)"
proof -
  let ?n = "length s"
  let ?m = "(copy_loop m dst src ?n)(dst + of_nat ?n := 0)"
  have sub: "cells q ?n \<subseteq> cells q (?n + 1)" "q + of_nat ?n \<in> cells q (?n + 1)" for q
    by (auto simp: cells_def)
  have out: "?m a = m a" if "a \<notin> cells dst (?n + 1)" for a
  proof -
    have "a \<notin> cells dst ?n" "a \<noteq> dst + of_nat ?n" using that sub by auto
    then show ?thesis by (simp add: copy_loop_outside)
  qed
  have ne: "dst + of_nat i \<noteq> dst + of_nat ?n" if "i < ?n" for i
  proof
    assume "dst + of_nat i = dst + of_nat ?n"
    then have "(of_nat i :: u64) = of_nat ?n" by simp
    then have "unat (of_nat i :: u64) = unat (of_nat ?n :: u64)" by (rule arg_cong)
    moreover have "unat (of_nat i :: u64) = i" "unat (of_nat ?n :: u64) = ?n"
      using that len by (auto intro: unat_of_nat_small)
    ultimately show False using that by simp
  qed
  have disj: "cells dst ?n \<inter> cells src ?n = {}" using apart sub by blast
  have "cstr ?m dst s"
    using s copy_loop_inside [of ?n dst src _ m] len disj ne unfolding cstr_iff by auto
  moreover have "?m (src + of_nat i) = m (src + of_nat i)" if "i \<le> ?n" for i
  proof -
    have "src + of_nat i \<in> cells src (?n + 1)" using that by (auto simp: cells_def)
    then show ?thesis using apart out by blast
  qed
  then have "cstr ?m src s" using s unfolding cstr_iff by (metis less_imp_le order_refl)
  moreover have "strcpy m dst src = Inr ?m"
    using assms(2,3) strlen_cstr [OF s] by (simp add: strcpy_def strncpy_def)
  ultimately show ?thesis using out by blast
qed

theorem strcpy_correct_witness:
  "\<exists>m'. strcpy ((\<lambda>_. 7)(0x100 := 72, 0x101 := 105, 0x102 := 0)) 0x200 0x100 = Inr m' \<and> cstr m' 0x200 [72, 105]"
proof -
  let ?m = "(\<lambda>_ :: addr. 7 :: u8)(0x100 := 72, 0x101 := 105, 0x102 := 0)"
  have "cstr ?m 0x100 [72, 105]" by simp
  moreover have "cells 0x200 3 \<inter> cells 0x100 3 = {}" by (simp add: cells_def lessThan_Suc numeral_3_eq_3)
  ultimately show ?thesis using strcpy_correct [of ?m "0x100" "[72, 105]" "0x200"] by (auto simp: numeral_3_eq_3)
qed

text \<open>Comparing two strings looks at the first position where they differ.\<close>

definition first_diff :: "u8 list \<Rightarrow> u8 list \<Rightarrow> int" where
  "first_diff s t = (let i = length (takeWhile (\<lambda>(a, b). a = b) (zip (s @ [0]) (t @ [0]))) in
     if i < min (length s) (length t) + 1 then sint ((s @ [0]) ! i) - sint ((t @ [0]) ! i) else 0)"

lemma first_diff_Cons: "first_diff (a # s) (b # t) = (if a = b then first_diff s t else sint a - sint b)"
  by (simp add: first_diff_def Let_def)

lemma first_diff_Nil: "first_diff [] t = (if t = [] then 0 else - sint (hd t))" if "\<forall>c \<in> set t. c \<noteq> 0"
  using that by (cases t) (auto simp: first_diff_def)

lemma first_diff_Nil2: "first_diff s [] = (if s = [] then 0 else sint (hd s))" if "\<forall>c \<in> set s. c \<noteq> 0"
  using that by (cases s) (auto simp: first_diff_def)

lemma cstr_nonzero: "cstr m p s \<Longrightarrow> c \<in> set s \<Longrightarrow> c \<noteq> 0"
  by (induction s arbitrary: p) auto

lemma compare_cstr:
  "cstr m p s \<Longrightarrow> cstr m q t \<Longrightarrow> compare_loop m p q (min (length s) (length t) + 1) = first_diff s t"
proof (induction s arbitrary: p q t)
  case Nil
  then show ?case using first_diff_Nil [of t] cstr_nonzero [OF Nil(2)] by (cases t) auto
next
  case (Cons c s)
  then show ?case
    using first_diff_Nil2 [of "c # s"] cstr_nonzero [OF Cons.prems(1)]
    by (cases t) (auto simp: first_diff_Cons)
qed

lemma strcmp_cstr:
  "cstr m p s \<Longrightarrow> cstr m q t \<Longrightarrow> p \<noteq> 0 \<Longrightarrow> q \<noteq> 0 \<Longrightarrow> strcmp m p q = Inr (first_diff s t)"
proof -
  assume a: "cstr m p s" "cstr m q t" "p \<noteq> 0" "q \<noteq> 0"
  have "(if length s < length t then length s else length t) = min (length s) (length t)" by (simp add: min_def)
  then show ?thesis
    using a compare_cstr [OF a(1,2)] strlen_cstr [OF a(1,3)] strlen_cstr [OF a(2,4)]
    by (simp add: strcmp_def strncmp_def del: compare_loop.simps)
qed

lemma sint_eq_0 [simp]: "sint (c :: u8) = 0 \<longleftrightarrow> c = 0"
  by (metis signed_0 signed_word_eqI)

lemma first_diff_zero: "\<forall>c \<in> set s. c \<noteq> 0 \<Longrightarrow> \<forall>c \<in> set t. c \<noteq> 0 \<Longrightarrow> first_diff s t = 0 \<longleftrightarrow> s = t"
proof (induction s arbitrary: t)
  case Nil
  then show ?case using first_diff_Nil [of t] by (cases t) auto
next
  case (Cons c s)
  show ?case
  proof (cases t)
    case Nil
    then show ?thesis using first_diff_Nil2 [of "c # s"] Cons.prems by auto
  next
    case (Cons d t')
    have "sint c - sint d = 0 \<longleftrightarrow> c = d" by (metis cancel_comm_monoid_add_class.diff_cancel eq_iff_diff_eq_0 signed_word_eqI)
    then show ?thesis using Cons Cons.IH [of t'] Cons.prems by (auto simp: first_diff_Cons)
  qed
qed

text \<open>
  \<open>strcmp\<close>: on two strings it returns 0 exactly when they are equal, and otherwise the
  difference of the first pair of (signed) characters that differ.
\<close>

theorem strcmp_correct:
  assumes "cstr m p s" and "cstr m q t" and "p \<noteq> 0" and "q \<noteq> 0"
  shows "\<exists>r. strcmp m p q = Inr r \<and> r = first_diff s t \<and> (r = 0 \<longleftrightarrow> s = t)"
  using strcmp_cstr [OF assms] first_diff_zero [of s t] cstr_nonzero [OF assms(1)] cstr_nonzero [OF assms(2)]
  by auto

theorem strcmp_correct_witness:
  "\<exists>r. strcmp ((\<lambda>_. 0)(0x10 := 97, 0x20 := 97, 0x21 := 98)) 0x10 0x20 = Inr r \<and> r = - 98"
proof -
  let ?m = "(\<lambda>_ :: addr. 0 :: u8)(0x10 := 97, 0x20 := 97, 0x21 := 98)"
  have "first_diff [97] [97, 98] = - 98" by (simp add: first_diff_def)
  then show ?thesis using strcmp_correct [of ?m "0x10" "[97]" "0x20" "[97, 98]"] by simp
qed

lemma memmove_back_undefined: "0 \<le> i \<Longrightarrow> memmove_back m dst src i = Inl Undefined"
proof (induction m dst src i rule: memmove_back.induct)
  case (1 m dst src i)
  then show ?case by (subst memmove_back.simps) (auto simp: fun_upd_def)
qed

text \<open>
  \<open>memmove\<close> with the destination above the source does not return for any positive
  length: its loop counts away from its end condition and leaves the range of \<open>int\<close>.
\<close>

theorem memmove_up_undefined:
  assumes "dst > src" and "src \<noteq> 0" and "0 < n"
  shows "memmove m dst src n = Inl Undefined"
  using assms memmove_back_undefined [of "int n - 1"] by (auto simp: memmove_def)

theorem memmove_up_undefined_witness: "memmove (\<lambda>_. 0) 8 4 2 = Inl Undefined"
  by (rule memmove_up_undefined) simp_all

end
