(* ===== verification/Klib_Stdio.thy ===== *)
theory Klib_Stdio
  imports Klib_String Lock_Align
begin

text \<open>
  Formatted output of the kernel's C library, \<open>abstract-machine/klib/src/stdio.c\<close>. A
  formatted text is the list of the bytes written before the terminator. The variable
  arguments are a list of values; taking one of another type than the caller passed, or one
  more than it passed, is undefined.
\<close>

section \<open>Numbers as text\<close>

definition digit_char :: "nat \<Rightarrow> u8" where
  "digit_char d = (if d < 10 then of_nat (48 + d) else of_nat (55 + d))"

text \<open>
  The loop of \<open>_itos\<close>, which writes digits backwards; \<open>acc\<close> is what has been written.
  \<open>length\<close> is the least number of digits, or negative for no padding. A base below 2 does not
  occur; the division would not shrink the value.
\<close>

function itos_loop :: "nat \<Rightarrow> nat \<Rightarrow> int \<Rightarrow> u8 list \<Rightarrow> u8 list res" where
  "itos_loop val base len acc =
    (if base < 2 then Inl Undefined
     else if \<not> (val \<noteq> 0 \<or> len \<noteq> 0) then Inr acc
     else if val = 0 \<and> len < 0 then Inr acc
     else itos_loop (val div base) base (len - 1) (digit_char (val mod base) # acc))"
  by pat_completeness auto
termination
proof (relation "measure (\<lambda>(val, base, len, acc). val + nat len)")
  fix val base :: nat and len :: int and acc :: "u8 list"
  assume a: "\<not> base < 2" "\<not> \<not> (val \<noteq> 0 \<or> len \<noteq> 0)" "\<not> (val = 0 \<and> len < 0)"
  have "nat (len - 1) \<le> nat len" by simp
  moreover have "val \<noteq> 0 \<Longrightarrow> val div base < val" using a(1) by (intro div_less_dividend) auto
  ultimately have "val div base + nat (len - 1) < val + nat len" using a(2,3) by (cases "val = 0") auto
  then show "((val div base, base, len - 1, digit_char (val mod base) # acc), val, base, len, acc)
      \<in> measure (\<lambda>(val, base, len, acc). val + nat len)" by simp
qed auto

declare itos_loop.simps [simp del]

definition itos :: "u64 \<Rightarrow> nat \<Rightarrow> int \<Rightarrow> u8 list res" where
  "itos val base len = res_bind (itos_loop (unat val) base len []) (\<lambda>ds.
     Inr (if base = 16 then 48 # 120 # ds else ds))"

section \<open>Formatting\<close>

datatype varg = IntArg u32 | StrArg "u8 list" | PtrArg u64

fun int_arg :: "varg list \<Rightarrow> (u32 \<times> varg list) res" where
  "int_arg (IntArg i # as) = Inr (i, as)"
| "int_arg as = Inl Undefined"

fun str_arg :: "varg list \<Rightarrow> (u8 list \<times> varg list) res" where
  "str_arg (StrArg s # as) = Inr (s, as)"
| "str_arg as = Inl Undefined"

fun ptr_arg :: "varg list \<Rightarrow> (u64 \<times> varg list) res" where
  "ptr_arg (PtrArg p # as) = Inr (p, as)"
| "ptr_arg as = Inl Undefined"

text \<open>The case for \<open>d\<close>, \<open>u\<close> and \<open>l\<close>: the value is held in an \<open>unsigned int\<close>, so it is never below 0.\<close>

definition fmt_int :: "u32 \<Rightarrow> u8 list res" where
  "fmt_int i =
    (if i = 0 then Inr [48]
     else let (i', sign) = (if i < 0 then (- i, [45]) else (i, [])) in
       res_bind (itos (ucast i') 10 (-1)) (\<lambda>ds. Inr (sign @ ds)))"

text \<open>
  The loop over the format. After \<open>%\<close> at the end of the format the loop steps over the
  terminator.
\<close>

fun vsprintf_loop :: "u8 list \<Rightarrow> varg list \<Rightarrow> u8 list res" where
  "vsprintf_loop [] as = Inr []"
| "vsprintf_loop (c # fmt) as =
    (if c \<noteq> 37 then res_bind (vsprintf_loop fmt as) (\<lambda>out. Inr (c # out))
     else (case fmt of [] \<Rightarrow> Inl Undefined
       | d # fmt1 \<Rightarrow>
         if d = 99 then
           res_bind (int_arg as) (\<lambda>(i, as1).
           res_bind (vsprintf_loop fmt1 as1) (\<lambda>out. Inr (ucast i # out)))
         else if d = 108 then
           (case fmt1 of [] \<Rightarrow> Inl Undefined
            | _ # fmt2 \<Rightarrow>
              res_bind (int_arg as) (\<lambda>(i, as1). res_bind (fmt_int i) (\<lambda>ds.
              res_bind (vsprintf_loop fmt2 as1) (\<lambda>out. Inr (ds @ out)))))
         else if d = 100 \<or> d = 117 then
           res_bind (int_arg as) (\<lambda>(i, as1). res_bind (fmt_int i) (\<lambda>ds.
           res_bind (vsprintf_loop fmt1 as1) (\<lambda>out. Inr (ds @ out))))
         else if d = 115 then
           res_bind (str_arg as) (\<lambda>(s, as1).
           res_bind (vsprintf_loop fmt1 as1) (\<lambda>out. Inr (s @ out)))
         else if d = 112 then
           res_bind (ptr_arg as) (\<lambda>(p, as1). res_bind (itos p 16 8) (\<lambda>ds.
           res_bind (vsprintf_loop fmt1 as1) (\<lambda>out. Inr (ds @ out))))
         else res_bind (vsprintf_loop fmt1 as) (\<lambda>out. Inr (63 # out))))"

text \<open>
  The text with its terminator is stored from \<open>out\<close> on; the number returned counts the
  terminator.
\<close>

fun store :: "mem \<Rightarrow> addr \<Rightarrow> u8 list \<Rightarrow> mem" where
  "store m p [] = m"
| "store m p (c # cs) = store (m(p := c)) (p + 1) cs"

definition vsprintf :: "mem \<Rightarrow> addr \<Rightarrow> u8 list \<Rightarrow> varg list \<Rightarrow> (int \<times> mem) res" where
  "vsprintf m out fmt as = res_bind (vsprintf_loop fmt as) (\<lambda>txt.
     Inr (int (length txt) + 1, store m out (txt @ [0])))"

definition sprintf :: "mem \<Rightarrow> addr \<Rightarrow> u8 list \<Rightarrow> varg list \<Rightarrow> (int \<times> mem) res" where
  "sprintf m out fmt as = vsprintf m out fmt as"

text \<open>
  \<open>snprintf\<close> formats into the buffer \<open>pbuf\<close> of 1024 bytes, whose end it does not check, and
  copies the bytes; \<open>pbuf\<close> is the address of the buffer.
\<close>

definition PBUF_MAX_SIZE :: nat where "PBUF_MAX_SIZE = 1024"

definition snprintf :: "mem \<Rightarrow> addr \<Rightarrow> addr \<Rightarrow> nat \<Rightarrow> u8 list \<Rightarrow> varg list \<Rightarrow> (int \<times> mem) res" where
  "snprintf m pbuf out n fmt as =
    res_bind (vsprintf_loop fmt as) (\<lambda>txt.
      if PBUF_MAX_SIZE < length txt + 1 then Inl Undefined
      else
        let m1 = store m pbuf (txt @ [0]);
            ret = (if length txt + 1 > n then n else length txt + 1)
        in if \<not> ret < PBUF_MAX_SIZE then Inl Assert
        else res_bind (strncpy m1 out pbuf ret) (\<lambda>m2.
          Inr (int ret, m2(out + of_nat ret := 0))))"

definition vsnprintf :: "mem \<Rightarrow> addr \<Rightarrow> nat \<Rightarrow> u8 list \<Rightarrow> varg list \<Rightarrow> (int \<times> mem) res" where
  "vsnprintf m out n fmt as = Inl (Panic ''Not implemented'')"

section \<open>Printing\<close>

text \<open>
  \<open>printf\<close> formats into a buffer of 2048 bytes on its stack and takes \<open>lock_print\<close> with
  interrupts off: the loop exchanges \<open>val\<close> with the lock until it gets 0. On one CPU with
  nobody to release the lock it never does.
\<close>

record console =
  lock_print :: int
  con_out :: "u8 list"
  con_intr :: bool

definition printf :: "console \<Rightarrow> u8 list \<Rightarrow> varg list \<Rightarrow> (int \<times> console) res" where
  "printf s fmt as =
    res_bind (vsprintf_loop fmt as) (\<lambda>buffer.
      if 2048 < length buffer + 1 then Inl Undefined
      else
        let itr = con_intr s; s1 = s\<lparr>con_intr := False\<rparr>;
            (val, lk) = atomic_xchg (lock_print s1) 1
        in if val \<noteq> 0 then Inl Hang
        else let s2 = s1\<lparr>lock_print := lk, con_out := con_out s1 @ buffer\<rparr>;
                 (_, lk') = atomic_xchg (lock_print s2) val
             in Inr (0, s2\<lparr>lock_print := lk', con_intr := itr\<rparr>))"

section \<open>Correctness\<close>

text \<open>Reading digits back, most significant first.\<close>

definition char_digit :: "u8 \<Rightarrow> nat" where
  "char_digit c = (if unat c < 58 then unat c - 48 else unat c - 55)"

fun value_of :: "nat \<Rightarrow> nat \<Rightarrow> u8 list \<Rightarrow> nat" where
  "value_of base v [] = v"
| "value_of base v (c # cs) = value_of base (v * base + char_digit c) cs"

lemma char_digit_char: "d < 16 \<Longrightarrow> char_digit (digit_char d) = d"
proof -
  assume d: "d < 16"
  have "unat (of_nat (48 + d) :: u8) = 48 + d" "unat (of_nat (55 + d) :: u8) = 55 + d"
    using d by (intro unat_of_nat_small; simp)+
  then show ?thesis using d by (simp add: char_digit_def digit_char_def)
qed

lemma value_of_append: "value_of base v (xs @ ys) = value_of base (value_of base v xs) ys"
  by (induction xs arbitrary: v) auto

lemma itos_loop_value:
  "2 \<le> base \<Longrightarrow> base \<le> 16 \<Longrightarrow>
     \<exists>ds. itos_loop val base len acc = Inr (ds @ acc) \<and> value_of base 0 ds = val \<and>
       (0 < val \<longrightarrow> ds \<noteq> []) \<and> (0 \<le> len \<longrightarrow> nat len \<le> length ds)"
proof (induction val base len acc rule: itos_loop.induct)
  case (1 val base len acc)
  show ?case
  proof (cases "(val \<noteq> 0 \<or> len \<noteq> 0) \<and> \<not> (val = 0 \<and> len < 0)")
    case False
    then show ?thesis using "1.prems" by (subst itos_loop.simps) auto
  next
    case True
    obtain ds where ds: "itos_loop (val div base) base (len - 1) (digit_char (val mod base) # acc) =
        Inr (ds @ digit_char (val mod base) # acc)" "value_of base 0 ds = val div base"
        "0 \<le> len - 1 \<longrightarrow> nat (len - 1) \<le> length ds"
      using "1.IH" True "1.prems" by auto
    have "val mod base < 16" using "1.prems" by (intro less_le_trans [OF mod_less_divisor]) auto
    then have "value_of base 0 (ds @ [digit_char (val mod base)]) = val"
      using ds(2) by (simp add: value_of_append char_digit_char)
    then show ?thesis
      using ds(1,3) True "1.prems"
      by (intro exI [of _ "ds @ [digit_char (val mod base)]"]) (subst itos_loop.simps, auto)
  qed
qed

lemma fmt_int_digits:
  "\<exists>ds. fmt_int i = Inr ds \<and> ds \<noteq> [] \<and> value_of 10 0 ds = unat i"
proof (cases "i = 0")
  case True
  then show ?thesis by (simp add: fmt_int_def char_digit_def)
next
  case False
  then have pos: "0 < unat i" by (simp add: unat_gt_0)
  obtain ds where ds: "itos_loop (unat i) 10 (-1) [] = Inr ds" "value_of 10 0 ds = unat i" "0 < unat i \<longrightarrow> ds \<noteq> []"
    using itos_loop_value [of 10 "unat i" "-1" "[]"] by auto
  have "unat (ucast i :: u64) = unat i" by (intro unat_ucast_up) simp
  then show ?thesis using False ds pos by (simp add: fmt_int_def itos_def)
qed


text \<open>
  Literal text: a format without \<open>%\<close> is written as it is, followed by its terminator,
  and the number returned is one more than its length.
\<close>

lemma vsprintf_literal:
  assumes "37 \<notin> set fmt"
  shows "vsprintf m out fmt as = Inr (int (length fmt) + 1, store m out (fmt @ [0]))"
proof -
  have "vsprintf_loop fmt as = Inr fmt"
    using assms by (induction fmt as rule: vsprintf_loop.induct) auto
  then show ?thesis by (simp add: vsprintf_def)
qed

text \<open>A text that does not fit: \<open>snprintf\<close> stores a byte behind the \<open>n\<close> bytes it was given.\<close>

lemma snprintf_overruns:
  assumes "vsprintf_loop fmt as = Inr txt" and "n \<le> length txt" and "length txt < 1024" and "out \<noteq> 0" and "pbuf \<noteq> 0"
    and "n < 1024"
  shows "\<exists>m'. snprintf m pbuf out n fmt as = Inr (int n, m') \<and> m' (out + of_nat n) = 0"
  using assms by (simp add: snprintf_def PBUF_MAX_SIZE_def strncpy_def)

end
