(* ===== verification/Cte.thy ===== *)
theory Cte
  imports Klib_String
begin

text \<open>
  The context and trap layer of the machine the kernel runs on: the saved processor context
  (\<open>abstract-machine/am/include/arch/x86_64-qemu.h\<close>), the events of
  \<open>abstract-machine/am/include/am.h\<close>, the trap entry, \<open>kcontext\<close> and the interrupt flag of
  \<open>abstract-machine/am/src/x86/qemu/cte.c\<close>, and \<open>ucontext\<close> of \<open>vme.c\<close> there.
\<close>

section \<open>Contexts\<close>

record regs =
  cr3 :: addr
  rax :: u64
  rbx :: u64
  rcx :: u64
  rdx :: u64
  rbp :: u64
  rsi :: u64
  rdi :: u64
  r8 :: u64
  r9 :: u64
  r10 :: u64
  r11 :: u64
  r12 :: u64
  r13 :: u64
  r14 :: u64
  r15 :: u64
  rip :: u64
  cs :: u64
  rflags :: u64
  rsp :: u64
  ss :: u64
  rsp0 :: u64

text \<open>22 words of 8 bytes.\<close>

definition CONTEXT_SIZE :: addr where "CONTEXT_SIZE = 176"

definition context_zero :: regs where
  "context_zero = \<lparr>cr3 = 0, rax = 0, rbx = 0, rcx = 0, rdx = 0, rbp = 0, rsi = 0, rdi = 0,
     r8 = 0, r9 = 0, r10 = 0, r11 = 0, r12 = 0, r13 = 0, r14 = 0, r15 = 0,
     rip = 0, cs = 0, rflags = 0, rsp = 0, ss = 0, rsp0 = 0\<rparr>"

definition DPL_KERN :: u64 where "DPL_KERN = 0"
definition DPL_USER :: u64 where "DPL_USER = 3"
definition KSEL :: "u64 \<Rightarrow> u64" where "KSEL seg = push_bit 3 seg OR DPL_KERN"
definition USEL :: "u64 \<Rightarrow> u64" where "USEL seg = push_bit 3 seg OR DPL_USER"
definition FL_IF :: u64 where "FL_IF = 0x200"
definition SEG_KCODE :: u64 where "SEG_KCODE = 1"
definition SEG_UCODE :: u64 where "SEG_UCODE = 3"
definition SEG_UDATA :: u64 where "SEG_UDATA = 4"

text \<open>
  A new kernel context sits at the end of the stack. \<open>start\<close> is the address of the assembly
  routine \<open>__am_kcontext_start\<close>, which calls the entry with its argument.
\<close>

definition kcontext :: "addr \<Rightarrow> addr \<Rightarrow> addr \<Rightarrow> addr \<Rightarrow> addr \<times> regs" where
  "kcontext start kstack_end entry arg =
    (kstack_end - CONTEXT_SIZE,
     context_zero\<lparr>cs := KSEL SEG_KCODE, rip := start, rflags := FL_IF, rsp := kstack_end,
       rdi := arg, rsi := entry\<rparr>)"

text \<open>The user area of the address space, \<open>uvm_area\<close> of \<open>vme.c\<close>.\<close>

definition uvm_start :: addr where "uvm_start = 0x100000000000"
definition uvm_end :: addr where "uvm_end = 0x108000000000"

definition ucontext :: "addr \<Rightarrow> addr \<Rightarrow> addr \<Rightarrow> addr \<times> regs" where
  "ucontext as_ptr kstack_end entry =
    (kstack_end - CONTEXT_SIZE,
     context_zero\<lparr>cs := USEL SEG_UCODE, ss := USEL SEG_UDATA, rip := entry, rflags := FL_IF,
       rsp := uvm_end, rsp0 := kstack_end, cr3 := as_ptr\<rparr>)"

section \<open>Events\<close>

datatype event_kind = EVENT_NULL | EVENT_YIELD | EVENT_SYSCALL | EVENT_PAGEFAULT | EVENT_ERROR
  | EVENT_IRQ_TIMER | EVENT_IRQ_IODEV

record event =
  event :: event_kind
  cause :: u64
  ref :: addr
  msg :: string

definition MMAP_NONE :: u64 where "MMAP_NONE = 0"
definition MMAP_READ :: u64 where "MMAP_READ = 1"
definition MMAP_WRITE :: u64 where "MMAP_WRITE = 2"

section \<open>The trap entry\<close>

record trap_frame =
  saved_context :: regs
  tf_irq :: u64
  errcode :: u64
  tf_rip :: u64
  tf_cs :: u64
  tf_rflags :: u64
  tf_rsp :: u64
  tf_ss :: u64

text \<open>The event a trap number stands for; \<open>cr2\<close> is the faulting address.\<close>

definition irq_event :: "u64 \<Rightarrow> u64 \<Rightarrow> addr \<Rightarrow> event" where
  "irq_event irq err cr2 =
    (if irq = 32 + 0 then \<lparr>event = EVENT_IRQ_TIMER, cause = 0, ref = 0, msg = ''timer interrupt (lapic)''\<rparr>
     else if irq = 32 + 1 then \<lparr>event = EVENT_IRQ_IODEV, cause = 0, ref = 0, msg = ''I/O device IRQ1 (keyboard)''\<rparr>
     else if irq = 32 + 4 then \<lparr>event = EVENT_IRQ_IODEV, cause = 0, ref = 0, msg = ''I/O device IRQ4 (COM1)''\<rparr>
     else if irq = 0x80 then \<lparr>event = EVENT_SYSCALL, cause = 0, ref = 0, msg = ''int $0x80 system call''\<rparr>
     else if irq = 0x81 then \<lparr>event = EVENT_YIELD, cause = 0, ref = 0, msg = ''int $0x81 yield''\<rparr>
     else if irq = 0 then \<lparr>event = EVENT_ERROR, cause = 0, ref = 0, msg = ''DE #0 divide by zero''\<rparr>
     else if irq = 6 then \<lparr>event = EVENT_ERROR, cause = 0, ref = 0, msg = ''UD #6 invalid opcode''\<rparr>
     else if irq = 7 then \<lparr>event = EVENT_ERROR, cause = 0, ref = 0, msg = ''NM #7 coprocessor error''\<rparr>
     else if irq = 8 then \<lparr>event = EVENT_ERROR, cause = 0, ref = 0, msg = ''DF #8 double fault''\<rparr>
     else if irq = 10 then \<lparr>event = EVENT_ERROR, cause = 0, ref = 0, msg = ''TS #10 invalid TSS''\<rparr>
     else if irq = 11 then \<lparr>event = EVENT_ERROR, cause = 0, ref = 0, msg = ''NP #11 segment/gate not present''\<rparr>
     else if irq = 12 then \<lparr>event = EVENT_ERROR, cause = 0, ref = 0, msg = ''SS #12 stack fault''\<rparr>
     else if irq = 13 then \<lparr>event = EVENT_ERROR, cause = 0, ref = 0, msg = ''GP #13, general protection fault''\<rparr>
     else if irq = 14 then
       \<lparr>event = EVENT_PAGEFAULT,
         cause = (let c0 = (if err AND 1 \<noteq> 0 then 0 OR MMAP_NONE else 0) in
                  if err AND 2 \<noteq> 0 then c0 OR MMAP_WRITE else c0 OR MMAP_READ),
         ref = cr2, msg = ''PF #14, page fault, @cause: PROT_XXX''\<rparr>
     else \<lparr>event = EVENT_ERROR, cause = err, ref = 0, msg = ''unrecognized interrupt/exception''\<rparr>)"

text \<open>
  \<open>__am_irq_handle\<close>: the registers the processor pushed are stored in the saved context, the
  handler is called with the address of the saved context, and the context it returns is
  resumed. \<open>cr3_now\<close>, \<open>cr2\<close> and \<open>rsp0_now\<close> are the machine registers, \<open>eoi\<close> in the
  result says that the interrupt controller was acknowledged; \<open>user_handler\<close> works on the
  kernel's state and returns the address of a context, \<open>read\<close> reads a context there.
\<close>

definition irq_save :: "trap_frame \<Rightarrow> addr \<Rightarrow> u64 \<Rightarrow> regs" where
  "irq_save tf cr3_now rsp0_now =
    (saved_context tf)\<lparr>rip := tf_rip tf, cs := tf_cs tf, rflags := tf_rflags tf, rsp := tf_rsp tf,
       rsp0 := rsp0_now, ss := tf_ss tf, cr3 := cr3_now\<rparr>"

record resume =
  res_eoi :: bool
  res_context :: addr
  res_cr3 :: addr
  res_rsp0 :: u64

definition am_irq_handle ::
  "trap_frame \<Rightarrow> addr \<Rightarrow> addr \<Rightarrow> addr \<Rightarrow> u64 \<Rightarrow> ('s \<Rightarrow> addr \<Rightarrow> regs) \<Rightarrow> ('s \<Rightarrow> addr \<Rightarrow> regs \<Rightarrow> 's) \<Rightarrow>
   (event \<Rightarrow> addr \<Rightarrow> 's \<Rightarrow> (addr \<times> 's) res) \<Rightarrow> 's \<Rightarrow> (resume \<times> 's) res" where
  "am_irq_handle tf saved_ctx cr3_now cr2 rsp0_now read write user_handler s =
    (let s1 = write s saved_ctx (irq_save tf cr3_now rsp0_now);
         eoi = (32 + 0 \<le> tf_irq tf \<and> tf_irq tf < 32 + 32);
         ev = irq_event (tf_irq tf) (errcode tf) cr2
     in res_bind (user_handler ev saved_ctx s1) (\<lambda>(ret_ctx, s2).
       if ret_ctx = 0 then Inl (Panic ''returning to NULL context'')
       else let c = read s2 ret_ctx in
         if cr3 c \<noteq> 0 then Inr (\<lparr>res_eoi = eoi, res_context = ret_ctx, res_cr3 = cr3 c, res_rsp0 = rsp0 c\<rparr>, s2)
         else Inr (\<lparr>res_eoi = eoi, res_context = ret_ctx, res_cr3 = cr3_now, res_rsp0 = rsp0_now\<rparr>, s2)))"

section \<open>The gates\<close>

text \<open>
  \<open>cte_init\<close> fills the descriptor table: every vector is a trap gate to \<open>__am_irqall\<close> with
  kernel privilege, then the vectors of the table \<open>IRQS\<close> get a gate of their own with the
  privilege listed there (kernel for all but the system call and yield vectors).
\<close>

record gate =
  gate_handler :: nat
  gate_dpl :: u64

definition IRQ_ALL :: nat where "IRQ_ALL = 1000"

definition irqs_table :: "(nat \<times> u64) list" where
  "irqs_table = map (\<lambda>i. (i, DPL_KERN)) ([0..<17] @ [19, 31] @ [32..<48]) @ [(128, DPL_USER), (129, DPL_USER)]"

fun install_gates :: "gate list \<Rightarrow> (nat \<times> u64) list \<Rightarrow> gate list" where
  "install_gates idt [] = idt"
| "install_gates idt ((i, dpl) # es) =
     install_gates (idt[i := \<lparr>gate_handler = i, gate_dpl = dpl\<rparr>]) es"

definition cte_init :: "nat \<Rightarrow> bool \<Rightarrow> gate list res" where
  "cte_init cpu_current has_handler =
    (if cpu_current \<noteq> 0 then Inl (Panic ''init CTE in non-bootstrap CPU'')
     else if \<not> has_handler then Inl (Panic ''no interrupt handler'')
     else Inr (install_gates (replicate 256 \<lparr>gate_handler = IRQ_ALL, gate_dpl = DPL_KERN\<rparr>) irqs_table))"

end
