(* ===== verification/Kernel_State.thy ===== *)
theory Kernel_State
  imports Cte Pmm
begin

text \<open>
  The data of the kernel (\<open>kernel/include/os.h\<close>, \<open>kernel/src/task.c\<close>) and its nested
  spin locks (\<open>push_off\<close>, \<open>pop_off\<close> and the lock operations of \<open>kernel/src/kmt.c\<close>).

  The store maps the address of a task to its record. Address 0 is memory like any other on
  this machine, and the code does read the task there before the first task runs; the store
  therefore is total. A write through a null pointer that \<open>pmm->alloc\<close> returned is undefined.
\<close>

section \<open>Data\<close>

record spinlock =
  lock_word :: int
  lock_name :: string
  lock_cpu :: int

record i_cpu =
  noff :: int
  intena :: bool

text \<open>\<open>ien\<close> is the interrupt flag of the processor itself.\<close>

record cpu_tasks =
  interrupt :: i_cpu
  current_task :: addr
  save_task :: addr
  idle_task :: addr
  ien :: bool

record sem =
  sem_name :: string
  resource :: int
  sem_cnt :: int
  sem_lock :: spinlock
  sem_list :: "addr list"

record vme_area =
  vm_start :: addr
  vm_end :: addr
  vm_as :: addr
  vm_prot :: u8
  vm_flags :: u8

record m_page =
  mp_as :: addr
  mp_va :: addr
  mp_pa :: addr

text \<open>Lists of nodes keep the address of each node, which is what is given back to \<open>pmm\<close>.\<close>

record task =
  t_name :: string
  status :: spinlock
  t_context :: "addr list"
  t_as :: addr
  vme_lock :: spinlock
  mp_lock :: spinlock
  vm_areas :: "(addr \<times> vme_area) list"
  mapped_pages :: "(addr \<times> m_page) list"
  wait_sem :: sem
  ppid :: int
  pid :: int
  t_state :: int
  retstate :: int
  nested_interrupt :: int
  block :: bool
  is_running :: bool
  killed :: bool

definition K_MAX_TASK :: nat where "K_MAX_TASK = 1024"
definition MAX_TASK :: nat where "MAX_TASK = 32768"
definition STACK_SIZE :: addr where "STACK_SIZE = 8000"
definition K_NAME :: nat where "K_NAME = 128"

text \<open>An address space (\<open>AddrSpace\<close> of \<open>abstract-machine/am/include/am.h\<close>).\<close>

record addr_space =
  as_pgsize :: addr
  as_start :: addr
  as_end :: addr
  as_ptr :: addr

text \<open>
  Everything the kernel's routines read and write. \<open>k_list\<close> and \<open>k_cnt\<close> are \<open>task_list\<close>
  and \<open>task_cnt\<close>; \<open>k_ctx\<close> reads the saved contexts, \<open>k_as\<close> the address spaces,
  \<open>k_words\<close> the page tables and \<open>k_bytes\<close> the rest of the memory; \<open>k_cow\<close> is
  \<open>cow_table\<close>, \<open>k_pids\<close> the queue of free process numbers, \<open>k_out\<close> what was printed,
  \<open>k_kbd\<close> the semaphore \<open>sem_kbdirq\<close> of the keyboard driver.
\<close>

record kern =
  k_cpus :: "cpu_tasks list"
  k_tasks :: "addr \<Rightarrow> task"
  k_list :: "addr list"
  k_cnt :: int
  k_sem_init_lock :: spinlock
  k_task_init_lock :: spinlock
  k_pid_lock :: spinlock
  k_cow_lock :: spinlock
  k_rand :: u64
  k_ctx :: "addr \<Rightarrow> regs"
  k_pmm :: slab_sys
  k_as :: "addr \<Rightarrow> addr_space"
  k_words :: "addr \<Rightarrow> u64"
  k_bytes :: "addr \<Rightarrow> u8"
  k_cow :: "int list"
  k_pids :: "(addr \<times> int) list"
  k_out :: "u8 list"
  k_kbd :: sem

definition cpu_of :: "kern \<Rightarrow> nat \<Rightarrow> cpu_tasks" where
  "cpu_of s i = k_cpus s ! i"

definition set_cpu :: "nat \<Rightarrow> cpu_tasks \<Rightarrow> kern \<Rightarrow> kern" where
  "set_cpu i c s = s\<lparr>k_cpus := (k_cpus s)[i := c]\<rparr>"

definition upd_task :: "addr \<Rightarrow> (task \<Rightarrow> task) \<Rightarrow> kern \<Rightarrow> kern" where
  "upd_task t f s = s\<lparr>k_tasks := (k_tasks s)(t := f (k_tasks s t))\<rparr>"

section \<open>Nested interrupt disabling\<close>

definition push_off :: "cpu_tasks \<Rightarrow> cpu_tasks" where
  "push_off c =
    (let old = ien c;
         c1 = c\<lparr>ien := False\<rparr>;
         c2 = (if noff (interrupt c1) = 0 then c1\<lparr>interrupt := (interrupt c1)\<lparr>intena := old\<rparr>\<rparr> else c1)
     in c2\<lparr>interrupt := (interrupt c2)\<lparr>noff := noff (interrupt c2) + 1\<rparr>\<rparr>)"

definition pop_off :: "cpu_tasks \<Rightarrow> cpu_tasks res" where
  "pop_off c =
    (if ien c then Inl Assert
     else if noff (interrupt c) < 1 then Inl (Panic ''pop_off() called without push_off()'')
     else let c1 = c\<lparr>interrupt := (interrupt c)\<lparr>noff := noff (interrupt c) - 1\<rparr>\<rparr> in
       Inr (if noff (interrupt c1) = 0 \<and> intena (interrupt c1) then c1\<lparr>ien := True\<rparr> else c1))"

section \<open>Spin locks\<close>

text \<open>All of them run on CPU \<open>i\<close>, whose record is \<open>c\<close>.\<close>

definition holding :: "nat \<Rightarrow> cpu_tasks \<Rightarrow> spinlock \<Rightarrow> (bool \<times> cpu_tasks) res" where
  "holding i c lk =
    (let c1 = push_off c; r = (lock_word lk \<noteq> 0 \<and> lock_cpu lk = int i) in
     res_bind (pop_off c1) (\<lambda>c2. Inr (r, c2)))"

definition kmt_try_spin_lock :: "nat \<Rightarrow> cpu_tasks \<Rightarrow> spinlock \<Rightarrow> (bool \<times> cpu_tasks \<times> spinlock) res" where
  "kmt_try_spin_lock i c lk =
    (let c1 = push_off c; (ok, w) = try_lock (lock_word lk); lk1 = lk\<lparr>lock_word := w\<rparr> in
     if ok then Inr (True, c1, lk1\<lparr>lock_cpu := int i\<rparr>)
     else res_bind (pop_off c1) (\<lambda>c2. Inr (False, c2, lk1)))"

definition kmt_spin_lock :: "nat \<Rightarrow> cpu_tasks \<Rightarrow> spinlock \<Rightarrow> (cpu_tasks \<times> spinlock) res" where
  "kmt_spin_lock i c lk =
    (let c1 = push_off c in
     res_bind (spin_lock (lock_word lk)) (\<lambda>w.
       Inr (c1, lk\<lparr>lock_word := w, lock_cpu := int i\<rparr>)))"

definition kmt_spin_unlock :: "nat \<Rightarrow> cpu_tasks \<Rightarrow> spinlock \<Rightarrow> (cpu_tasks \<times> spinlock) res" where
  "kmt_spin_unlock i c lk =
    res_bind (holding i c lk) (\<lambda>(h, c1).
      if \<not> h then Inl (Panic ''release'')
      else let lk1 = lk\<lparr>lock_cpu := -1\<rparr>;
               lk2 = lk1\<lparr>lock_word := spin_unlock (lock_word lk1)\<rparr>
           in res_bind (pop_off c1) (\<lambda>c2. Inr (c2, lk2)))"

text \<open>The name is copied into an array of 128 characters.\<close>

definition kmt_spin_init :: "spinlock \<Rightarrow> string \<Rightarrow> spinlock res" where
  "kmt_spin_init lk name =
    (if K_NAME \<le> length name then Inl Undefined
     else Inr (lk\<lparr>lock_word := SPIN_LOCK_INIT, lock_cpu := -1, lock_name := name\<rparr>))"

text \<open>Taking and releasing a lock that is part of the kernel's state, on CPU \<open>i\<close>.\<close>

definition acquire :: "nat \<Rightarrow> (kern \<Rightarrow> spinlock) \<Rightarrow> (spinlock \<Rightarrow> kern \<Rightarrow> kern) \<Rightarrow> kern \<Rightarrow> kern res" where
  "acquire i get put s = res_bind (kmt_spin_lock i (cpu_of s i) (get s)) (\<lambda>(c, lk). Inr (put lk (set_cpu i c s)))"

definition release :: "nat \<Rightarrow> (kern \<Rightarrow> spinlock) \<Rightarrow> (spinlock \<Rightarrow> kern \<Rightarrow> kern) \<Rightarrow> kern \<Rightarrow> kern res" where
  "release i get put s = res_bind (kmt_spin_unlock i (cpu_of s i) (get s)) (\<lambda>(c, lk). Inr (put lk (set_cpu i c s)))"

definition status_get :: "addr \<Rightarrow> kern \<Rightarrow> spinlock" where "status_get t s = status (k_tasks s t)"
definition status_put :: "addr \<Rightarrow> spinlock \<Rightarrow> kern \<Rightarrow> kern" where "status_put t lk = upd_task t (status_update (\<lambda>_. lk))"

section \<open>The discipline of nesting\<close>

text \<open>While \<open>noff\<close> is positive the interrupts of the CPU are off.\<close>

definition cpu_ok :: "cpu_tasks \<Rightarrow> bool" where
  "cpu_ok c \<longleftrightarrow> 0 \<le> noff (interrupt c) \<and> (0 < noff (interrupt c) \<longrightarrow> \<not> ien c)"

definition lock_free :: "spinlock \<Rightarrow> bool" where
  "lock_free lk \<longleftrightarrow> lock_word lk = 0"

lemma push_off_ok: "cpu_ok c \<Longrightarrow> cpu_ok (push_off c)"
  by (auto simp: cpu_ok_def push_off_def Let_def)

lemma push_off_fields [simp]:
  "ien (push_off c) = False" "noff (interrupt (push_off c)) = noff (interrupt c) + 1"
  "current_task (push_off c) = current_task c" "save_task (push_off c) = save_task c"
  "idle_task (push_off c) = idle_task c"
  by (simp_all add: push_off_def Let_def)

text \<open>The flag the outermost \<open>pop_off\<close> restores.\<close>

definition restored :: "cpu_tasks \<Rightarrow> bool" where
  "restored c = (if noff (interrupt c) = 0 then ien c else intena (interrupt c))"

lemma restored_push [simp]: "restored (push_off c) = restored c" if "cpu_ok c"
  using that by (auto simp: restored_def push_off_def Let_def cpu_ok_def)

text \<open>Two states of a CPU that differ at most in the saved flag, which does not matter at depth 0.\<close>

definition same_cpu :: "cpu_tasks \<Rightarrow> cpu_tasks \<Rightarrow> bool" where
  "same_cpu c d \<longleftrightarrow> noff (interrupt d) = noff (interrupt c) \<and> ien d = ien c \<and>
     current_task d = current_task c \<and> save_task d = save_task c \<and> idle_task d = idle_task c \<and>
     restored d = restored c"

lemma same_cpu_refl [simp]: "same_cpu c c"
  by (simp add: same_cpu_def)

lemma same_cpu_trans: "same_cpu a b \<Longrightarrow> same_cpu b c \<Longrightarrow> same_cpu a c"
  by (simp add: same_cpu_def)

lemma same_cpu_ok: "same_cpu c d \<Longrightarrow> cpu_ok c \<Longrightarrow> cpu_ok d"
  by (simp add: same_cpu_def cpu_ok_def)

lemma pop_push:
  assumes "cpu_ok c" shows "\<exists>d. pop_off (push_off c) = Inr d \<and> same_cpu c d"
proof -
  let ?c1 = "push_off c"
  let ?c2 = "?c1\<lparr>interrupt := (interrupt ?c1)\<lparr>noff := noff (interrupt ?c1) - 1\<rparr>\<rparr>"
  have "pop_off ?c1 = Inr (if noff (interrupt ?c2) = 0 \<and> intena (interrupt ?c2) then ?c2\<lparr>ien := True\<rparr> else ?c2)"
    using assms by (simp add: pop_off_def cpu_ok_def Let_def)
  moreover have "same_cpu c (if noff (interrupt ?c2) = 0 \<and> intena (interrupt ?c2) then ?c2\<lparr>ien := True\<rparr> else ?c2)"
    using assms by (auto simp: same_cpu_def restored_def cpu_ok_def push_off_def Let_def)
  ultimately show ?thesis by blast
qed

lemma pop_same:
  "same_cpu c d \<Longrightarrow> pop_off c = Inr c' \<Longrightarrow> \<exists>d'. pop_off d = Inr d' \<and> same_cpu c' d'"
  by (cases "noff (interrupt c) = 1")
     (auto simp: same_cpu_def pop_off_def Let_def restored_def split: if_splits)

lemma push_same: "same_cpu c d \<Longrightarrow> same_cpu (push_off c) (push_off d)"
  by (auto simp: same_cpu_def restored_def push_off_def Let_def)

lemma pop_push_same:
  assumes "cpu_ok c" and "same_cpu (push_off c) d"
  shows "\<exists>c'. pop_off d = Inr c' \<and> same_cpu c c'"
proof -
  obtain c1 where "pop_off (push_off c) = Inr c1" "same_cpu c c1" using pop_push [OF assms(1)] by blast
  then show ?thesis using pop_same [OF assms(2)] same_cpu_trans by blast
qed

lemma holding_eq:
  assumes "cpu_ok c"
  shows "\<exists>d. holding i c lk = Inr (lock_word lk \<noteq> 0 \<and> lock_cpu lk = int i, d) \<and> same_cpu c d"
  using pop_push [OF assms] by (auto simp: holding_def Let_def)

lemma kmt_spin_lock_free:
  "lock_free lk \<Longrightarrow> kmt_spin_lock i c lk = Inr (push_off c, lk\<lparr>lock_word := 1, lock_cpu := int i\<rparr>)"
  by (simp add: kmt_spin_lock_def spin_lock_eq lock_free_def)

lemma kmt_spin_lock_taken: "\<not> lock_free lk \<Longrightarrow> kmt_spin_lock i c lk = Inl Hang"
  by (simp add: kmt_spin_lock_def spin_lock_eq lock_free_def)

text \<open>Releasing a lock this CPU holds undoes the matching \<open>push_off\<close>.\<close>

lemma kmt_spin_unlock_held:
  assumes "cpu_ok c" and "same_cpu (push_off c) d" and "lock_word lk \<noteq> 0" and "lock_cpu lk = int i"
  shows "\<exists>c'. kmt_spin_unlock i d lk = Inr (c', lk\<lparr>lock_word := 0, lock_cpu := -1\<rparr>) \<and> same_cpu c c'"
proof -
  have "cpu_ok d" using same_cpu_ok [OF assms(2) push_off_ok [OF assms(1)]] .
  then obtain d1 where d1: "holding i d lk = Inr (lock_word lk \<noteq> 0 \<and> lock_cpu lk = int i, d1)" "same_cpu d d1"
    using holding_eq by blast
  obtain c' where "pop_off d1 = Inr c'" "same_cpu c c'"
    using pop_push_same [OF assms(1) same_cpu_trans [OF assms(2) d1(2)]] by blast
  then show ?thesis using d1(1) assms(3,4) by (simp add: kmt_spin_unlock_def Let_def)
qed

lemma kmt_spin_unlock_other:
  assumes "cpu_ok c" and "lock_word lk = 0 \<or> lock_cpu lk \<noteq> int i"
  shows "kmt_spin_unlock i c lk = Inl (Panic ''release'')"
  using holding_eq [OF assms(1), of i lk] assms(2) by (auto simp: kmt_spin_unlock_def)

text \<open>
  C17: nested locks: taking a free lock and releasing it on the same CPU leaves the lock free and
  the CPU as it was, its interrupt flag and depth included, whatever other locks it holds; in
  between interrupts are off. A second acquisition never returns, a release by a CPU that does
  not hold the lock panics.
\<close>

theorem kmt_lock_nesting:
  assumes "cpu_ok c" and "lock_free lk"
  shows "\<exists>c1 lk1. kmt_spin_lock i c lk = Inr (c1, lk1) \<and> \<not> ien c1 \<and> cpu_ok c1 \<and>
     kmt_spin_lock j c1 lk1 = Inl Hang \<and>
     (i \<noteq> j \<longrightarrow> kmt_spin_unlock j c1 lk1 = Inl (Panic ''release'')) \<and>
     (\<exists>c2 lk2. kmt_spin_unlock i c1 lk1 = Inr (c2, lk2) \<and> lock_free lk2 \<and>
        noff (interrupt c2) = noff (interrupt c) \<and> ien c2 = ien c)"
proof -
  let ?lk = "lk\<lparr>lock_word := 1, lock_cpu := int i\<rparr>"
  have held: "lock_word ?lk \<noteq> 0" "lock_cpu ?lk = int i" by simp_all
  have "\<not> lock_free ?lk" by (simp add: lock_free_def)
  obtain c2 where c2: "kmt_spin_unlock i (push_off c) ?lk = Inr (c2, ?lk\<lparr>lock_word := 0, lock_cpu := -1\<rparr>)"
    "same_cpu c c2"
    using kmt_spin_unlock_held [OF assms(1) same_cpu_refl held] by blast
  have "lock_free (?lk\<lparr>lock_word := 0, lock_cpu := -1\<rparr>)" by (simp add: lock_free_def)
  moreover have "i \<noteq> j \<longrightarrow> kmt_spin_unlock j (push_off c) ?lk = Inl (Panic ''release'')"
    using kmt_spin_unlock_other [OF push_off_ok [OF assms(1)], of ?lk j] by simp
  ultimately show ?thesis
    using kmt_spin_lock_free [OF assms(2), of i c] kmt_spin_lock_taken [OF \<open>\<not> lock_free ?lk\<close>, of j "push_off c"]
      push_off_ok [OF assms(1)] c2
    by (intro exI [of _ "push_off c"] exI [of _ ?lk]) (auto simp: same_cpu_def)
qed

theorem kmt_lock_nesting_witness:
  "\<exists>c2. kmt_spin_lock 0 \<lparr>interrupt = \<lparr>noff = 0, intena = False\<rparr>, current_task = 0, save_task = 0, idle_task = 0, ien = True\<rparr>
      \<lparr>lock_word = 0, lock_name = ''l'', lock_cpu = -1\<rparr> = Inr (c2, \<lparr>lock_word = 1, lock_name = ''l'', lock_cpu = 0\<rparr>) \<and> \<not> ien c2"
proof -
  let ?c = "\<lparr>interrupt = \<lparr>noff = 0, intena = False\<rparr>, current_task = 0, save_task = 0, idle_task = 0, ien = True\<rparr>"
  let ?l = "\<lparr>lock_word = 0, lock_name = ''l'', lock_cpu = -1\<rparr>"
  have "cpu_ok ?c" "lock_free ?l" by (simp_all add: cpu_ok_def lock_free_def)
  then show ?thesis using kmt_lock_nesting [of ?c ?l 0 1] kmt_spin_lock_free [of ?l 0 ?c] by auto
qed

end
