(* ===== verification/Kmt.thy ===== *)
theory Kmt
  imports Kernel_State
begin

text \<open>
  Kernel threads (\<open>kernel/src/kmt.c\<close>): semaphores, creation of threads, the two handlers that
  run at every trap (\<open>kmt_context_save\<close>, \<open>kmt_schedule\<close>), and initialisation. \<open>i\<close> is the
  CPU a routine runs on. A call of \<open>yield()\<close> is a value of the result: it raises a trap, whose
  handlers are the ones below.
\<close>

section \<open>Semaphores\<close>

text \<open>The lock of a semaphore, in the state of the CPU.\<close>

definition sem_acquire :: "nat \<Rightarrow> sem \<Rightarrow> kern \<Rightarrow> (sem \<times> kern) res" where
  "sem_acquire i sm s = res_bind (kmt_spin_lock i (cpu_of s i) (sem_lock sm)) (\<lambda>(c, lk).
     Inr (sm\<lparr>sem_lock := lk\<rparr>, set_cpu i c s))"

definition sem_release :: "nat \<Rightarrow> sem \<Rightarrow> kern \<Rightarrow> (sem \<times> kern) res" where
  "sem_release i sm s = res_bind (kmt_spin_unlock i (cpu_of s i) (sem_lock sm)) (\<lambda>(c, lk).
     Inr (sm\<lparr>sem_lock := lk\<rparr>, set_cpu i c s))"

text \<open>
  \<open>kmt_sem_wait\<close>; the first component of the result says whether it yields. The test after
  the release reads the semaphore again; nobody else runs in between here.
\<close>

definition sem_enlist :: "nat \<Rightarrow> sem \<Rightarrow> kern \<Rightarrow> (sem \<times> kern) res" where
  "sem_enlist i sm s =
    (let cur = current_task (cpu_of s i) in
     if cur = 0 then Inr (sm, s)
     else if sem_cnt sm < 0 \<or> int K_MAX_TASK \<le> sem_cnt sm then Inl Undefined
     else let sm1 = sm\<lparr>sem_list := (sem_list sm)[nat (sem_cnt sm) := cur], sem_cnt := sem_cnt sm + 1\<rparr> in
       res_bind (acquire i (status_get cur) (status_put cur) s) (\<lambda>s1.
       let s2 = upd_task cur (block_update (\<lambda>_. True)) s1 in
       res_bind (release i (status_get cur) (status_put cur) s2) (\<lambda>s3. Inr (sm1, s3))))"

definition kmt_sem_wait :: "nat \<Rightarrow> sem \<Rightarrow> kern \<Rightarrow> (bool \<times> sem \<times> kern) res" where
  "kmt_sem_wait i sm s =
    res_bind (sem_acquire i sm s) (\<lambda>(sm1, s1).
      let sm2 = sm1\<lparr>resource := resource sm1 - 1\<rparr> in
      res_bind (if resource sm2 < 0 then sem_enlist i sm2 s1 else Inr (sm2, s1)) (\<lambda>(sm3, s2).
      res_bind (sem_release i sm3 s2) (\<lambda>(sm4, s3).
        Inr (resource sm4 < 0, sm4, s3))))"

definition kmt_sem_signal :: "nat \<Rightarrow> sem \<Rightarrow> kern \<Rightarrow> (sem \<times> kern) res" where
  "kmt_sem_signal i sm s =
    res_bind (sem_acquire i sm s) (\<lambda>(sm1, s1).
      let sm2 = sm1\<lparr>resource := resource sm1 + 1\<rparr> in
      res_bind
        (if resource sm2 \<le> 0 \<and> sem_cnt sm2 > 0 then
           (let (r, nxt) = rand (k_rand s1);
                task_id = nat (r mod sem_cnt sm2) in
            if length (sem_list sm2) \<le> task_id \<or> length (sem_list sm2) < nat (sem_cnt sm2) then Inl Undefined
            else
              let s2 = upd_task (sem_list sm2 ! task_id) (block_update (\<lambda>_. False)) (s1\<lparr>k_rand := nxt\<rparr>);
                  cnt = sem_cnt sm2 - 1
              in Inr (sm2\<lparr>sem_cnt := cnt, sem_list := (sem_list sm2)[task_id := sem_list sm2 ! nat cnt]\<rparr>, s2))
         else Inr (sm2, s1)) (\<lambda>(sm3, s2).
      sem_release i sm3 s2))"

definition kmt_sem_init :: "nat \<Rightarrow> sem \<Rightarrow> string \<Rightarrow> int \<Rightarrow> kern \<Rightarrow> (sem \<times> kern) res" where
  "kmt_sem_init i sm name value s =
    res_bind (acquire i k_sem_init_lock (\<lambda>lk. k_sem_init_lock_update (\<lambda>_. lk)) s) (\<lambda>s1.
    if K_NAME \<le> length name then Inl Undefined
    else res_bind (kmt_spin_init (sem_lock sm) name) (\<lambda>lk.
      let sm1 = sm\<lparr>sem_name := name, resource := value, sem_cnt := 0, sem_lock := lk,
                   sem_list := replicate K_MAX_TASK 0\<rparr>
      in res_bind (release i k_sem_init_lock (\<lambda>lk. k_sem_init_lock_update (\<lambda>_. lk)) s1) (\<lambda>s2.
         Inr (sm1, s2))))"

section \<open>Threads\<close>

text \<open>
  \<open>kmt_create\<close>: \<open>start\<close> is the address of the routine a new context starts at. The stack is
  the first member of the task, so its end is at \<open>task + STACK_SIZE\<close>.
\<close>

definition kmt_create :: "addr \<Rightarrow> nat \<Rightarrow> addr \<Rightarrow> string \<Rightarrow> addr \<Rightarrow> addr \<Rightarrow> kern \<Rightarrow> (int \<times> kern) res" where
  "kmt_create start i t name entry arg s =
    res_bind (acquire i k_task_init_lock (\<lambda>lk. k_task_init_lock_update (\<lambda>_. lk)) s) (\<lambda>s1.
    if t = 0 \<or> K_NAME \<le> length name then Inl Undefined
    else
      let (ctx, regs) = kcontext start (t + STACK_SIZE) entry arg in
      res_bind (kmt_spin_init (status (k_tasks s1 t)) name) (\<lambda>lk.
      if k_cnt s1 < 0 \<or> int (length (k_list s1)) \<le> k_cnt s1 then Inl Undefined
      else
        let s2 = upd_task t (\<lambda>tk. tk\<lparr>t_name := name, t_context := (t_context tk)[0 := ctx], status := lk,
                   block := False, is_running := False, pid := k_cnt s1, nested_interrupt := 0\<rparr>) s1;
            s3 = s2\<lparr>k_ctx := (k_ctx s2)(ctx := regs), k_list := (k_list s2)[nat (k_cnt s2) := t], k_cnt := k_cnt s2 + 1\<rparr>
        in res_bind (release i k_task_init_lock (\<lambda>lk. k_task_init_lock_update (\<lambda>_. lk)) s3) (\<lambda>s4. Inr (0, s4))))"

text \<open>\<open>kmt_teardown\<close> takes its lock and releases it.\<close>

definition kmt_teardown :: "nat \<Rightarrow> addr \<Rightarrow> kern \<Rightarrow> kern res" where
  "kmt_teardown i t s =
    res_bind (acquire i k_task_init_lock (\<lambda>lk. k_task_init_lock_update (\<lambda>_. lk)) s) (\<lambda>s1.
      release i k_task_init_lock (\<lambda>lk. k_task_init_lock_update (\<lambda>_. lk)) s1)"

section \<open>Context switch\<close>

text \<open>A write to \<open>task->context[n]\<close>; the array has two elements.\<close>

definition put_context :: "addr \<Rightarrow> int \<Rightarrow> addr \<Rightarrow> kern \<Rightarrow> kern res" where
  "put_context t n c s =
    (if n < 0 \<or> int (length (t_context (k_tasks s t))) \<le> n then Inl Undefined
     else Inr (upd_task t (\<lambda>tk. tk\<lparr>t_context := (t_context tk)[nat n := c]\<rparr>) s))"

definition set_save :: "nat \<Rightarrow> addr \<Rightarrow> kern \<Rightarrow> kern" where
  "set_save i t s = set_cpu i ((cpu_of s i)\<lparr>save_task := t\<rparr>) s"

definition set_current :: "nat \<Rightarrow> addr \<Rightarrow> kern \<Rightarrow> kern" where
  "set_current i t s = set_cpu i ((cpu_of s i)\<lparr>current_task := t\<rparr>) s"

text \<open>The previous task of this CPU is not in use any more once the next trap has been taken.\<close>

definition retire_saved :: "nat \<Rightarrow> addr \<Rightarrow> kern \<Rightarrow> kern res" where
  "retire_saved i sv s =
    res_bind (acquire i (status_get sv) (status_put sv) s) (\<lambda>s1.
      let s2 = upd_task sv (\<lambda>tk. tk\<lparr>is_running := False, nested_interrupt := nested_interrupt tk - 1\<rparr>) s1 in
      if \<not> (0 \<le> nested_interrupt (k_tasks s2 sv) \<and> nested_interrupt (k_tasks s2 sv) < 3) then Inl Assert
      else release i (status_get sv) (status_put sv) s2)"

definition kmt_context_save :: "nat \<Rightarrow> addr \<Rightarrow> kern \<Rightarrow> (addr \<times> kern) res" where
  "kmt_context_save i c s =
    (let cur = current_task (cpu_of s i) in
     res_bind
       (if pid (k_tasks s cur) > 0 then
          res_bind (put_context cur (nested_interrupt (k_tasks s cur)) c s) (\<lambda>s1.
            Inr (upd_task cur (\<lambda>tk. tk\<lparr>nested_interrupt := nested_interrupt tk + 1\<rparr>) s1))
        else put_context cur 0 c s) (\<lambda>s1.
     let sv = save_task (cpu_of s1 i) in
     res_bind
       (if sv \<noteq> 0 \<and> sv \<noteq> cur then
          (if pid (k_tasks s1 sv) > 0 then retire_saved i sv s1 else Inr s1)
        else Inr s1) (\<lambda>s2.
     Inr (0, set_save i cur s2))))"

text \<open>
  The search of \<open>kmt_schedule\<close>, \<open>n\<close> tries left. A candidate is drawn among the tasks 1 to
  \<open>task_cnt - 1\<close>; with one task the remainder is by zero. The result says whether a task was
  found, which then is the current one.
\<close>

fun pick_loop :: "nat \<Rightarrow> nat \<Rightarrow> kern \<Rightarrow> (bool \<times> kern) res" where
  "pick_loop i 0 s = Inr (False, s)"
| "pick_loop i (Suc n) s =
    (if k_cnt s - 1 = 0 then Inl Undefined
     else
       let (r, nxt) = rand (k_rand s); s0 = s\<lparr>k_rand := nxt\<rparr>;
           rand_id = nat (r mod (k_cnt s - 1) + 1) in
       if length (k_list s0) \<le> rand_id then Inl Undefined
       else
         let t = k_list s0 ! rand_id in
         if t = current_task (cpu_of s0 i) then
           (if block (k_tasks s0 t) then pick_loop i n s0
            else
              let s1 = upd_task t (\<lambda>tk. tk\<lparr>nested_interrupt := nested_interrupt tk - 1\<rparr>) (set_current i t s0) in
              Inr (True, s1))
         else
           res_bind (acquire i (status_get t) (status_put t) s0) (\<lambda>s1.
           if is_running (k_tasks s1 t) \<or> block (k_tasks s1 t) then
             res_bind (release i (status_get t) (status_put t) s1) (\<lambda>s2. pick_loop i n s2)
           else
             let s2 = upd_task t (is_running_update (\<lambda>_. True)) s1 in
             res_bind (release i (status_get t) (status_put t) s2) (\<lambda>s3.
               if \<not> block (k_tasks s3 t) then Inr (True, set_current i t s3)
               else pick_loop i n s3)))"

definition kmt_schedule :: "nat \<Rightarrow> addr \<Rightarrow> kern \<Rightarrow> (addr \<times> kern) res" where
  "kmt_schedule i c s =
    (let s0 = (if current_task (cpu_of s i) = 0 then set_current i (idle_task (cpu_of s i)) s else s) in
     res_bind (pick_loop i (nat (k_cnt s0 * 10)) s0) (\<lambda>(fine_task, s1).
       if block (k_tasks s1 (current_task (cpu_of s1 i))) \<and> fine_task then Inl (Panic ''Current task is blocked'')
       else if current_task (cpu_of s1 i) = 0 then Inl (Panic ''No task to schedule'')
       else
         let s2 = (if fine_task then s1 else set_current i (idle_task (cpu_of s1 i)) s1);
             cur = current_task (cpu_of s2 i);
             n = nested_interrupt (k_tasks s2 cur) in
         if block (k_tasks s2 cur) then Inl (Panic ''Current task is blocked'')
         else if n < 0 \<or> int (length (t_context (k_tasks s2 cur))) \<le> n then Inl Undefined
         else if \<not> fine_task then Inr (t_context (k_tasks s2 (idle_task (cpu_of s2 i))) ! 0, s2)
         else
           let ret = t_context (k_tasks s2 cur) ! nat n in
           if ret = 0 then Inl (Panic ''No context to schedule'') else Inr (ret, s2)))"

section \<open>Initialisation\<close>

text \<open>\<open>sizeof(task_t)\<close>.\<close>

definition TASK_SIZE :: int where "TASK_SIZE = 17072"

text \<open>\<open>pmm->alloc\<close> and \<open>pmm->free\<close> on the kernel's state.\<close>

definition palloc :: "nat \<Rightarrow> int \<Rightarrow> kern \<Rightarrow> (addr \<times> kern) res" where
  "palloc i sz s = res_bind (kalloc_safe (ien (cpu_of s i)) (k_pmm s) i sz) (\<lambda>(p, m, intr).
     Inr (p, set_cpu i ((cpu_of s i)\<lparr>ien := intr\<rparr>) (s\<lparr>k_pmm := m\<rparr>)))"

definition pfree :: "nat \<Rightarrow> addr \<Rightarrow> kern \<Rightarrow> kern res" where
  "pfree i p s = res_bind (kfree_safe (ien (cpu_of s i)) (k_pmm s) p) (\<lambda>(m, intr).
     Inr (set_cpu i ((cpu_of s i)\<lparr>ien := intr\<rparr>) (s\<lparr>k_pmm := m\<rparr>)))"

text \<open>\<open>initialize_idle_task\<close>; \<open>entry\<close> is the address of \<open>idle_thread\<close>.\<close>

definition initialize_idle_task :: "addr \<Rightarrow> addr \<Rightarrow> addr \<Rightarrow> kern \<Rightarrow> kern res" where
  "initialize_idle_task start entry t s =
    (if t = 0 then Inl Undefined
     else let (ctx, regs) = kcontext start (t + STACK_SIZE) entry 0 in
       res_bind (kmt_spin_init (status (k_tasks s t)) ''idle'') (\<lambda>lk.
         Inr ((upd_task t (\<lambda>tk. tk\<lparr>t_name := ''idle'', t_context := (t_context tk)[0 := ctx], status := lk,
                 pid := 0, block := False, is_running := False, nested_interrupt := 0\<rparr>) s)
              \<lparr>k_ctx := (k_ctx s)(ctx := regs)\<rparr>)))"

fun init_cpus :: "addr \<Rightarrow> addr \<Rightarrow> nat \<Rightarrow> nat list \<Rightarrow> kern \<Rightarrow> kern res" where
  "init_cpus start entry i [] s = Inr s"
| "init_cpus start entry i (j # js) s =
    res_bind (palloc i TASK_SIZE s) (\<lambda>(t, s1).
    res_bind (initialize_idle_task start entry t (set_cpu j ((cpu_of s1 j)\<lparr>idle_task := t\<rparr>) s1)) (\<lambda>s2.
      init_cpus start entry i js
        (set_cpu j ((cpu_of s2 j)\<lparr>save_task := 0, current_task := 0, interrupt := \<lparr>noff = 0, intena = False\<rparr>\<rparr>) s2)))"

text \<open>
  \<open>kmt_init\<close> without the two registrations, which are part of the trap dispatcher. Of the
  32768 entries of \<open>task_list\<close> the first 1024 are cleared.
\<close>

definition kmt_init :: "addr \<Rightarrow> addr \<Rightarrow> nat \<Rightarrow> nat \<Rightarrow> kern \<Rightarrow> kern res" where
  "kmt_init start entry i cpu_count s =
    (let s0 = s\<lparr>k_cnt := 1\<rparr> in
     res_bind (kmt_spin_init (k_sem_init_lock s0) ''sem_init_lock'') (\<lambda>lk1.
     res_bind (kmt_spin_init (k_task_init_lock s0) ''task_init_lock'') (\<lambda>lk2.
     res_bind (init_cpus start entry i [0..<cpu_count] (s0\<lparr>k_sem_init_lock := lk1, k_task_init_lock := lk2\<rparr>)) (\<lambda>s1.
       Inr (s1\<lparr>k_list := replicate K_MAX_TASK 0 @ drop K_MAX_TASK (k_list s1)\<rparr>)))))"

end
