(* ===== verification/Kmt_Sched.thy ===== *)
theory Kmt_Sched
  imports Kmt
begin

text \<open>
  The scheduler: the invariant that ties the flags of the tasks to what the CPUs run, its
  preservation by the handlers of a trap, and the consequence that two CPUs never run the same
  task.
\<close>

section \<open>Regions under a task's lock\<close>

lemma cpu_of_set [simp]:
  "i < length (k_cpus s) \<Longrightarrow> cpu_of (set_cpu i c s) j = (if j = i then c else cpu_of s j)"
  by (simp add: cpu_of_def set_cpu_def nth_list_update)

lemma cpu_of_upd_task [simp]: "cpu_of (upd_task t f s) j = cpu_of s j"
  by (simp add: cpu_of_def upd_task_def)

lemma set_cpu_fields [simp]:
  "k_tasks (set_cpu i c s) = k_tasks s" "length (k_cpus (set_cpu i c s)) = length (k_cpus s)"
  "k_list (set_cpu i c s) = k_list s" "k_cnt (set_cpu i c s) = k_cnt s" "k_rand (set_cpu i c s) = k_rand s"
  "k_ctx (set_cpu i c s) = k_ctx s"
  by (simp_all add: set_cpu_def)

lemma upd_task_fields [simp]:
  "k_tasks (upd_task t f s) = (k_tasks s)(t := f (k_tasks s t))" "k_cpus (upd_task t f s) = k_cpus s"
  "k_list (upd_task t f s) = k_list s" "k_cnt (upd_task t f s) = k_cnt s" "k_rand (upd_task t f s) = k_rand s"
  "k_ctx (upd_task t f s) = k_ctx s"
  by (simp_all add: upd_task_def)

lemma upd_task_set_cpu: "upd_task t f (set_cpu i c s) = set_cpu i c (upd_task t f s)"
  by (simp add: upd_task_def set_cpu_def)

lemma upd_task_twice: "upd_task t f (upd_task t g s) = upd_task t (f \<circ> g) s"
  by (simp add: upd_task_def)

lemma set_cpu_twice: "set_cpu i c (set_cpu i d s) = set_cpu i c s"
  by (simp add: set_cpu_def)

text \<open>The lock of a task after a region: free again, and with nobody's number in it.\<close>

definition unlocked :: "task \<Rightarrow> task" where
  "unlocked tk = tk\<lparr>status := (status tk)\<lparr>lock_word := 0, lock_cpu := -1\<rparr>\<rparr>"

lemma unlocked_fields [simp]:
  "t_context (unlocked tk) = t_context tk" "pid (unlocked tk) = pid tk"
  "nested_interrupt (unlocked tk) = nested_interrupt tk" "block (unlocked tk) = block tk"
  "is_running (unlocked tk) = is_running tk" "killed (unlocked tk) = killed tk" "lock_free (status (unlocked tk))"
  by (simp_all add: unlocked_def lock_free_def)

definition held :: "nat \<Rightarrow> task \<Rightarrow> task" where
  "held i tk = tk\<lparr>status := (status tk)\<lparr>lock_word := 1, lock_cpu := int i\<rparr>\<rparr>"

lemma held_fields [simp]:
  "t_context (held i tk) = t_context tk" "pid (held i tk) = pid tk"
  "nested_interrupt (held i tk) = nested_interrupt tk" "block (held i tk) = block tk"
  "is_running (held i tk) = is_running tk"
  by (simp_all add: held_def)

lemma acquire_status:
  assumes "lock_free (status (k_tasks s t))"
  shows "acquire i (status_get t) (status_put t) s = Inr (upd_task t (held i) (set_cpu i (push_off (cpu_of s i)) s))"
  using kmt_spin_lock_free [OF assms, of i "cpu_of s i"]
  by (simp add: acquire_def status_get_def status_put_def upd_task_def held_def)

lemma release_status:
  assumes "i < length (k_cpus s)" and "cpu_ok (cpu_of s i)"
    and f: "status (f (held i (k_tasks s t))) = status (held i (k_tasks s t))"
  shows "\<exists>c. release i (status_get t) (status_put t)
        (upd_task t f (upd_task t (held i) (set_cpu i (push_off (cpu_of s i)) s))) =
      Inr (set_cpu i c (upd_task t (\<lambda>tk. unlocked (f (held i tk))) s)) \<and> same_cpu (cpu_of s i) c"
proof -
  let ?s = "upd_task t f (upd_task t (held i) (set_cpu i (push_off (cpu_of s i)) s))"
  have st: "lock_word (status (k_tasks ?s t)) \<noteq> 0" "lock_cpu (status (k_tasks ?s t)) = int i"
    using f by (simp_all add: held_def)
  have "cpu_of ?s i = push_off (cpu_of s i)" using assms(1) by simp
  then obtain c where c: "kmt_spin_unlock i (cpu_of ?s i) (status (k_tasks ?s t)) =
      Inr (c, (status (k_tasks ?s t))\<lparr>lock_word := 0, lock_cpu := -1\<rparr>)" "same_cpu (cpu_of s i) c"
    using kmt_spin_unlock_held [OF assms(2) _ st] same_cpu_refl by metis
  have "release i (status_get t) (status_put t) ?s =
      Inr (set_cpu i c (upd_task t (\<lambda>tk. unlocked (f (held i tk))) s))"
    using c(1) by (simp add: release_def status_get_def status_put_def unlocked_def)
      (simp add: upd_task_def set_cpu_def)
  then show ?thesis using c(2) by blast
qed

section \<open>The invariant\<close>

text \<open>The tasks the scheduler draws from, and what a CPU uses: the task it runs and the one it ran before.\<close>

definition sched_tasks :: "kern \<Rightarrow> addr set" where
  "sched_tasks s = {k_list s ! j | j. 1 \<le> j \<and> int j < k_cnt s}"

definition uses :: "kern \<Rightarrow> nat \<Rightarrow> addr \<Rightarrow> bool" where
  "uses s c t \<longleftrightarrow> c < length (k_cpus s) \<and> (t = current_task (cpu_of s c) \<or> t = save_task (cpu_of s c))"

text \<open>A task that this CPU has left but not yet retired.\<close>

definition leaving :: "kern \<Rightarrow> nat \<Rightarrow> addr \<Rightarrow> bool" where
  "leaving s c t \<longleftrightarrow> c < length (k_cpus s) \<and> t = save_task (cpu_of s c) \<and> t \<noteq> current_task (cpu_of s c)"

text \<open>
  The contexts of a task: while it runs, \<open>nested_interrupt\<close> is the index its next saved context
  goes to; while it waits, the index of the context to resume; a task being left is one ahead.
\<close>

definition resumable :: "task \<Rightarrow> int \<Rightarrow> bool" where
  "resumable tk n \<longleftrightarrow> (n = 0 \<or> n = 1) \<and> length (t_context tk) = 2 \<and> t_context tk ! nat n \<noteq> 0"

definition idle_ok :: "task \<Rightarrow> bool" where
  "idle_ok tk \<longleftrightarrow> pid tk \<le> 0 \<and> length (t_context tk) = 2 \<and> t_context tk ! 0 \<noteq> 0 \<and> nested_interrupt tk = 0 \<and> \<not> block tk"

definition cpus_ok :: "kern \<Rightarrow> bool" where
  "cpus_ok s \<longleftrightarrow> (\<forall>c < length (k_cpus s). cpu_ok (cpu_of s c) \<and>
     (current_task (cpu_of s c) \<in> sched_tasks s \<or> current_task (cpu_of s c) \<in> {0, idle_task (cpu_of s c)}) \<and>
     (save_task (cpu_of s c) \<in> sched_tasks s \<or> save_task (cpu_of s c) \<in> {0, idle_task (cpu_of s c)}) \<and>
     idle_task (cpu_of s c) \<noteq> 0 \<and> idle_task (cpu_of s c) \<notin> sched_tasks s \<and> idle_ok (k_tasks s (idle_task (cpu_of s c))) \<and>
     (\<forall>d < length (k_cpus s). idle_task (cpu_of s c) = idle_task (cpu_of s d) \<longrightarrow> c = d))"

definition used_once :: "kern \<Rightarrow> bool" where
  "used_once s \<longleftrightarrow> (\<forall>t \<in> sched_tasks s.
     (is_running (k_tasks s t) \<longleftrightarrow> (\<exists>c. uses s c t)) \<and> (\<forall>c d. uses s c t \<longrightarrow> uses s d t \<longrightarrow> c = d))"

definition contexts_ok :: "addr set \<Rightarrow> kern \<Rightarrow> bool" where
  "contexts_ok A s \<longleftrightarrow> (\<forall>t \<in> sched_tasks s. pid (k_tasks s t) > 0 \<and>
     (if t \<in> A then resumable (k_tasks s t) (nested_interrupt (k_tasks s t) - 1)
      else if \<exists>c. uses s c t then
        (nested_interrupt (k_tasks s t) = 0 \<or> nested_interrupt (k_tasks s t) = 1) \<and> length (t_context (k_tasks s t)) = 2
      else resumable (k_tasks s t) (nested_interrupt (k_tasks s t))))"

text \<open>\<open>A\<close> are the tasks that are one ahead.\<close>

definition inv_with :: "addr set \<Rightarrow> kern \<Rightarrow> bool" where
  "inv_with A s \<longleftrightarrow> 2 \<le> k_cnt s \<and> k_cnt s \<le> int (length (k_list s)) \<and> 0 \<notin> sched_tasks s \<and>
     (\<forall>t. lock_free (status (k_tasks s t))) \<and>
     pid (k_tasks s 0) \<le> 0 \<and> length (t_context (k_tasks s 0)) = 2 \<and> \<not> block (k_tasks s 0) \<and>
     cpus_ok s \<and> used_once s \<and> contexts_ok A s"

definition left :: "kern \<Rightarrow> addr set" where
  "left s = {t. \<exists>c. leaving s c t}"

definition sched_inv :: "kern \<Rightarrow> bool" where
  "sched_inv s \<longleftrightarrow> inv_with (left s) s"

text \<open>
  Between the two handlers on CPU \<open>i\<close>, its current task has been saved and is one ahead too.
  Before its first task the CPU has none.
\<close>

definition saved_inv :: "nat \<Rightarrow> kern \<Rightarrow> bool" where
  "saved_inv i s \<longleftrightarrow>
     (current_task (cpu_of s i) \<in> sched_tasks s \<or> save_task (cpu_of s i) \<in> sched_tasks s \<longrightarrow>
        save_task (cpu_of s i) = current_task (cpu_of s i)) \<and>
     inv_with (insert (save_task (cpu_of s i)) (left s)) s"

section \<open>States that differ in the locks only\<close>

definition same_task :: "task \<Rightarrow> task \<Rightarrow> bool" where
  "same_task a b \<longleftrightarrow> t_context b = t_context a \<and> pid b = pid a \<and> nested_interrupt b = nested_interrupt a \<and>
     block b = block a \<and> is_running b = is_running a \<and> (lock_free (status a) \<longrightarrow> lock_free (status b))"

lemma same_task_refl [simp]: "same_task a a"
  by (simp add: same_task_def)

definition like :: "kern \<Rightarrow> kern \<Rightarrow> bool" where
  "like s s' \<longleftrightarrow> k_list s' = k_list s \<and> k_cnt s' = k_cnt s \<and> length (k_cpus s') = length (k_cpus s) \<and>
     (\<forall>j. same_cpu (cpu_of s j) (cpu_of s' j)) \<and> (\<forall>t. same_task (k_tasks s t) (k_tasks s' t))"

lemma like_refl [simp]: "like s s"
  by (simp add: like_def)

lemma like_trans: "like a b \<Longrightarrow> like b c \<Longrightarrow> like a c"
  by (auto simp: like_def same_task_def intro: same_cpu_trans)

lemma like_fields:
  assumes "like s s'"
  shows "k_list s' = k_list s" "k_cnt s' = k_cnt s" "length (k_cpus s') = length (k_cpus s)"
    "current_task (cpu_of s' j) = current_task (cpu_of s j)" "save_task (cpu_of s' j) = save_task (cpu_of s j)"
    "idle_task (cpu_of s' j) = idle_task (cpu_of s j)"
    "t_context (k_tasks s' t) = t_context (k_tasks s t)" "pid (k_tasks s' t) = pid (k_tasks s t)"
    "nested_interrupt (k_tasks s' t) = nested_interrupt (k_tasks s t)" "block (k_tasks s' t) = block (k_tasks s t)"
    "is_running (k_tasks s' t) = is_running (k_tasks s t)"
  using assms by (simp_all add: like_def same_cpu_def same_task_def)

lemma like_sched_tasks: "like s s' \<Longrightarrow> sched_tasks s' = sched_tasks s"
  by (simp add: sched_tasks_def like_fields)

lemma like_uses: "like s s' \<Longrightarrow> uses s' c t = uses s c t"
  by (simp add: uses_def like_fields)

lemma like_left: "like s s' \<Longrightarrow> left s' = left s"
  by (simp add: left_def leaving_def like_fields)

lemma like_resumable: "like s s' \<Longrightarrow> resumable (k_tasks s' t) n = resumable (k_tasks s t) n"
  by (simp add: resumable_def like_fields)

lemma like_inv:
  assumes "like s s'" and "inv_with A s" shows "inv_with A s'"
proof -
  have "cpus_ok s'" using assms same_cpu_ok
    by (simp add: inv_with_def cpus_ok_def idle_ok_def like_fields [OF assms(1)] like_sched_tasks [OF assms(1)])
      (metis like_def)
  moreover have "\<forall>t. lock_free (status (k_tasks s' t))"
    using assms by (simp add: inv_with_def like_def same_task_def)
  moreover have "used_once s'" "contexts_ok A s'"
    using assms(2) by (simp_all add: inv_with_def used_once_def contexts_ok_def like_resumable [OF assms(1)]
      like_fields [OF assms(1)] like_sched_tasks [OF assms(1)] like_uses [OF assms(1)])
  ultimately show ?thesis
    using assms(2) by (simp add: inv_with_def like_fields [OF assms(1)] like_sched_tasks [OF assms(1)])
qed

lemma like_saved:
  assumes "like s s'" and "saved_inv i s" shows "saved_inv i s'"
  using assms(2) like_inv [OF assms(1)]
  unfolding saved_inv_def like_fields [OF assms(1)] like_left [OF assms(1)] like_sched_tasks [OF assms(1)] by blast

lemma like_sched: "like s s' \<Longrightarrow> sched_inv s \<Longrightarrow> sched_inv s'"
  using like_inv [of s s' "left s"] by (simp add: sched_inv_def like_left)

section \<open>Saving the interrupted context\<close>

text \<open>What the first handler does to a task: to the current one, to the one left before, to the others.\<close>

definition stored :: "addr \<Rightarrow> task \<Rightarrow> task" where
  "stored c tk = (if pid tk > 0
     then tk\<lparr>t_context := (t_context tk)[nat (nested_interrupt tk) := c], nested_interrupt := nested_interrupt tk + 1\<rparr>
     else tk\<lparr>t_context := (t_context tk)[0 := c]\<rparr>)"

definition retired :: "task \<Rightarrow> task" where
  "retired tk = unlocked (tk\<lparr>is_running := False, nested_interrupt := nested_interrupt tk - 1\<rparr>)"

definition retires :: "nat \<Rightarrow> kern \<Rightarrow> addr \<Rightarrow> bool" where
  "retires i s t \<longleftrightarrow> t = save_task (cpu_of s i) \<and> t \<noteq> 0 \<and> t \<noteq> current_task (cpu_of s i) \<and> pid (k_tasks s t) > 0"

definition after_save :: "nat \<Rightarrow> addr \<Rightarrow> kern \<Rightarrow> addr \<Rightarrow> task" where
  "after_save i c s t = (if t = current_task (cpu_of s i) then stored c (k_tasks s t)
     else if retires i s t then retired (k_tasks s t) else k_tasks s t)"

lemma retire_saved_returns:
  assumes i: "i < length (k_cpus s)" "cpu_ok (cpu_of s i)" and "lock_free (status (k_tasks s t))"
    and n: "nested_interrupt (k_tasks s t) = 1 \<or> nested_interrupt (k_tasks s t) = 2"
  shows "\<exists>d. retire_saved i t s = Inr (set_cpu i d (upd_task t retired s)) \<and> same_cpu (cpu_of s i) d"
proof -
  let ?f = "\<lambda>tk. tk\<lparr>is_running := False, nested_interrupt := nested_interrupt tk - 1\<rparr>"
  have st: "status (?f (held i (k_tasks s t))) = status (held i (k_tasks s t))" by simp
  obtain d where d: "release i (status_get t) (status_put t)
        (upd_task t ?f (upd_task t (held i) (set_cpu i (push_off (cpu_of s i)) s))) =
      Inr (set_cpu i d (upd_task t (\<lambda>tk. unlocked (?f (held i tk))) s))" "same_cpu (cpu_of s i) d"
    using release_status [OF i, where f = ?f and t = t, OF st] by blast
  have "(\<lambda>tk. unlocked (?f (held i tk))) = retired"
    by (rule ext) (simp add: retired_def unlocked_def held_def)
  then show ?thesis using d n assms(3)
    by (auto simp: retire_saved_def acquire_status Let_def)
qed

lemma context_save_returns:
  assumes i: "i < length (k_cpus s)" "cpu_ok (cpu_of s i)" and free: "\<forall>t. lock_free (status (k_tasks s t))"
    and cur: "length (t_context (k_tasks s (current_task (cpu_of s i)))) = 2"
      "pid (k_tasks s (current_task (cpu_of s i))) > 0 \<Longrightarrow>
        nested_interrupt (k_tasks s (current_task (cpu_of s i))) \<in> {0, 1}"
    and sv: "\<And>t. retires i s t \<Longrightarrow> nested_interrupt (k_tasks s t) \<in> {1, 2}"
  shows "\<exists>d s'. kmt_context_save i c s = Inr (0, s') \<and> s' = s\<lparr>k_cpus := (k_cpus s)[i := d], k_tasks := after_save i c s\<rparr> \<and>
     current_task d = current_task (cpu_of s i) \<and> save_task d = current_task (cpu_of s i) \<and>
     idle_task d = idle_task (cpu_of s i) \<and> cpu_ok d \<and> ien d = ien (cpu_of s i)"
proof -
  let ?cur = "current_task (cpu_of s i)" and ?sv = "save_task (cpu_of s i)"
  let ?s1 = "upd_task ?cur (stored c) s"
  have store: "(if pid (k_tasks s ?cur) > 0 then
          res_bind (put_context ?cur (nested_interrupt (k_tasks s ?cur)) c s) (\<lambda>s1.
            Inr (upd_task ?cur (\<lambda>tk. tk\<lparr>nested_interrupt := nested_interrupt tk + 1\<rparr>) s1))
        else put_context ?cur 0 c s) = Inr ?s1"
    using cur by (auto simp: put_context_def upd_task_def stored_def)
  show ?thesis
  proof (cases "retires i s ?sv")
    case True
    then have other: "?sv \<noteq> ?cur" "?sv \<noteq> 0" "pid (k_tasks s ?sv) > 0" by (simp_all add: retires_def)
    have "lock_free (status (k_tasks ?s1 ?sv))" using free other by simp
    moreover have "nested_interrupt (k_tasks ?s1 ?sv) = 1 \<or> nested_interrupt (k_tasks ?s1 ?sv) = 2"
      using sv [OF True] other by auto
    ultimately obtain d where d: "retire_saved i ?sv ?s1 = Inr (set_cpu i d (upd_task ?sv retired ?s1))"
      "same_cpu (cpu_of s i) d"
      using retire_saved_returns [of i ?s1 ?sv] i by auto
    let ?s' = "set_save i ?cur (set_cpu i d (upd_task ?sv retired ?s1))"
    have "kmt_context_save i c s = Inr (0, ?s')"
      unfolding kmt_context_save_def Let_def store using other d(1) by simp
    moreover have "?s' = s\<lparr>k_cpus := (k_cpus s)[i := d\<lparr>save_task := ?cur\<rparr>], k_tasks := after_save i c s\<rparr>"
      using True other i by (simp add: set_save_def set_cpu_def upd_task_def cpu_of_def)
        (auto simp: fun_eq_iff after_save_def retires_def cpu_of_def)
    ultimately show ?thesis using d(2) i(2)
      by (intro exI [of _ "d\<lparr>save_task := ?cur\<rparr>"] exI [of _ ?s']) (simp add: same_cpu_def cpu_ok_def)
  next
    case False
    let ?s' = "set_save i ?cur ?s1"
    have "kmt_context_save i c s = Inr (0, ?s')"
      unfolding kmt_context_save_def Let_def store using False by (auto simp: retires_def)
    moreover have "?s' = s\<lparr>k_cpus := (k_cpus s)[i := (cpu_of s i)\<lparr>save_task := ?cur\<rparr>], k_tasks := after_save i c s\<rparr>"
      using False i by (simp add: set_save_def set_cpu_def upd_task_def cpu_of_def)
        (auto simp: fun_eq_iff after_save_def retires_def cpu_of_def)
    ultimately show ?thesis using i(2)
      by (intro exI [of _ "(cpu_of s i)\<lparr>save_task := ?cur\<rparr>"] exI [of _ ?s']) (simp add: cpu_ok_def)
  qed
qed

text \<open>What the invariant says of the tasks the first handler touches.\<close>

lemma inv_cpu:
  assumes "inv_with A s" and "j < length (k_cpus s)"
  shows "cpu_ok (cpu_of s j)" "current_task (cpu_of s j) \<in> sched_tasks s \<or> current_task (cpu_of s j) \<in> {0, idle_task (cpu_of s j)}"
    "save_task (cpu_of s j) \<in> sched_tasks s \<or> save_task (cpu_of s j) \<in> {0, idle_task (cpu_of s j)}"
    "idle_task (cpu_of s j) \<notin> sched_tasks s" "idle_ok (k_tasks s (idle_task (cpu_of s j)))" "idle_task (cpu_of s j) \<noteq> 0"
  using assms by (auto simp: inv_with_def cpus_ok_def)

lemma inv_idle_unique:
  "inv_with A s \<Longrightarrow> j < length (k_cpus s) \<Longrightarrow> k < length (k_cpus s) \<Longrightarrow>
     idle_task (cpu_of s j) = idle_task (cpu_of s k) \<Longrightarrow> j = k"
  by (simp add: inv_with_def cpus_ok_def)

lemma cpus_okI:
  assumes "\<And>j. j < length (k_cpus s) \<Longrightarrow> cpu_ok (cpu_of s j)"
    and "\<And>j. j < length (k_cpus s) \<Longrightarrow> current_task (cpu_of s j) \<in> sched_tasks s \<or> current_task (cpu_of s j) \<in> {0, idle_task (cpu_of s j)}"
    and "\<And>j. j < length (k_cpus s) \<Longrightarrow> save_task (cpu_of s j) \<in> sched_tasks s \<or> save_task (cpu_of s j) \<in> {0, idle_task (cpu_of s j)}"
    and "\<And>j. j < length (k_cpus s) \<Longrightarrow> idle_task (cpu_of s j) \<noteq> 0 \<and> idle_task (cpu_of s j) \<notin> sched_tasks s"
    and "\<And>j. j < length (k_cpus s) \<Longrightarrow> idle_ok (k_tasks s (idle_task (cpu_of s j)))"
    and "\<And>j k. j < length (k_cpus s) \<Longrightarrow> idle_task (cpu_of s j) = idle_task (cpu_of s k) \<Longrightarrow> k < length (k_cpus s) \<Longrightarrow> j = k"
  shows "cpus_ok s"
  using assms unfolding cpus_ok_def by meson

lemma inv_once: "inv_with A s \<Longrightarrow> t \<in> sched_tasks s \<Longrightarrow> uses s c t \<Longrightarrow> uses s d t \<Longrightarrow> c = d"
  by (auto simp: inv_with_def used_once_def)

lemma inv_running: "inv_with A s \<Longrightarrow> t \<in> sched_tasks s \<Longrightarrow> is_running (k_tasks s t) \<longleftrightarrow> (\<exists>c. uses s c t)"
  by (auto simp: inv_with_def used_once_def)

lemma inv_ahead: "inv_with A s \<Longrightarrow> t \<in> sched_tasks s \<Longrightarrow> t \<in> A \<Longrightarrow> resumable (k_tasks s t) (nested_interrupt (k_tasks s t) - 1)"
  by (auto simp: inv_with_def contexts_ok_def)

lemma inv_used: "inv_with A s \<Longrightarrow> t \<in> sched_tasks s \<Longrightarrow> t \<notin> A \<Longrightarrow> uses s c t \<Longrightarrow>
    nested_interrupt (k_tasks s t) \<in> {0, 1} \<and> length (t_context (k_tasks s t)) = 2"
  unfolding inv_with_def contexts_ok_def by (elim conjE ballE [of _ _ t]) (auto split: if_splits)

lemma inv_idle_tasks: "inv_with A s \<Longrightarrow> t \<in> sched_tasks s \<Longrightarrow> \<not> (\<exists>c. uses s c t) \<Longrightarrow> t \<notin> A \<Longrightarrow>
    resumable (k_tasks s t) (nested_interrupt (k_tasks s t))"
  unfolding inv_with_def contexts_ok_def by (elim conjE ballE [of _ _ t]) (auto split: if_splits)

lemma inv_pid: "inv_with A s \<Longrightarrow> t \<in> sched_tasks s \<Longrightarrow> pid (k_tasks s t) > 0"
  by (auto simp: inv_with_def contexts_ok_def)

lemma inv_pid_iff:
  assumes "inv_with A s" and "j < length (k_cpus s)" and "t = current_task (cpu_of s j) \<or> t = save_task (cpu_of s j)"
  shows "pid (k_tasks s t) > 0 \<longleftrightarrow> t \<in> sched_tasks s"
  using inv_cpu [OF assms(1,2)] inv_pid [OF assms(1)] assms(1,3) by (auto simp: idle_ok_def inv_with_def)

lemma current_not_left:
  assumes "inv_with A s" and "i < length (k_cpus s)" and "current_task (cpu_of s i) \<in> sched_tasks s"
  shows "current_task (cpu_of s i) \<notin> left s"
proof
  assume "current_task (cpu_of s i) \<in> left s"
  then obtain d where d: "leaving s d (current_task (cpu_of s i))" by (auto simp: left_def)
  then have "uses s d (current_task (cpu_of s i))" by (simp add: leaving_def uses_def)
  moreover have "uses s i (current_task (cpu_of s i))" using assms(2) by (simp add: uses_def)
  ultimately have "d = i" using inv_once assms by blast
  then show False using d by (simp add: leaving_def)
qed

lemma retires_left:
  assumes "inv_with A s" and "i < length (k_cpus s)" and "retires i s t"
  shows "t \<in> sched_tasks s \<and> t \<in> left s"
  using assms(3) inv_pid_iff [OF assms(1,2), of t] assms(2) by (auto simp: retires_def left_def leaving_def)

lemma sched_current_context:
  assumes inv: "sched_inv s" and i: "i < length (k_cpus s)"
  shows "length (t_context (k_tasks s (current_task (cpu_of s i)))) = 2"
    "pid (k_tasks s (current_task (cpu_of s i))) > 0 \<Longrightarrow>
        nested_interrupt (k_tasks s (current_task (cpu_of s i))) \<in> {0, 1}"
proof -
  let ?cur = "current_task (cpu_of s i)"
  have w: "inv_with (left s) s" using inv by (simp add: sched_inv_def)
  have u: "uses s i ?cur" using i by (simp add: uses_def)
  have used: "nested_interrupt (k_tasks s ?cur) \<in> {0, 1} \<and> length (t_context (k_tasks s ?cur)) = 2" if "?cur \<in> sched_tasks s"
    using inv_used [OF w that current_not_left [OF w i that] u] .
  then show "pid (k_tasks s ?cur) > 0 \<Longrightarrow> nested_interrupt (k_tasks s ?cur) \<in> {0, 1}"
    using inv_pid_iff [OF w i, of ?cur] by simp
  show "length (t_context (k_tasks s ?cur)) = 2"
    using used inv_cpu [OF w i] w by (auto simp: idle_ok_def inv_with_def)
qed

lemma sched_save_returns:
  assumes inv: "sched_inv s" and i: "i < length (k_cpus s)"
  shows "\<exists>d s'. kmt_context_save i c s = Inr (0, s') \<and> s' = s\<lparr>k_cpus := (k_cpus s)[i := d], k_tasks := after_save i c s\<rparr> \<and>
     current_task d = current_task (cpu_of s i) \<and> save_task d = current_task (cpu_of s i) \<and>
     idle_task d = idle_task (cpu_of s i) \<and> cpu_ok d \<and> ien d = ien (cpu_of s i)"
proof -
  have w: "inv_with (left s) s" using inv by (simp add: sched_inv_def)
  have "nested_interrupt (k_tasks s t) \<in> {1, 2}" if "retires i s t" for t
    using inv_ahead [OF w] retires_left [OF w i that] by (auto simp: resumable_def)
  then show ?thesis
    using context_save_returns [OF i inv_cpu(1) [OF w i] _ sched_current_context [OF inv i]] w
    by (simp add: inv_with_def)
qed

text \<open>The first handler establishes the invariant of the second.\<close>

lemma stored_ahead:
  assumes "pid tk > 0" and "nested_interrupt tk \<in> {0, 1}" and "length (t_context tk) = 2" and "c \<noteq> 0"
  shows "resumable (stored c tk) (nested_interrupt (stored c tk) - 1)"
  using assms by (auto simp: stored_def resumable_def)

lemma stored_idle: "idle_ok tk \<Longrightarrow> c \<noteq> 0 \<Longrightarrow> idle_ok (stored c tk)"
  by (auto simp: stored_def idle_ok_def)

lemma stored_fields [simp]:
  "pid (stored c tk) = pid tk" "is_running (stored c tk) = is_running tk" "block (stored c tk) = block tk"
  "status (stored c tk) = status tk" "length (t_context (stored c tk)) = length (t_context tk)"
  by (simp_all add: stored_def)

lemma retired_fields [simp]:
  "pid (retired tk) = pid tk" "\<not> is_running (retired tk)" "block (retired tk) = block tk"
  "lock_free (status (retired tk))" "t_context (retired tk) = t_context tk"
  "nested_interrupt (retired tk) = nested_interrupt tk - 1"
  by (simp_all add: retired_def)

lemma after_save_fields:
  "pid (after_save i c s t) = pid (k_tasks s t)" "block (after_save i c s t) = block (k_tasks s t)"
  "length (t_context (after_save i c s t)) = length (t_context (k_tasks s t))"
  "lock_free (status (k_tasks s t)) \<Longrightarrow> lock_free (status (after_save i c s t))"
  by (auto simp: after_save_def)

lemma context_save_inv:
  assumes inv: "sched_inv s" and i: "i < length (k_cpus s)" and c: "c \<noteq> 0"
    and d: "current_task d = current_task (cpu_of s i)" "save_task d = current_task (cpu_of s i)"
      "idle_task d = idle_task (cpu_of s i)" "cpu_ok d"
  shows "saved_inv i (s\<lparr>k_cpus := (k_cpus s)[i := d], k_tasks := after_save i c s\<rparr>)" (is "saved_inv i ?s'")
proof -
  let ?cur = "current_task (cpu_of s i)"
  have w: "inv_with (left s) s" using inv by (simp add: sched_inv_def)
  have cpu: "cpu_of ?s' j = (if j = i then d else cpu_of s j)" for j
    using i by (simp add: cpu_of_def nth_list_update)
  have T: "sched_tasks ?s' = sched_tasks s" by (simp add: sched_tasks_def)
  have uses: "uses ?s' j t \<longleftrightarrow> (if j = i then t = ?cur else uses s j t)" for j t
    using i d by (simp add: uses_def cpu)
  have left: "t \<in> left ?s' \<longleftrightarrow> (\<exists>j. j \<noteq> i \<and> leaving s j t)" for t
    using d by (auto simp: left_def leaving_def cpu)
  have ret: "uses s i t \<longleftrightarrow> t = ?cur \<or> retires i s t" if "t \<in> sched_tasks s" for t
    using that w i inv_pid [OF w that] by (auto simp: uses_def retires_def inv_with_def)
  have gone: "\<not> uses s j t" if "retires i s t" "j \<noteq> i" for j t
    using retires_left [OF w i that(1)] ret [of t] inv_once [OF w, of t i j] that by blast
  have once: "uses s j ?cur \<longrightarrow> j = i" if "?cur \<in> sched_tasks s" for j
    using inv_once [OF w that, of j i] i by (simp add: uses_def)
  have idle: "idle_ok (after_save i c s (idle_task (cpu_of s j)))" if "j < length (k_cpus s)" for j
    using inv_cpu [OF w that] stored_idle [OF _ c] by (auto simp: after_save_def retires_def idle_ok_def)
  have "cpus_ok ?s'"
  proof (rule cpus_okI)
    fix j assume "j < length (k_cpus ?s')"
    then have j: "j < length (k_cpus s)" by simp
    have same: "idle_task (cpu_of ?s' j) = idle_task (cpu_of s j)" "current_task (cpu_of ?s' j) = current_task (cpu_of s j)" for j
      using d by (simp_all add: cpu)
    show "cpu_ok (cpu_of ?s' j)" using inv_cpu(1) [OF w j] d by (simp add: cpu)
    show "current_task (cpu_of ?s' j) \<in> sched_tasks ?s' \<or> current_task (cpu_of ?s' j) \<in> {0, idle_task (cpu_of ?s' j)}"
      using inv_cpu(2) [OF w j] by (simp add: same T)
    show "save_task (cpu_of ?s' j) \<in> sched_tasks ?s' \<or> save_task (cpu_of ?s' j) \<in> {0, idle_task (cpu_of ?s' j)}"
      using inv_cpu(2,3) [OF w j] d by (auto simp: cpu T)
    show "idle_task (cpu_of ?s' j) \<noteq> 0 \<and> idle_task (cpu_of ?s' j) \<notin> sched_tasks ?s'"
      using inv_cpu(4,6) [OF w j] by (simp add: same T)
    show "idle_ok (k_tasks ?s' (idle_task (cpu_of ?s' j)))" using idle [OF j] by (simp add: same)
    show "idle_task (cpu_of ?s' j) = idle_task (cpu_of ?s' k) \<Longrightarrow> k < length (k_cpus ?s') \<Longrightarrow> j = k" for k
      using inv_idle_unique [OF w j, of k] by (simp add: same)
  qed
  moreover have "used_once ?s'"
    unfolding used_once_def T
  proof (intro ballI)
    fix t assume t: "t \<in> sched_tasks s"
    have a: "is_running (after_save i c s t) \<longleftrightarrow> (\<exists>j. uses ?s' j t)"
    proof (cases "t = ?cur")
      case True
      then have "uses s i t" using i by (simp add: uses_def)
      then show ?thesis using True inv_running [OF w t] by (auto simp: after_save_def uses)
    next
      case False
      have "(\<exists>j. uses ?s' j t) \<longleftrightarrow> (\<exists>j. uses s j t) \<and> \<not> retires i s t"
        using False ret [OF t] gone by (simp add: uses) metis
      then show ?thesis using False inv_running [OF w t] by (simp add: after_save_def)
    qed
    have b: "uses ?s' j t \<longrightarrow> uses ?s' k t \<longrightarrow> j = k" for j k
      using inv_once [OF w t, of j k] once t by (auto simp: uses)
    show "is_running (k_tasks ?s' t) = (\<exists>c. uses ?s' c t) \<and> (\<forall>c d. uses ?s' c t \<longrightarrow> uses ?s' d t \<longrightarrow> c = d)"
      using a b by simp
  qed
  moreover have "contexts_ok (insert ?cur (left ?s')) ?s'"
    unfolding contexts_ok_def T
  proof (intro ballI conjI)
    fix t assume t: "t \<in> sched_tasks s"
    show "pid (k_tasks ?s' t) > 0" using inv_pid [OF w t] by (simp add: after_save_fields)
    let ?goal = "if t \<in> insert ?cur (left ?s') then resumable (k_tasks ?s' t) (nested_interrupt (k_tasks ?s' t) - 1)
      else if \<exists>c. uses ?s' c t then
        (nested_interrupt (k_tasks ?s' t) = 0 \<or> nested_interrupt (k_tasks ?s' t) = 1) \<and> length (t_context (k_tasks ?s' t)) = 2
      else resumable (k_tasks ?s' t) (nested_interrupt (k_tasks ?s' t))"
    consider "t = ?cur" | "t \<noteq> ?cur" "retires i s t" | "t \<noteq> ?cur" "\<not> retires i s t" by blast
    then show ?goal
    proof cases
      case 1
      have "resumable (stored c (k_tasks s t)) (nested_interrupt (stored c (k_tasks s t)) - 1)"
        using 1 inv_pid [OF w t] sched_current_context [OF inv i] c by (intro stored_ahead) auto
      then show ?thesis using 1 by (simp add: after_save_def)
    next
      case 2
      have "t \<notin> left ?s'" using gone [OF 2(2)] by (auto simp: left leaving_def uses_def)
      moreover have "\<not> (\<exists>j. uses ?s' j t)" using gone [OF 2(2)] 2 by (auto simp: uses)
      moreover have "resumable (k_tasks s t) (nested_interrupt (k_tasks s t) - 1)"
        using retires_left [OF w i 2(2)] inv_ahead [OF w] by blast
      ultimately show ?thesis using 2 by (simp add: after_save_def resumable_def)
    next
      case 3
      have nu: "\<not> uses s i t" using ret [OF t] 3 by simp
      then have "t \<in> left ?s' \<longleftrightarrow> t \<in> left s"
        by (auto simp: left) (auto simp: left_def leaving_def uses_def)
      moreover have "(\<exists>j. uses ?s' j t) \<longleftrightarrow> (\<exists>j. uses s j t)" using nu 3 by (auto simp: uses)
      moreover have "k_tasks ?s' t = k_tasks s t" using 3 by (simp add: after_save_def)
      ultimately show ?thesis using w t 3 unfolding inv_with_def contexts_ok_def by (elim conjE ballE [of _ _ t]) auto
    qed
  qed
  ultimately show ?thesis
    using w d unfolding saved_inv_def inv_with_def by (simp add: cpu T after_save_fields)
qed

section \<open>Choosing the next task\<close>

text \<open>Trying a task that cannot run leaves everything but the locks as it was.\<close>

lemma like_rand [simp]: "like s (s\<lparr>k_rand := r\<rparr>)"
  by (simp add: like_def cpu_of_def)

lemma like_region:
  assumes "i < length (k_cpus s)" and "same_cpu (cpu_of s i) d"
  shows "like s (set_cpu i d (upd_task t (\<lambda>tk. unlocked (held i tk)) s))"
  using assms by (auto simp: like_def same_task_def)

definition chosen :: "nat \<Rightarrow> addr \<Rightarrow> kern \<Rightarrow> kern \<Rightarrow> bool" where
  "chosen i t s s' \<longleftrightarrow> t \<in> sched_tasks s \<and> \<not> block (k_tasks s t) \<and>
     (if t = current_task (cpu_of s i)
      then like (upd_task t (\<lambda>tk. tk\<lparr>nested_interrupt := nested_interrupt tk - 1\<rparr>) s) s'
      else \<not> is_running (k_tasks s t) \<and> like (set_current i t (upd_task t (is_running_update (\<lambda>_. True)) s)) s')"

lemma like_upd:
  assumes "like s s0" and "\<And>a b. same_task a b \<Longrightarrow> same_task (f a) (f b)"
  shows "like (upd_task t f s) (upd_task t f s0)"
  using assms by (auto simp: like_def)

lemma same_cpu_current: "same_cpu c d \<Longrightarrow> same_cpu (c\<lparr>current_task := t\<rparr>) (d\<lparr>current_task := t\<rparr>)"
  by (auto simp: same_cpu_def restored_def split: if_splits)

lemma like_set_current:
  assumes "like s s0" and "i < length (k_cpus s)" shows "like (set_current i t s) (set_current i t s0)"
  using assms same_cpu_current by (auto simp: like_def set_current_def)

lemma chosen_like:
  assumes "like s s0" and "i < length (k_cpus s)" and "chosen i t s0 s'" shows "chosen i t s s'"
proof -
  have "like (upd_task t (\<lambda>tk. tk\<lparr>nested_interrupt := nested_interrupt tk - 1\<rparr>) s)
      (upd_task t (\<lambda>tk. tk\<lparr>nested_interrupt := nested_interrupt tk - 1\<rparr>) s0)"
    by (rule like_upd [OF assms(1)]) (simp add: same_task_def)
  moreover have "like (set_current i t (upd_task t (is_running_update (\<lambda>_. True)) s))
      (set_current i t (upd_task t (is_running_update (\<lambda>_. True)) s0))"
    using assms(2) by (intro like_set_current like_upd [OF assms(1)]) (simp_all add: same_task_def)
  ultimately show ?thesis using assms(3) like_trans
    by (auto simp: chosen_def like_fields [OF assms(1)] like_sched_tasks [OF assms(1)] split: if_splits)
qed

lemma rand_id_range:
  assumes "2 \<le> k"
  shows "1 \<le> nat (r mod (k - 1) + 1)" "int (nat (r mod (k - 1) + 1)) < k"
proof -
  have "0 \<le> r mod (k - 1)" "r mod (k - 1) < k - 1" using assms by simp_all
  then show "1 \<le> nat (r mod (k - 1) + 1)" "int (nat (r mod (k - 1) + 1)) < k" by simp_all
qed

text \<open>The loop ends with no task, or with one that is free to run, locked in between and released.\<close>

lemma pick_loop_result:
  assumes "i < length (k_cpus s)" and "cpu_ok (cpu_of s i)" and "2 \<le> k_cnt s" and "k_cnt s \<le> int (length (k_list s))"
    and "\<forall>t. lock_free (status (k_tasks s t))"
  shows "(\<exists>s'. pick_loop i n s = Inr (False, s') \<and> like s s') \<or>
    (\<exists>t s'. pick_loop i n s = Inr (True, s') \<and> chosen i t s s')"
  using assms
proof (induction n arbitrary: s)
  case 0
  then show ?case by (auto intro: exI [of _ s])
next
  case (Suc n)
  obtain r nxt where r: "rand (k_rand s) = (r, nxt)" by fastforce
  define s0 where "s0 = s\<lparr>k_rand := nxt\<rparr>"
  define j where "j = nat (r mod (k_cnt s - 1) + 1)"
  define t where "t = k_list s0 ! j"
  have like0: "like s s0" by (simp add: s0_def)
  have j: "1 \<le> j" "int j < k_cnt s" using rand_id_range [OF Suc.prems(3)] by (simp_all add: j_def)
  have tin: "t \<in> sched_tasks s" using j by (auto simp: t_def s0_def sched_tasks_def)
  have jlen: "\<not> length (k_list s0) \<le> j" using j Suc.prems(4) by (simp add: s0_def)
  have i0: "i < length (k_cpus s0)" "cpu_ok (cpu_of s0 i)" and free0: "lock_free (status (k_tasks s0 t))"
    using Suc.prems by (simp_all add: s0_def cpu_of_def)
  have again: ?case if "pick_loop i (Suc n) s = pick_loop i n s1" "like s s1" for s1
  proof -
    note f = like_fields [OF that(2)]
    have "cpu_ok (cpu_of s1 i)" using that(2) Suc.prems(2) same_cpu_ok by (auto simp: like_def)
    moreover have "\<forall>t. lock_free (status (k_tasks s1 t))" using that(2) Suc.prems(5) by (simp add: like_def same_task_def)
    ultimately have "(\<exists>s'. pick_loop i n s1 = Inr (False, s') \<and> like s1 s') \<or>
      (\<exists>t s'. pick_loop i n s1 = Inr (True, s') \<and> chosen i t s1 s')"
      using Suc.prems by (intro Suc.IH) (simp_all add: f)
    then show ?thesis using that like_trans chosen_like [OF that(2) Suc.prems(1)] by metis
  qed
  have step: "pick_loop i (Suc n) s =
         (if t = current_task (cpu_of s0 i) then
           (if block (k_tasks s0 t) then pick_loop i n s0
            else
              let s1 = upd_task t (\<lambda>tk. tk\<lparr>nested_interrupt := nested_interrupt tk - 1\<rparr>) (set_current i t s0) in
              Inr (True, s1))
         else
           res_bind (acquire i (status_get t) (status_put t) s0) (\<lambda>s1.
           if is_running (k_tasks s1 t) \<or> block (k_tasks s1 t) then
             res_bind (release i (status_get t) (status_put t) s1) (\<lambda>s2. pick_loop i n s2)
           else
             let s2 = upd_task t (is_running_update (\<lambda>_. True)) s1 in
             res_bind (release i (status_get t) (status_put t) s2) (\<lambda>s3.
               if \<not> block (k_tasks s3 t) then Inr (True, set_current i t s3)
               else pick_loop i n s3)))"
  proof -
    have "k_cnt s - 1 \<noteq> 0" using Suc.prems(3) by simp
    then show ?thesis
      unfolding pick_loop.simps r Let_def prod.case s0_def [symmetric] j_def [symmetric] t_def [symmetric]
      using jlen by (simp only: if_False)
  qed
  let ?h = "upd_task t (held i) (set_cpu i (push_off (cpu_of s0 i)) s0)"
  have acq: "acquire i (status_get t) (status_put t) s0 = Inr ?h" by (rule acquire_status [OF free0])
  have rel: "\<exists>d. release i (status_get t) (status_put t) (upd_task t f ?h) =
      Inr (set_cpu i d (upd_task t (\<lambda>tk. unlocked (f (held i tk))) s0)) \<and> same_cpu (cpu_of s0 i) d"
    if "\<And>tk. status (f tk) = status tk" for f
    by (rule release_status [OF i0]) (simp add: that)
  consider "t = current_task (cpu_of s0 i)" "block (k_tasks s0 t)" | "t = current_task (cpu_of s0 i)" "\<not> block (k_tasks s0 t)"
    | "t \<noteq> current_task (cpu_of s0 i)" "is_running (k_tasks s0 t) \<or> block (k_tasks s0 t)"
    | "t \<noteq> current_task (cpu_of s0 i)" "\<not> is_running (k_tasks s0 t)" "\<not> block (k_tasks s0 t)" by blast
  then show ?case
  proof cases
    case 1
    then show ?thesis using again [OF _ like0] step by simp
  next
    case 2
    let ?f = "\<lambda>tk. tk\<lparr>nested_interrupt := nested_interrupt tk - 1\<rparr>"
    have noop: "set_current i t s0 = s0" using 2 by (simp add: set_current_def set_cpu_def cpu_of_def)
    have "like (upd_task t ?f s) (upd_task t ?f s0)" by (rule like_upd [OF like0]) (simp add: same_task_def)
    then have "chosen i t s (upd_task t ?f s0)"
      using 2 tin by (simp add: chosen_def s0_def cpu_of_def)
    moreover have "pick_loop i (Suc n) s = Inr (True, upd_task t ?f s0)"
      unfolding step noop using 2 by (simp add: Let_def)
    ultimately show ?thesis by blast
  next
    case 3
    have id: "upd_task t (\<lambda>tk. tk) ?h = ?h" by (simp add: upd_task_def)
    obtain d where d: "release i (status_get t) (status_put t) ?h =
      Inr (set_cpu i d (upd_task t (\<lambda>tk. unlocked (held i tk)) s0))" "same_cpu (cpu_of s0 i) d"
      using rel [of "\<lambda>tk. tk"] by (auto simp: id)
    have "pick_loop i (Suc n) s = pick_loop i n (set_cpu i d (upd_task t (\<lambda>tk. unlocked (held i tk)) s0))"
      unfolding step acq using 3 d(1) by simp
    then show ?thesis using again like_trans [OF like0 like_region [OF i0(1) d(2)]] by blast
  next
    case 4
    let ?f = "is_running_update (\<lambda>_. True)"
    obtain d where d: "release i (status_get t) (status_put t) (upd_task t ?f ?h) =
      Inr (set_cpu i d (upd_task t (\<lambda>tk. unlocked (?f (held i tk))) s0))" "same_cpu (cpu_of s0 i) d"
      using rel [of ?f] by auto
    let ?s' = "set_current i t (set_cpu i d (upd_task t (\<lambda>tk. unlocked (?f (held i tk))) s0))"
    have run: "pick_loop i (Suc n) s = Inr (True, ?s')"
      unfolding step acq using 4 d(1) by (simp add: Let_def)
    have "like (upd_task t ?f s0) (set_cpu i d (upd_task t (\<lambda>tk. unlocked (?f (held i tk))) s0))"
      using i0 d(2) by (auto simp: like_def same_task_def)
    then have "like (set_current i t (upd_task t ?f s0)) ?s'"
      using i0 by (intro like_set_current) simp_all
    then have "chosen i t s0 ?s'"
      using 4 tin by (simp add: chosen_def s0_def sched_tasks_def)
    then show ?thesis using run chosen_like [OF like0 Suc.prems(1)] by blast
  qed
qed

text \<open>Choosing a task keeps the invariant: the current one goes back one context, another starts to run.\<close>

lemma inv_withI:
  assumes "inv_with A s0" and same: "k_list s = k_list s0" "k_cnt s = k_cnt s0"
    and "\<forall>t. lock_free (status (k_tasks s t))" and "k_tasks s 0 = k_tasks s0 0"
    and "cpus_ok s" and "used_once s" and "contexts_ok B s"
  shows "inv_with B s"
  using assms by (simp add: inv_with_def sched_tasks_def)

lemma contexts_okI:
  assumes "\<And>t. t \<in> sched_tasks s \<Longrightarrow> pid (k_tasks s t) > 0"
    and "\<And>t. t \<in> sched_tasks s \<Longrightarrow> t \<in> A \<Longrightarrow> resumable (k_tasks s t) (nested_interrupt (k_tasks s t) - 1)"
    and "\<And>t. t \<in> sched_tasks s \<Longrightarrow> t \<notin> A \<Longrightarrow> \<exists>c. uses s c t \<Longrightarrow>
      nested_interrupt (k_tasks s t) \<in> {0, 1} \<and> length (t_context (k_tasks s t)) = 2"
    and "\<And>t. t \<in> sched_tasks s \<Longrightarrow> t \<notin> A \<Longrightarrow> \<not> (\<exists>c. uses s c t) \<Longrightarrow> resumable (k_tasks s t) (nested_interrupt (k_tasks s t))"
  shows "contexts_ok A s"
  unfolding contexts_ok_def using assms by simp

lemma used_onceI:
  assumes "\<And>t. t \<in> sched_tasks s \<Longrightarrow> is_running (k_tasks s t) \<longleftrightarrow> (\<exists>c. uses s c t)"
    and "\<And>t c d. t \<in> sched_tasks s \<Longrightarrow> uses s c t \<Longrightarrow> uses s d t \<Longrightarrow> c = d"
  shows "used_once s"
  unfolding used_once_def using assms by meson

lemma chosen_current_inv:
  assumes s: "saved_inv i s" and i: "i < length (k_cpus s)"
    and t: "t = current_task (cpu_of s i)" "t \<in> sched_tasks s"
  shows "sched_inv (upd_task t (\<lambda>tk. tk\<lparr>nested_interrupt := nested_interrupt tk - 1\<rparr>) s)" (is "sched_inv ?s'")
    and "resumable (k_tasks s t) (nested_interrupt (k_tasks s t) - 1)"
proof -
  let ?A = "insert (save_task (cpu_of s i)) (left s)"
  have w: "inv_with ?A s" and sv: "save_task (cpu_of s i) = t" using s t unfolding saved_inv_def by blast+
  have T: "sched_tasks ?s' = sched_tasks s" "left ?s' = left s" "\<And>c x. uses ?s' c x = uses s c x"
    by (simp_all add: sched_tasks_def left_def leaving_def uses_def)
  show res: "resumable (k_tasks s t) (nested_interrupt (k_tasks s t) - 1)"
    using inv_ahead [OF w t(2)] sv by simp
  have notleft: "t \<notin> left s" using current_not_left [OF w i] t by simp
  have used: "uses s i t" using i t by (simp add: uses_def)
  have "t \<noteq> 0" using w t by (auto simp: inv_with_def)
  have idle: "idle_task (cpu_of s j) \<noteq> t" if "j < length (k_cpus s)" for j using inv_cpu(4) [OF w that] t by auto
  have "cpus_ok ?s'" using w idle by (simp add: inv_with_def cpus_ok_def T)
  moreover have "used_once ?s'"
    by (rule used_onceI) (use inv_running [OF w] inv_once [OF w] in \<open>auto simp: T\<close>)
  moreover have "contexts_ok (left ?s') ?s'"
  proof (rule contexts_okI)
    fix x assume x: "x \<in> sched_tasks ?s'"
    then have xs: "x \<in> sched_tasks s" by (simp add: T)
    show "pid (k_tasks ?s' x) > 0" using inv_pid [OF w xs] by auto
    show "resumable (k_tasks ?s' x) (nested_interrupt (k_tasks ?s' x) - 1)" if "x \<in> left ?s'"
      using that notleft inv_ahead [OF w xs] by (auto simp: T)
    show "nested_interrupt (k_tasks ?s' x) \<in> {0, 1} \<and> length (t_context (k_tasks ?s' x)) = 2"
      if "x \<notin> left ?s'" "\<exists>c. uses ?s' c x"
      using that inv_used [OF w xs] res sv by (auto simp: T resumable_def)
    show "resumable (k_tasks ?s' x) (nested_interrupt (k_tasks ?s' x))" if "x \<notin> left ?s'" "\<not> (\<exists>c. uses ?s' c x)"
    proof -
      have "x \<noteq> t" using that used by (auto simp: T)
      then show ?thesis using that inv_idle_tasks [OF w xs] sv by (simp add: T)
    qed
  qed
  ultimately have "inv_with (left ?s') ?s'"
    using w \<open>t \<noteq> 0\<close> by (intro inv_withI [OF w]) (simp_all add: inv_with_def)
  then show "sched_inv ?s'" by (simp add: sched_inv_def)
qed

text \<open>Switching a CPU to a task nobody uses, or to its idle task.\<close>

lemma switch_inv:
  assumes s: "saved_inv i s" and i: "i < length (k_cpus s)"
    and t: "t \<in> sched_tasks s \<and> \<not> is_running (k_tasks s t) \<or> t = idle_task (cpu_of s i)"
    and s': "s' = set_current i t (if t \<in> sched_tasks s then upd_task t (is_running_update (\<lambda>_. True)) s else s)"
  shows "sched_inv s'" and "t \<in> sched_tasks s \<Longrightarrow> resumable (k_tasks s t) (nested_interrupt (k_tasks s t))"
proof -
  let ?sv = "save_task (cpu_of s i)"
  let ?A = "insert ?sv (left s)"
  have w: "inv_with ?A s" using s unfolding saved_inv_def by blast
  have cs: "current_task (cpu_of s i) \<in> sched_tasks s \<Longrightarrow> current_task (cpu_of s i) = ?sv"
    using s unfolding saved_inv_def by metis
  have cpu: "cpu_of s' j = (if j = i then (cpu_of s i)\<lparr>current_task := t\<rparr> else cpu_of s j)" for j
    using i by (simp add: s' set_current_def)
  have tasks: "k_tasks s' x = (if x = t \<and> t \<in> sched_tasks s then (k_tasks s x)\<lparr>is_running := True\<rparr> else k_tasks s x)" for x
    by (simp add: s' set_current_def)
  have fields: "k_list s' = k_list s" "k_cnt s' = k_cnt s" "length (k_cpus s') = length (k_cpus s)"
    by (simp_all add: s' set_current_def)
  have T: "sched_tasks s' = sched_tasks s" by (simp add: sched_tasks_def fields)
  have free: "\<not> uses s c t" if "t \<in> sched_tasks s" for c
    using t inv_running [OF w that] inv_cpu(4) [OF w i] that by auto
  have uses: "uses s' c x \<longleftrightarrow> uses s c x \<or> c = i \<and> x = t" if "x \<in> sched_tasks s" for c x
    using that i cs by (auto simp: uses_def cpu fields)
  have "?sv \<noteq> t" if "t \<in> sched_tasks s" using free [OF that, of i] i by (auto simp: uses_def)
  moreover have "?sv \<noteq> t" if "?sv \<in> sched_tasks s" "t \<notin> sched_tasks s" using that by auto
  ultimately have svt: "?sv \<noteq> t" if "?sv \<in> sched_tasks s" using that by blast
  have leaves: "leaving s' j x \<longleftrightarrow> (if j = i then x = ?sv \<and> x \<noteq> t else leaving s j x)" for j x
    using i by (simp add: leaving_def cpu fields)
  have left: "x \<in> left s' \<longleftrightarrow> x \<in> ?A" if "x \<in> sched_tasks s" for x
  proof
    show "x \<in> left s' \<Longrightarrow> x \<in> ?A" by (auto simp: left_def leaves split: if_splits)
    assume "x \<in> ?A"
    show "x \<in> left s'"
    proof (cases "x = ?sv")
      case True
      then have "leaving s' i x" using svt that by (simp add: leaves)
      then show ?thesis by (auto simp: left_def)
    next
      case False
      then obtain j where "leaving s j x" using \<open>x \<in> ?A\<close> by (auto simp: left_def)
      moreover from this False have "j \<noteq> i" by (auto simp: leaving_def)
      ultimately have "leaving s' j x" by (simp add: leaves)
      then show ?thesis by (auto simp: left_def)
    qed
  qed
  have tA: "t \<notin> ?A" if "t \<in> sched_tasks s"
    using free [OF that] i by (auto simp: left_def leaving_def uses_def)
  show res: "t \<in> sched_tasks s \<Longrightarrow> resumable (k_tasks s t) (nested_interrupt (k_tasks s t))"
    using inv_idle_tasks [OF w] free tA by blast
  have same: "pid (k_tasks s' x) = pid (k_tasks s x)" "nested_interrupt (k_tasks s' x) = nested_interrupt (k_tasks s x)"
    "t_context (k_tasks s' x) = t_context (k_tasks s x)" "status (k_tasks s' x) = status (k_tasks s x)"
    "resumable (k_tasks s' x) n = resumable (k_tasks s x) n" "idle_ok (k_tasks s' x) = idle_ok (k_tasks s x)" for x n
    by (simp_all add: tasks resumable_def idle_ok_def)
  have "cpus_ok s'"
  proof (rule cpus_okI)
    fix j assume "j < length (k_cpus s')"
    then have j: "j < length (k_cpus s)" by (simp add: fields)
    have cj: "idle_task (cpu_of s' j) = idle_task (cpu_of s j)" "save_task (cpu_of s' j) = save_task (cpu_of s j)" for j
      by (simp_all add: cpu)
    show "cpu_ok (cpu_of s' j)" using inv_cpu(1) [OF w j] by (auto simp: cpu cpu_ok_def)
    show "current_task (cpu_of s' j) \<in> sched_tasks s' \<or> current_task (cpu_of s' j) \<in> {0, idle_task (cpu_of s' j)}"
      using inv_cpu(2) [OF w j] t by (auto simp: cpu T)
    show "save_task (cpu_of s' j) \<in> sched_tasks s' \<or> save_task (cpu_of s' j) \<in> {0, idle_task (cpu_of s' j)}"
      using inv_cpu(3) [OF w j] by (simp add: cj T)
    show "idle_task (cpu_of s' j) \<noteq> 0 \<and> idle_task (cpu_of s' j) \<notin> sched_tasks s'"
      using inv_cpu(4,6) [OF w j] by (simp add: cj T)
    show "idle_ok (k_tasks s' (idle_task (cpu_of s' j)))" using inv_cpu(5) [OF w j] by (simp add: cj same)
    show "idle_task (cpu_of s' j) = idle_task (cpu_of s' k) \<Longrightarrow> k < length (k_cpus s') \<Longrightarrow> j = k" for k
      using inv_idle_unique [OF w j, of k] by (simp add: cj fields)
  qed
  moreover have "used_once s'"
  proof (rule used_onceI)
    fix x assume "x \<in> sched_tasks s'"
    then have x: "x \<in> sched_tasks s" by (simp add: T)
    show "is_running (k_tasks s' x) \<longleftrightarrow> (\<exists>c. uses s' c x)"
      using inv_running [OF w x] uses [OF x] x by (auto simp: tasks)
    show "uses s' c x \<Longrightarrow> uses s' d x \<Longrightarrow> c = d" for c d
      using inv_once [OF w x, of c d] uses [OF x, of c] uses [OF x, of d] free [of c] free [of d] x
      by (cases "x = t") simp_all
  qed
  moreover have "contexts_ok (left s') s'"
  proof (rule contexts_okI)
    fix x assume "x \<in> sched_tasks s'"
    then have x: "x \<in> sched_tasks s" by (simp add: T)
    show "pid (k_tasks s' x) > 0" using inv_pid [OF w x] by (simp add: same)
    show "resumable (k_tasks s' x) (nested_interrupt (k_tasks s' x) - 1)" if "x \<in> left s'"
      using that left [OF x] inv_ahead [OF w x] by (simp add: same)
    show "nested_interrupt (k_tasks s' x) \<in> {0, 1} \<and> length (t_context (k_tasks s' x)) = 2"
      if nl: "x \<notin> left s'" and us: "\<exists>c. uses s' c x"
    proof (cases "x = t")
      case True
      then show ?thesis using res x by (auto simp: same resumable_def)
    next
      case False
      obtain c where "uses s' c x" using us by blast
      then have "uses s c x" using uses [OF x, of c] False by simp
      then show ?thesis using nl left [OF x] inv_used [OF w x] unfolding same by blast
    qed
    show "resumable (k_tasks s' x) (nested_interrupt (k_tasks s' x))" if "x \<notin> left s'" "\<not> (\<exists>c. uses s' c x)"
      using that left [OF x] uses [OF x] inv_idle_tasks [OF w x] by (simp add: same)
  qed
  moreover have "k_tasks s' 0 = k_tasks s 0" using w by (auto simp: tasks inv_with_def)
  ultimately have "inv_with (left s') s'"
    using w fields by (intro inv_withI [OF w]) (simp_all add: inv_with_def same)
  then show "sched_inv s'" by (simp add: sched_inv_def)
qed

lemma inv_with_cong:
  assumes "inv_with A s" and "\<And>t. t \<in> sched_tasks s \<Longrightarrow> t \<in> B \<longleftrightarrow> t \<in> A"
  shows "inv_with B s"
  using assms by (simp add: inv_with_def contexts_ok_def)

lemma first_task_inv:
  assumes s: "saved_inv i s" and i: "i < length (k_cpus s)" and "current_task (cpu_of s i) = 0"
  shows "saved_inv i (set_current i (idle_task (cpu_of s i)) s)" (is "saved_inv i ?s0")
proof -
  have w: "inv_with (insert (save_task (cpu_of s i)) (left s)) s" using s unfolding saved_inv_def by blast
  have sv: "save_task (cpu_of s i) \<notin> sched_tasks s"
    using s assms(3) w unfolding saved_inv_def inv_with_def by metis
  have id: "idle_task (cpu_of s i) \<notin> sched_tasks s" using inv_cpu(4) [OF w i] .
  have T: "sched_tasks ?s0 = sched_tasks s" by (simp add: sched_tasks_def set_current_def)
  have cpu: "cpu_of ?s0 i = (cpu_of s i)\<lparr>current_task := idle_task (cpu_of s i)\<rparr>"
    using i by (simp add: set_current_def)
  have "inv_with (left ?s0) ?s0"
    using switch_inv(1) [OF s i, of "idle_task (cpu_of s i)" ?s0] id by (simp add: sched_inv_def)
  then have "inv_with (insert (save_task (cpu_of ?s0 i)) (left ?s0)) ?s0"
    by (rule inv_with_cong) (use sv in \<open>auto simp: T cpu\<close>)
  then show ?thesis using sv id unfolding saved_inv_def T cpu by simp
qed

lemma chosen_inv:
  assumes s: "saved_inv i s" and i: "i < length (k_cpus s)" and c: "chosen i t s s'"
  shows "sched_inv s'" "current_task (cpu_of s' i) = t" "t \<in> sched_tasks s'"
    "resumable (k_tasks s' t) (nested_interrupt (k_tasks s' t))" "\<not> block (k_tasks s' t)"
    "length (k_cpus s') = length (k_cpus s)" "save_task (cpu_of s' i) = save_task (cpu_of s i)"
proof -
  have t: "t \<in> sched_tasks s" "\<not> block (k_tasks s t)" using c by (simp_all add: chosen_def)
  let ?down = "upd_task t (\<lambda>tk. tk\<lparr>nested_interrupt := nested_interrupt tk - 1\<rparr>) s"
  let ?switch = "set_current i t (upd_task t (is_running_update (\<lambda>_. True)) s)"
  have "\<exists>s1. like s1 s' \<and> sched_inv s1 \<and> current_task (cpu_of s1 i) = t \<and> sched_tasks s1 = sched_tasks s \<and>
      resumable (k_tasks s1 t) (nested_interrupt (k_tasks s1 t)) \<and> \<not> block (k_tasks s1 t) \<and>
      length (k_cpus s1) = length (k_cpus s) \<and> save_task (cpu_of s1 i) = save_task (cpu_of s i)"
  proof (cases "t = current_task (cpu_of s i)")
    case True
    then have "like ?down s'" using c by (simp add: chosen_def)
    moreover have "sched_inv ?down" "resumable (k_tasks s t) (nested_interrupt (k_tasks s t) - 1)"
      using chosen_current_inv [OF s i True t(1)] by blast+
    ultimately show ?thesis using True t
      by (intro exI [of _ ?down]) (simp add: sched_tasks_def resumable_def)
  next
    case False
    then have l: "like ?switch s'" and r: "\<not> is_running (k_tasks s t)" using c by (simp_all add: chosen_def)
    have "sched_inv ?switch" using switch_inv(1) [OF s i, of t ?switch] t r by simp
    moreover have "resumable (k_tasks s t) (nested_interrupt (k_tasks s t))"
      using switch_inv(2) [OF s i, of t ?switch] t r by simp
    ultimately show ?thesis using l t i
      by (intro exI [of _ ?switch]) (simp add: sched_tasks_def resumable_def set_current_def)
  qed
  then obtain s1 where s1: "like s1 s'" "sched_inv s1" "current_task (cpu_of s1 i) = t" "sched_tasks s1 = sched_tasks s"
      "resumable (k_tasks s1 t) (nested_interrupt (k_tasks s1 t))" "\<not> block (k_tasks s1 t)"
      "length (k_cpus s1) = length (k_cpus s)" "save_task (cpu_of s1 i) = save_task (cpu_of s i)" by blast
  note f = like_fields [OF s1(1)]
  show "sched_inv s'" by (rule like_sched [OF s1(1,2)])
  show "current_task (cpu_of s' i) = t" using s1 by (simp add: f)
  show "t \<in> sched_tasks s'" using s1 t by (simp add: like_sched_tasks [OF s1(1)])
  show "resumable (k_tasks s' t) (nested_interrupt (k_tasks s' t))"
    using s1 by (simp add: f like_resumable [OF s1(1)])
  show "\<not> block (k_tasks s' t)" "length (k_cpus s') = length (k_cpus s)"
    "save_task (cpu_of s' i) = save_task (cpu_of s i)" using s1 by (simp_all add: f)
qed

lemma schedule_returns:
  assumes s: "saved_inv i s" and i: "i < length (k_cpus s)"
  shows "\<exists>r s'. kmt_schedule i c s = Inr (r, s') \<and> r \<noteq> 0 \<and> sched_inv s' \<and> length (k_cpus s') = length (k_cpus s) \<and>
     \<not> block (k_tasks s' (current_task (cpu_of s' i))) \<and>
     r = t_context (k_tasks s' (current_task (cpu_of s' i))) ! nat (nested_interrupt (k_tasks s' (current_task (cpu_of s' i))))"
proof -
  let ?id = "idle_task (cpu_of s i)"
  define s0 where "s0 = (if current_task (cpu_of s i) = 0 then set_current i ?id s else s)"
  have s0: "saved_inv i s0" using s first_task_inv [OF s i] by (simp add: s0_def)
  have i0: "i < length (k_cpus s0)" and len0: "length (k_cpus s0) = length (k_cpus s)"
    using i by (simp_all add: s0_def set_current_def)
  have w: "inv_with (insert (save_task (cpu_of s0 i)) (left s0)) s0" using s0 unfolding saved_inv_def by blast
  have cur0: "current_task (cpu_of s0 i) \<noteq> 0"
    using s inv_cpu(6) [of "insert (save_task (cpu_of s i)) (left s)" s i] i
    unfolding s0_def saved_inv_def by (simp add: set_current_def)
  have pre: "cpu_ok (cpu_of s0 i)" "2 \<le> k_cnt s0" "k_cnt s0 \<le> int (length (k_list s0))"
    "\<forall>t. lock_free (status (k_tasks s0 t))" using w inv_cpu(1) [OF w i0] by (simp_all add: inv_with_def)
  have step: "kmt_schedule i c s = res_bind (pick_loop i (nat (k_cnt s0 * 10)) s0) (\<lambda>(fine_task, s1).
       if block (k_tasks s1 (current_task (cpu_of s1 i))) \<and> fine_task then Inl (Panic ''Current task is blocked'')
       else if current_task (cpu_of s1 i) = 0 then Inl (Panic ''No task to schedule'')
       else
         let s2 = (if fine_task then s1 else set_current i (idle_task (cpu_of s1 i)) s1);
             cur = current_task (cpu_of s2 i);
             n = nested_interrupt (k_tasks s2 cur) in
         if block (k_tasks s2 cur) then Inl (Panic ''Current task is blocked'')
         else if n < 0 \<or> int (length (t_context (k_tasks s2 cur))) \<le> n then Inl Undefined
         else if \<not> fine_task then Inr (t_context (k_tasks s2 (idle_task (cpu_of s2 i))) ! 0, s2)
         else
           let ret = t_context (k_tasks s2 cur) ! nat n in
           if ret = 0 then Inl (Panic ''No context to schedule'') else Inr (ret, s2))"
    unfolding kmt_schedule_def s0_def Let_def ..
  consider (none) s1 where "pick_loop i (nat (k_cnt s0 * 10)) s0 = Inr (False, s1)" "like s0 s1"
    | (one) t s1 where "pick_loop i (nat (k_cnt s0 * 10)) s0 = Inr (True, s1)" "chosen i t s0 s1"
    using pick_loop_result [OF i0 pre] by blast
  then show ?thesis
  proof cases
    case none
    have s1: "saved_inv i s1" by (rule like_saved [OF none(2) s0])
    have i1: "i < length (k_cpus s1)" and l1: "length (k_cpus s1) = length (k_cpus s)"
      using i0 len0 by (simp_all add: like_fields [OF none(2)])
    let ?id = "idle_task (cpu_of s1 i)"
    let ?s2 = "set_current i ?id s1"
    have w1: "inv_with (insert (save_task (cpu_of s1 i)) (left s1)) s1" using s1 unfolding saved_inv_def by blast
    have "current_task (cpu_of s1 i) \<noteq> 0" using cur0 by (simp add: like_fields [OF none(2)])
    moreover have ok: "idle_ok (k_tasks s1 ?id)" "?id \<notin> sched_tasks s1" using inv_cpu(4,5) [OF w1 i1] by blast+
    moreover have c2: "cpu_of ?s2 i = (cpu_of s1 i)\<lparr>current_task := ?id\<rparr>" "k_tasks ?s2 = k_tasks s1"
      using i1 by (simp_all add: set_current_def)
    ultimately have "kmt_schedule i c s = Inr (t_context (k_tasks s1 ?id) ! 0, ?s2)"
      unfolding step none(1) by (simp add: Let_def idle_ok_def)
    moreover have "sched_inv ?s2" using switch_inv(1) [OF s1 i1, of ?id ?s2] ok by simp
    ultimately show ?thesis using ok l1 c2
      by (intro exI [of _ "t_context (k_tasks s1 ?id) ! 0"] exI [of _ ?s2]) (simp add: idle_ok_def set_current_def)
  next
    case one
    note ch = chosen_inv [OF s0 i0 one(2)]
    have "t \<noteq> 0" using ch(1,3) by (auto simp: sched_inv_def inv_with_def)
    moreover have n: "nested_interrupt (k_tasks s1 t) \<in> {0, 1}" "length (t_context (k_tasks s1 t)) = 2"
      "t_context (k_tasks s1 t) ! nat (nested_interrupt (k_tasks s1 t)) \<noteq> 0" using ch(4) by (auto simp: resumable_def)
    ultimately have "kmt_schedule i c s = Inr (t_context (k_tasks s1 t) ! nat (nested_interrupt (k_tasks s1 t)), s1)"
      unfolding step one(1) using ch(2,5) by (auto simp: Let_def)
    then show ?thesis using ch n len0 by auto
  qed
qed

section \<open>Traps\<close>

text \<open>
  The two handlers of the kernel, in the order of their registration. \<open>trap_state\<close> is what a
  trap leaves behind and which context the CPU resumes.
\<close>

definition switch_context :: "nat \<Rightarrow> addr \<Rightarrow> kern \<Rightarrow> (addr \<times> kern) res" where
  "switch_context i c s = res_bind (kmt_context_save i c s) (\<lambda>(_, s1). kmt_schedule i c s1)"

lemma switch_context_returns:
  assumes "sched_inv s" and i: "i < length (k_cpus s)" and "c \<noteq> 0"
  shows "\<exists>r s'. switch_context i c s = Inr (r, s') \<and> r \<noteq> 0 \<and> sched_inv s' \<and> length (k_cpus s') = length (k_cpus s) \<and>
     \<not> block (k_tasks s' (current_task (cpu_of s' i))) \<and>
     r = t_context (k_tasks s' (current_task (cpu_of s' i))) ! nat (nested_interrupt (k_tasks s' (current_task (cpu_of s' i))))"
proof -
  obtain d s1 where save: "kmt_context_save i c s = Inr (0, s1)"
    and s1: "s1 = s\<lparr>k_cpus := (k_cpus s)[i := d], k_tasks := after_save i c s\<rparr>"
    and d: "current_task d = current_task (cpu_of s i)" "save_task d = current_task (cpu_of s i)"
      "idle_task d = idle_task (cpu_of s i)" "cpu_ok d"
    using sched_save_returns [OF assms(1) i, of c] by blast
  have "saved_inv i s1" unfolding s1 by (rule context_save_inv [OF assms d])
  moreover have "i < length (k_cpus s1)" "length (k_cpus s1) = length (k_cpus s)" using i by (simp_all add: s1)
  ultimately show ?thesis using schedule_returns [of i s1 c] by (simp add: switch_context_def save)
qed

text \<open>
  What changes the scheduler's state: a trap on some CPU, a semaphore or a lock that blocks or
  wakes a task, the beginning and the end of a system call of the task that a CPU runs.
\<close>

inductive sched_step :: "kern \<Rightarrow> kern \<Rightarrow> bool" where
  trap: "sched_step s s'" if "i < length (k_cpus s)" "c \<noteq> 0" "switch_context i c s = Inr (r, s')"
| blocking: "sched_step s (upd_task t (block_update (\<lambda>_. b)) s)" if "t \<in> sched_tasks s"
| enter: "sched_step s (upd_task t (\<lambda>tk. tk\<lparr>nested_interrupt := nested_interrupt tk + 1\<rparr>) s)"
    if "i < length (k_cpus s)" "t = current_task (cpu_of s i)" "t \<in> sched_tasks s" "nested_interrupt (k_tasks s t) = 0"
| leave: "sched_step s (upd_task t (\<lambda>tk. tk\<lparr>nested_interrupt := nested_interrupt tk - 1\<rparr>) s)"
    if "i < length (k_cpus s)" "t = current_task (cpu_of s i)" "t \<in> sched_tasks s" "nested_interrupt (k_tasks s t) = 1"

inductive sched_reach :: "kern \<Rightarrow> kern \<Rightarrow> bool" for s0 where
  start: "sched_reach s0 s0"
| step: "sched_reach s0 s'" if "sched_reach s0 s" "sched_step s s'"

inductive_simps sched_reach_iff: "sched_reach s0 s"
inductive_cases sched_stepE: "sched_step s s'"

lemma upd_task_inv:
  assumes inv: "sched_inv s" and t: "t \<in> sched_tasks s"
    and f: "pid (f (k_tasks s t)) = pid (k_tasks s t)" "is_running (f (k_tasks s t)) = is_running (k_tasks s t)"
      "status (f (k_tasks s t)) = status (k_tasks s t)" "t_context (f (k_tasks s t)) = t_context (k_tasks s t)"
    and n: "nested_interrupt (f (k_tasks s t)) = nested_interrupt (k_tasks s t) \<or>
      (\<exists>i. i < length (k_cpus s) \<and> t = current_task (cpu_of s i)) \<and> nested_interrupt (f (k_tasks s t)) \<in> {0, 1}"
  shows "sched_inv (upd_task t f s)"
proof -
  let ?s' = "upd_task t f s"
  have w: "inv_with (left s) s" using inv by (simp add: sched_inv_def)
  have T: "sched_tasks ?s' = sched_tasks s" "left ?s' = left s" "\<And>c x. uses ?s' c x = uses s c x"
    by (simp_all add: sched_tasks_def left_def leaving_def uses_def)
  have t0: "t \<noteq> 0" using w t by (auto simp: inv_with_def)
  have idle: "idle_task (cpu_of s j) \<noteq> t" if "j < length (k_cpus s)" for j using inv_cpu(4) [OF w that] t by auto
  have ctx: "t \<notin> left s \<and> (\<exists>c. uses s c t)" if "\<exists>i. i < length (k_cpus s) \<and> t = current_task (cpu_of s i)"
    using that current_not_left [OF w] t by (auto simp: uses_def)
  have "cpus_ok ?s'" using w idle by (simp add: inv_with_def cpus_ok_def T)
  moreover have "used_once ?s'"
    by (rule used_onceI) (use inv_running [OF w] inv_once [OF w] f in \<open>auto simp: T\<close>)
  moreover have "contexts_ok (left ?s') ?s'"
  proof (rule contexts_okI)
    fix x assume x: "x \<in> sched_tasks ?s'"
    then have xs: "x \<in> sched_tasks s" by (simp add: T)
    show "pid (k_tasks ?s' x) > 0" using inv_pid [OF w xs] f by auto
    show "resumable (k_tasks ?s' x) (nested_interrupt (k_tasks ?s' x) - 1)" if "x \<in> left ?s'"
      using that inv_ahead [OF w xs] n ctx f by (auto simp: T resumable_def)
    show "nested_interrupt (k_tasks ?s' x) \<in> {0, 1} \<and> length (t_context (k_tasks ?s' x)) = 2"
      if "x \<notin> left ?s'" "\<exists>c. uses ?s' c x"
      using that inv_used [OF w xs] n f by (auto simp: T)
    show "resumable (k_tasks ?s' x) (nested_interrupt (k_tasks ?s' x))" if "x \<notin> left ?s'" "\<not> (\<exists>c. uses ?s' c x)"
      using that inv_idle_tasks [OF w xs] n ctx f by (auto simp: T resumable_def)
  qed
  ultimately have "inv_with (left ?s') ?s'"
    using w t0 f by (intro inv_withI [OF w]) (simp_all add: inv_with_def)
  then show ?thesis by (simp add: sched_inv_def)
qed

lemma sched_step_inv: "sched_step s s' \<Longrightarrow> sched_inv s \<Longrightarrow> sched_inv s'"
proof (induction rule: sched_step.induct)
  case (trap i s c r s')
  then show ?case using switch_context_returns [of s i c] by auto
next
  case (blocking t s b)
  then show ?case by (intro upd_task_inv) simp_all
next
  case (enter i s t)
  then show ?case by (intro upd_task_inv) auto
next
  case (leave i s t)
  then show ?case by (intro upd_task_inv) auto
qed

lemma sched_reach_inv: "sched_reach s0 s \<Longrightarrow> sched_inv s0 \<Longrightarrow> sched_inv s"
  by (induction rule: sched_reach.induct) (auto intro: sched_step_inv)

text \<open>A machine with two CPUs and two threads that are ready, as after \<open>kmt_init\<close> and two calls of \<open>kmt_create\<close>.\<close>

definition ready_task :: "addr \<Rightarrow> int \<Rightarrow> task" where
  "ready_task ctx p = (let lk = \<lparr>lock_word = 0, lock_name = '''', lock_cpu = -1\<rparr> in
     \<lparr>t_name = '''', status = lk, t_context = [ctx, 0], t_as = 0, vme_lock = lk, mp_lock = lk, vm_areas = [], mapped_pages = [],
      wait_sem = \<lparr>sem_name = '''', resource = 0, sem_cnt = 0, sem_lock = lk, sem_list = []\<rparr>, ppid = 0, pid = p, t_state = 0,
      retstate = 0, nested_interrupt = 0, block = False, is_running = False, killed = False\<rparr>)"

lemma ready_task_fields [simp]:
  "status (ready_task c p) = \<lparr>lock_word = 0, lock_name = [], lock_cpu = -1\<rparr>" "t_context (ready_task c p) = [c, 0]"
  "pid (ready_task c p) = p" "nested_interrupt (ready_task c p) = 0" "\<not> block (ready_task c p)" "\<not> is_running (ready_task c p)"
  by (simp_all add: ready_task_def Let_def)

definition two_threads :: "kern \<Rightarrow> kern" where
  "two_threads k = k\<lparr>k_cpus := map (\<lambda>t. \<lparr>interrupt = \<lparr>noff = 0, intena = False\<rparr>, current_task = 0, save_task = 0, idle_task = t, ien = False\<rparr>) [4096, 8192],
     k_tasks := (\<lambda>_. ready_task 0 0)(4096 := ready_task 1 0, 8192 := ready_task 2 0, 12288 := ready_task 3 1, 16384 := ready_task 4 2),
     k_list := [0, 12288, 16384], k_cnt := 3\<rparr>"

lemma two_threads_tasks: "sched_tasks (two_threads k) = {12288, 16384}"
proof -
  have "sched_tasks (two_threads k) = (\<lambda>j. [0, 12288, 16384 :: addr] ! j) ` {j. 1 \<le> j \<and> int j < 3}"
    unfolding sched_tasks_def two_threads_def by (simp add: image_Collect del: nth_Cons_pos)
  also have "{j :: nat. 1 \<le> j \<and> int j < 3} = {1, 2}" by auto
  finally show ?thesis by simp
qed

lemma less_two: "j < Suc (Suc 0) \<longleftrightarrow> j = 0 \<or> j = Suc 0"
  by auto

lemma two_threads_unused: "t \<in> {12288, 16384} \<Longrightarrow> \<not> uses (two_threads k) c t"
proof -
  assume t: "t \<in> {12288, 16384}"
  have "current_task (cpu_of (two_threads k) c) = 0 \<and> save_task (cpu_of (two_threads k) c) = 0"
    if "c < length (k_cpus (two_threads k))"
    using that by (auto simp: two_threads_def cpu_of_def less_two)
  moreover have "t \<noteq> 0" using t by auto
  ultimately show ?thesis unfolding uses_def by metis
qed

lemma two_threads_inv: "sched_inv (two_threads k)"
proof -
  have "cpus_ok (two_threads k)"
    by (simp add: cpus_ok_def two_threads_tasks)
      (auto simp: less_two two_threads_def cpu_of_def idle_ok_def ready_task_fields cpu_ok_def)
  moreover have "used_once (two_threads k)"
    by (rule used_onceI; simp only: two_threads_tasks)
      (auto simp: two_threads_unused, auto simp: two_threads_def ready_task_fields)
  moreover have nl: "t \<notin> left (two_threads k)" if "t \<in> {12288, 16384}" for t
    using two_threads_unused [OF that, of k] by (auto simp: left_def leaving_def uses_def)
  moreover have "contexts_ok (left (two_threads k)) (two_threads k)"
    using two_threads_unused [of _ k] nl
    by (simp add: contexts_ok_def two_threads_tasks) (simp add: two_threads_def ready_task_fields resumable_def)
  moreover have "0 \<notin> sched_tasks (two_threads k)" by (simp add: two_threads_tasks)
  moreover have "k_cnt (two_threads k) = 3" "length (k_list (two_threads k)) = 3"
    "\<forall>t. lock_free (status (k_tasks (two_threads k) t))"
    "pid (k_tasks (two_threads k) 0) \<le> 0" "length (t_context (k_tasks (two_threads k) 0)) = 2" "\<not> block (k_tasks (two_threads k) 0)"
    by (simp_all add: two_threads_def ready_task_fields lock_free_def Let_def)
  ultimately show ?thesis by (simp add: sched_inv_def inv_with_def)
qed

text \<open>
  C3: a trap always ends: from every state that keeps the scheduler's invariant, saving the
  interrupted context and choosing the next task neither fail nor loop; the context they resume is
  a valid one, the one at the current index of the CPU's new current task, and that task is not
  blocked.
\<close>

theorem trap_resumes_ready_task:
  assumes "sched_inv s" and "i < length (k_cpus s)" and "c \<noteq> 0"
  shows "\<exists>r s'. switch_context i c s = Inr (r, s') \<and> r \<noteq> 0 \<and> sched_inv s' \<and>
     (let tk = k_tasks s' (current_task (cpu_of s' i)) in \<not> block tk \<and> r = t_context tk ! nat (nested_interrupt tk))"
  using switch_context_returns [OF assms] by (auto simp: Let_def)

theorem trap_resumes_ready_task_witness:
  "\<exists>r s'. switch_context 1 77 (two_threads undefined) = Inr (r, s') \<and> r \<noteq> 0"
proof -
  have "1 < length (k_cpus (two_threads undefined))" by (simp add: two_threads_def)
  then show ?thesis using trap_resumes_ready_task [OF two_threads_inv, of 1 undefined 77] by auto
qed

text \<open>
  C2: two CPUs never run the same thread, and none runs a thread whose stack another CPU is still
  leaving: in every state reached by traps, blocking, waking and system calls in any order on any
  CPU, a thread is the current or the last task of at most one CPU, and a thread that is not
  running has a saved context to resume.
\<close>

theorem no_thread_on_two_cpus:
  assumes "sched_inv s0" and "sched_reach s0 s" and "t \<in> sched_tasks s"
  shows "(\<forall>c d. uses s c t \<longrightarrow> uses s d t \<longrightarrow> c = d) \<and>
     (is_running (k_tasks s t) \<longleftrightarrow> (\<exists>c. uses s c t)) \<and>
     (\<not> is_running (k_tasks s t) \<longrightarrow> resumable (k_tasks s t) (nested_interrupt (k_tasks s t)))"
proof -
  have w: "inv_with (left s) s" using sched_reach_inv [OF assms(2,1)] by (simp add: sched_inv_def)
  have "t \<notin> left s" if "\<not> (\<exists>c. uses s c t)" using that by (auto simp: left_def leaving_def uses_def)
  then show ?thesis
    using inv_once [OF w assms(3)] inv_running [OF w assms(3)] inv_idle_tasks [OF w assms(3)] by blast
qed

theorem no_thread_on_two_cpus_witness:
  "\<exists>s. sched_reach (two_threads undefined) s \<and> s \<noteq> two_threads undefined \<and> \<not> (uses s 0 12288 \<and> uses s 1 12288)"
proof -
  let ?k = "two_threads undefined"
  have t: "12288 \<in> sched_tasks ?k" by (simp add: two_threads_tasks)
  let ?s = "upd_task 12288 (block_update (\<lambda>_. True)) ?k"
  have reach: "sched_reach ?k ?s"
    using sched_reach.step [OF sched_reach.start sched_step.blocking [OF t]] .
  have "block (k_tasks ?s 12288) \<noteq> block (k_tasks ?k 12288)" by (simp add: two_threads_def ready_task_fields)
  then have "?s \<noteq> ?k" by metis
  have "12288 \<in> sched_tasks ?s" using t by (simp add: sched_tasks_def)
  then have "\<not> (uses ?s 0 12288 \<and> uses ?s 1 12288)"
    using no_thread_on_two_cpus [OF two_threads_inv reach] by (metis zero_neq_one)
  then show ?thesis using reach \<open>?s \<noteq> ?k\<close> by blast
qed

end
