(* ===== verification/Kmt_Sem.thy ===== *)
theory Kmt_Sem
  imports Kmt_Sched "HOL-Library.Multiset"
begin

text \<open>
  The semaphores of \<open>kernel/src/kmt.c\<close>: the invariant that ties the counter to the list of
  waiting tasks, what \<open>kmt_sem_wait\<close> and \<open>kmt_sem_signal\<close> do on every branch, and the contract
  of a counting semaphore that they meet.
\<close>

section \<open>The invariant of a semaphore\<close>

definition waiters :: "sem \<Rightarrow> addr list" where
  "waiters sm = take (nat (sem_cnt sm)) (sem_list sm)"

definition sem_ok :: "sem \<Rightarrow> bool" where
  "sem_ok sm \<longleftrightarrow> sem_cnt sm = max 0 (- resource sm) \<and> length (sem_list sm) = K_MAX_TASK \<and>
     sem_cnt sm \<le> int K_MAX_TASK \<and> lock_free (sem_lock sm)"

text \<open>What the routines need of the CPU they run on.\<close>

definition cpu_ready :: "nat \<Rightarrow> kern \<Rightarrow> bool" where
  "cpu_ready i s \<longleftrightarrow> i < length (k_cpus s) \<and> cpu_ok (cpu_of s i) \<and> (\<forall>t. lock_free (status (k_tasks s t)))"

lemma waiters_length: "sem_ok sm \<Longrightarrow> length (waiters sm) = nat (- resource sm)"
  by (auto simp: sem_ok_def waiters_def)

lemma waiters_lock [simp]:
  "waiters (sm\<lparr>sem_lock := l\<rparr>) = waiters sm" "waiters (sm\<lparr>resource := r\<rparr>) = waiters sm"
  by (simp_all add: waiters_def)

lemma like_ready: "like s s' \<Longrightarrow> cpu_ready i s \<Longrightarrow> cpu_ready i s'"
  using same_cpu_ok by (auto simp: cpu_ready_def like_def same_task_def)

section \<open>The region under the semaphore's lock\<close>

definition sem_held :: "nat \<Rightarrow> sem \<Rightarrow> sem" where
  "sem_held i sm = sm\<lparr>sem_lock := (sem_lock sm)\<lparr>lock_word := 1, lock_cpu := int i\<rparr>\<rparr>"

definition sem_freed :: "sem \<Rightarrow> sem" where
  "sem_freed sm = sm\<lparr>sem_lock := (sem_lock sm)\<lparr>lock_word := 0, lock_cpu := -1\<rparr>\<rparr>"

lemma sem_held_fields [simp]:
  "resource (sem_held i sm) = resource sm" "sem_cnt (sem_held i sm) = sem_cnt sm" "sem_list (sem_held i sm) = sem_list sm"
  "resource (sem_freed sm) = resource sm" "sem_cnt (sem_freed sm) = sem_cnt sm" "sem_list (sem_freed sm) = sem_list sm"
  "lock_free (sem_lock (sem_freed sm))" "waiters (sem_freed sm) = waiters sm" "waiters (sem_held i sm) = waiters sm"
  by (simp_all add: sem_held_def sem_freed_def lock_free_def)

lemma sem_acquire_free:
  "lock_free (sem_lock sm) \<Longrightarrow> sem_acquire i sm s = Inr (sem_held i sm, set_cpu i (push_off (cpu_of s i)) s)"
  by (simp add: sem_acquire_def kmt_spin_lock_free sem_held_def)

lemma sem_release_held:
  assumes "i < length (k_cpus s)" and "cpu_ok c" and "same_cpu (push_off c) (cpu_of s i)"
    and "sem_lock sm = sem_lock (sem_held i sm0)"
  shows "\<exists>d. sem_release i sm s = Inr (sem_freed sm, set_cpu i d s) \<and> same_cpu c d"
proof -
  have "lock_word (sem_lock sm) \<noteq> 0" "lock_cpu (sem_lock sm) = int i"
    using assms(4) by (simp_all add: sem_held_def)
  then obtain d where "kmt_spin_unlock i (cpu_of s i) (sem_lock sm) =
      Inr (d, (sem_lock sm)\<lparr>lock_word := 0, lock_cpu := -1\<rparr>)" "same_cpu c d"
    using kmt_spin_unlock_held [OF assms(2,3)] by blast
  then show ?thesis by (auto simp: sem_release_def sem_freed_def)
qed

section \<open>Waiting\<close>

lemma like_block:
  assumes "i < length (k_cpus s)" and "same_cpu (cpu_of s i) d"
    and "\<And>tk. same_task (f tk) (g tk)"
  shows "like (upd_task t f s) (set_cpu i d (upd_task t g s))"
  using assms by (auto simp: like_def)

lemma sem_enlist_returns:
  assumes ready: "cpu_ready i s" and cur: "current_task (cpu_of s i) \<noteq> 0"
    and cnt: "0 \<le> sem_cnt sm" "sem_cnt sm < int K_MAX_TASK" and len: "length (sem_list sm) = K_MAX_TASK"
  shows "\<exists>s' d. sem_enlist i sm s =
      Inr (sm\<lparr>sem_list := (sem_list sm)[nat (sem_cnt sm) := current_task (cpu_of s i)], sem_cnt := sem_cnt sm + 1\<rparr>, s') \<and>
      same_cpu (cpu_of s i) d \<and>
      s' = set_cpu i d (upd_task (current_task (cpu_of s i)) (\<lambda>tk. unlocked (block_update (\<lambda>_. True) (held i tk))) s)"
proof -
  let ?cur = "current_task (cpu_of s i)" and ?f = "block_update (\<lambda>_. True)"
  have i: "i < length (k_cpus s)" "cpu_ok (cpu_of s i)" and free: "lock_free (status (k_tasks s ?cur))"
    using ready by (simp_all add: cpu_ready_def)
  obtain d where d: "release i (status_get ?cur) (status_put ?cur)
        (upd_task ?cur ?f (upd_task ?cur (held i) (set_cpu i (push_off (cpu_of s i)) s))) =
      Inr (set_cpu i d (upd_task ?cur (\<lambda>tk. unlocked (?f (held i tk))) s))" "same_cpu (cpu_of s i) d"
    using release_status [OF i, where f = ?f and t = ?cur] by auto
  show ?thesis using cur cnt d by (simp add: sem_enlist_def acquire_status [OF free] Let_def) blast
qed

lemma sem_wait_returns:
  assumes ready: "cpu_ready i s" and cur: "current_task (cpu_of s i) \<noteq> 0"
    and ok: "sem_ok sm" and room: "- resource sm < int K_MAX_TASK"
  shows "\<exists>sm' s'. kmt_sem_wait i sm s = Inr (resource sm \<le> 0, sm', s') \<and> sem_ok sm' \<and> resource sm' = resource sm - 1 \<and>
     waiters sm' = waiters sm @ (if resource sm \<le> 0 then [current_task (cpu_of s i)] else []) \<and>
     like (if resource sm \<le> 0 then upd_task (current_task (cpu_of s i)) (block_update (\<lambda>_. True)) s else s) s'"
proof -
  let ?cur = "current_task (cpu_of s i)"
  have i: "i < length (k_cpus s)" "cpu_ok (cpu_of s i)" using ready by (simp_all add: cpu_ready_def)
  let ?s1 = "set_cpu i (push_off (cpu_of s i)) s"
  let ?sm2 = "(sem_held i sm)\<lparr>resource := resource sm - 1\<rparr>"
  have acq: "sem_acquire i sm s = Inr (sem_held i sm, ?s1)" using ok by (intro sem_acquire_free) (simp add: sem_ok_def)
  have ready1: "cpu_ready i ?s1" using ready push_off_ok by (simp add: cpu_ready_def)
  have c1: "cpu_of ?s1 i = push_off (cpu_of s i)" using i by simp
  show ?thesis
  proof (cases "resource sm \<le> 0")
    case True
    have cnt: "sem_cnt sm = - resource sm" using ok True by (simp add: sem_ok_def)
    let ?sm3 = "?sm2\<lparr>sem_list := (sem_list sm)[nat (sem_cnt sm) := ?cur], sem_cnt := sem_cnt sm + 1\<rparr>"
    obtain s2 d where s2: "sem_enlist i ?sm2 ?s1 = Inr (?sm3, s2)" "same_cpu (push_off (cpu_of s i)) d"
      "s2 = set_cpu i d (upd_task ?cur (\<lambda>tk. unlocked (block_update (\<lambda>_. True) (held i tk))) ?s1)"
      using sem_enlist_returns [OF ready1, of ?sm2] cur ok cnt room True i by (auto simp: sem_ok_def c1)
    have "same_cpu (push_off (cpu_of s i)) (cpu_of s2 i)" using i s2 by simp
    then obtain e where e: "sem_release i ?sm3 s2 = Inr (sem_freed ?sm3, set_cpu i e s2)" "same_cpu (cpu_of s i) e"
      using sem_release_held [of i s2 "cpu_of s i" ?sm3 sm] i s2(3) by auto
    have "kmt_sem_wait i sm s = Inr (resource sm \<le> 0, sem_freed ?sm3, set_cpu i e s2)"
      using True s2(1) e(1) by (simp add: kmt_sem_wait_def acq Let_def)
    moreover have "sem_ok (sem_freed ?sm3)" using ok True room cnt by (auto simp: sem_ok_def)
    moreover have "waiters (sem_freed ?sm3) = waiters sm @ [?cur]"
    proof -
      have "nat (sem_cnt sm + 1) = Suc (nat (sem_cnt sm))" "nat (sem_cnt sm) < length (sem_list sm)"
        using cnt True room ok by (auto simp: sem_ok_def)
      then show ?thesis by (simp add: waiters_def take_Suc_conv_app_nth)
    qed
    moreover have "set_cpu i e s2 = set_cpu i e (upd_task ?cur (\<lambda>tk. unlocked (block_update (\<lambda>_. True) (held i tk))) s)"
      unfolding s2(3) by (simp add: upd_task_set_cpu set_cpu_twice)
    then have "like (upd_task ?cur (block_update (\<lambda>_. True)) s) (set_cpu i e s2)"
      using like_block [OF i(1) e(2)] by (simp add: same_task_def)
    ultimately show ?thesis using True by (intro exI [of _ "sem_freed ?sm3"] exI [of _ "set_cpu i e s2"]) simp
  next
    case False
    obtain e where e: "sem_release i ?sm2 ?s1 = Inr (sem_freed ?sm2, set_cpu i e ?s1)" "same_cpu (cpu_of s i) e"
      using sem_release_held [of i ?s1 "cpu_of s i" ?sm2 sm] i by auto
    have "kmt_sem_wait i sm s = Inr (resource sm \<le> 0, sem_freed ?sm2, set_cpu i e ?s1)"
      using False e(1) by (simp add: kmt_sem_wait_def acq Let_def)
    moreover have "like s (set_cpu i e ?s1)" using i e(2) by (auto simp: like_def set_cpu_twice)
    ultimately show ?thesis using ok False
      by (intro exI [of _ "sem_freed ?sm2"] exI [of _ "set_cpu i e ?s1"]) (auto simp: sem_ok_def waiters_def)
  qed
qed

section \<open>Signalling\<close>

lemma mset_remove_swap:
  assumes "n < length xs" and "k \<le> n"
  shows "mset (take (Suc n) xs) = add_mset (xs ! k) (mset (take n (xs[k := xs ! n])))"
proof (cases "k = n")
  case True
  then show ?thesis using assms by (simp add: take_Suc_conv_app_nth)
next
  case False
  then have k: "k < length (take n xs)" using assms by simp
  have "mset (take n (xs[k := xs ! n])) = add_mset (xs ! n) (mset (take n xs) - {#take n xs ! k#})"
    using mset_update [OF k, of "xs ! n"] by (simp add: take_update_swap)
  moreover have "take n xs ! k \<in># mset (take n xs)" using nth_mem [OF k] by (simp only: set_mset_mset)
  ultimately show ?thesis using assms k by (simp add: take_Suc_conv_app_nth)
qed

lemma sem_signal_returns:
  assumes ready: "cpu_ready i s" and ok: "sem_ok sm"
  shows "\<exists>sm' s'. kmt_sem_signal i sm s = Inr (sm', s') \<and> sem_ok sm' \<and> resource sm' = resource sm + 1 \<and>
     (if waiters sm = [] then waiters sm' = [] \<and> like s s'
      else \<exists>t. mset (waiters sm) = add_mset t (mset (waiters sm')) \<and> like (upd_task t (block_update (\<lambda>_. False)) s) s')"
proof -
  have i: "i < length (k_cpus s)" "cpu_ok (cpu_of s i)" using ready by (simp_all add: cpu_ready_def)
  let ?s1 = "set_cpu i (push_off (cpu_of s i)) s"
  let ?sm2 = "(sem_held i sm)\<lparr>resource := resource sm + 1\<rparr>"
  have acq: "sem_acquire i sm s = Inr (sem_held i sm, ?s1)" using ok by (intro sem_acquire_free) (simp add: sem_ok_def)
  have none: "waiters sm = [] \<longleftrightarrow> \<not> resource sm < 0" using waiters_length [OF ok] by (metis length_0_conv nat_le_iff neg_0_le_iff_le nat_0_iff not_le neg_le_0_iff_le)
  show ?thesis
  proof (cases "resource sm < 0")
    case False
    obtain e where e: "sem_release i ?sm2 ?s1 = Inr (sem_freed ?sm2, set_cpu i e ?s1)" "same_cpu (cpu_of s i) e"
      using sem_release_held [of i ?s1 "cpu_of s i" ?sm2 sm] i by auto
    have "sem_cnt sm = 0" using ok False by (simp add: sem_ok_def)
    then have "kmt_sem_signal i sm s = Inr (sem_freed ?sm2, set_cpu i e ?s1)"
      using e(1) by (simp add: kmt_sem_signal_def acq Let_def)
    moreover have "like s (set_cpu i e ?s1)" using i e(2) by (auto simp: like_def set_cpu_twice)
    ultimately show ?thesis using ok False none
      by (intro exI [of _ "sem_freed ?sm2"] exI [of _ "set_cpu i e ?s1"]) (auto simp: sem_ok_def waiters_def)
  next
    case True
    obtain r nxt where r: "rand (k_rand s) = (r, nxt)" by fastforce
    define k where "k = nat (r mod sem_cnt sm)"
    define n where "n = nat (sem_cnt sm - 1)"
    let ?t = "sem_list sm ! k"
    have cnt: "sem_cnt sm = - resource sm" "0 < sem_cnt sm" using ok True by (simp_all add: sem_ok_def)
    have n: "nat (sem_cnt sm) = Suc n" "n < length (sem_list sm)" using cnt ok by (auto simp: n_def sem_ok_def)
    have "0 \<le> r mod sem_cnt sm" "r mod sem_cnt sm < sem_cnt sm" using cnt by simp_all
    then have k: "k \<le> n" unfolding k_def n_def by linarith
    let ?sm3 = "?sm2\<lparr>sem_cnt := sem_cnt sm - 1, sem_list := (sem_list sm)[k := sem_list sm ! n]\<rparr>"
    let ?s2 = "upd_task ?t (block_update (\<lambda>_. False)) (?s1\<lparr>k_rand := nxt\<rparr>)"
    have "cpu_of ?s2 i = push_off (cpu_of s i)" using i by (simp add: cpu_of_def set_cpu_def)
    then obtain e where e: "sem_release i ?sm3 ?s2 = Inr (sem_freed ?sm3, set_cpu i e ?s2)" "same_cpu (cpu_of s i) e"
      using sem_release_held [of i ?s2 "cpu_of s i" ?sm3 sm] i by auto
    have "\<not> length (sem_list sm) \<le> k" "\<not> length (sem_list sm) < nat (sem_cnt sm)" using n k by auto
    then have "kmt_sem_signal i sm s = sem_release i ?sm3 ?s2"
      using True cnt(2) by (simp add: kmt_sem_signal_def acq r Let_def k_def [symmetric] n_def [symmetric])
    then have "kmt_sem_signal i sm s = Inr (sem_freed ?sm3, set_cpu i e ?s2)" using e(1) by simp
    moreover have "sem_ok (sem_freed ?sm3)" using ok True cnt by (auto simp: sem_ok_def)
    moreover have "mset (waiters sm) = add_mset ?t (mset (waiters (sem_freed ?sm3)))"
      using mset_remove_swap [OF n(2) k] n(1) by (simp add: waiters_def n_def [symmetric])
    moreover have "like (upd_task ?t (block_update (\<lambda>_. False)) s) (set_cpu i e ?s2)"
      using i e(2) by (auto simp: like_def cpu_of_def set_cpu_def upd_task_def nth_list_update)
    ultimately show ?thesis using True none
      by (intro exI [of _ "sem_freed ?sm3"] exI [of _ "set_cpu i e ?s2"]) auto
  qed
qed

section \<open>The contract of a counting semaphore\<close>

datatype 'w sem_op = Wait 'w | Signal

fun waits :: "'w sem_op list \<Rightarrow> nat" where
  "waits [] = 0"
| "waits (Wait w # ops) = Suc (waits ops)"
| "waits (Signal # ops) = waits ops"

fun signals :: "'w sem_op list \<Rightarrow> nat" where
  "signals [] = 0"
| "signals (Wait w # ops) = signals ops"
| "signals (Signal # ops) = Suc (signals ops)"

text \<open>A sequence of operations on a semaphore, whatever happens to the rest of the system in between.\<close>

inductive sem_run :: "('w \<Rightarrow> 's \<Rightarrow> bool \<Rightarrow> 's \<Rightarrow> bool) \<Rightarrow> ('s \<Rightarrow> 's \<Rightarrow> bool) \<Rightarrow> 's \<Rightarrow> 'w sem_op list \<Rightarrow> 's \<Rightarrow> bool"
  for P V where
  nil: "sem_run P V s [] s"
| wait: "sem_run P V s (Wait w # ops) s''" if "P w s b s'" "sem_run P V s' ops s''"
| signal: "sem_run P V s (Signal # ops) s''" if "V s s'" "sem_run P V s' ops s''"

locale counting_semaphore =
  fixes inv :: "'s \<Rightarrow> bool" and count :: "'s \<Rightarrow> int" and waiting :: "'s \<Rightarrow> 'w multiset"
    and P :: "'w \<Rightarrow> 's \<Rightarrow> bool \<Rightarrow> 's \<Rightarrow> bool" and V :: "'s \<Rightarrow> 's \<Rightarrow> bool"
  assumes wait_law: "inv s \<Longrightarrow> P w s b s' \<Longrightarrow> inv s' \<and> count s' = count s - 1 \<and> b = (count s \<le> 0) \<and>
      waiting s' = waiting s + (if b then {#w#} else {#})"
    and signal_law: "inv s \<Longrightarrow> V s s' \<Longrightarrow> inv s' \<and> count s' = count s + 1 \<and> waiting s' \<subseteq># waiting s"
    and size_law: "inv s \<Longrightarrow> size (waiting s) = nat (- count s)"
begin

lemma run_count: "sem_run P V s ops s' \<Longrightarrow> inv s \<Longrightarrow> inv s' \<and> count s' = count s + int (signals ops) - int (waits ops)"
proof (induction rule: sem_run.induct)
  case (wait w s b s' ops s'')
  then show ?case using wait_law [OF wait.prems wait.hyps(1)] by simp
next
  case (signal s s' ops s'')
  then show ?case using signal_law [OF signal.prems signal.hyps(1)] by simp
qed simp

text \<open>The tasks let through are as many as the initial value and the signals allow, and no more.\<close>

lemma admitted:
  assumes "sem_run P V s ops s'" and "inv s" and "0 \<le> count s"
  shows "int (waits ops) - int (size (waiting s')) = min (int (waits ops)) (count s + int (signals ops))"
  using run_count [OF assms(1,2)] size_law assms(3) by auto

end

text \<open>The kernel's semaphores: each operation runs on some CPU, in any state of the kernel.\<close>

definition sem_P :: "addr \<Rightarrow> sem \<Rightarrow> bool \<Rightarrow> sem \<Rightarrow> bool" where
  "sem_P w sm b sm' \<longleftrightarrow> (\<exists>i s s'. cpu_ready i s \<and> w = current_task (cpu_of s i) \<and> w \<noteq> 0 \<and>
     - resource sm < int K_MAX_TASK \<and> kmt_sem_wait i sm s = Inr (b, sm', s'))"

definition sem_V :: "sem \<Rightarrow> sem \<Rightarrow> bool" where
  "sem_V sm sm' \<longleftrightarrow> (\<exists>i s s'. cpu_ready i s \<and> kmt_sem_signal i sm s = Inr (sm', s'))"

interpretation ksem: counting_semaphore sem_ok resource "\<lambda>sm. mset (waiters sm)" sem_P sem_V
proof
  fix sm w b sm' assume ok: "sem_ok sm" and "sem_P w sm b sm'"
  then obtain i s s' where p: "cpu_ready i s" "current_task (cpu_of s i) \<noteq> 0" "w = current_task (cpu_of s i)"
    "- resource sm < int K_MAX_TASK" "kmt_sem_wait i sm s = Inr (b, sm', s')" unfolding sem_P_def by auto
  show "sem_ok sm' \<and> resource sm' = resource sm - 1 \<and> b = (resource sm \<le> 0) \<and>
      mset (waiters sm') = mset (waiters sm) + (if b then {#w#} else {#})"
    using sem_wait_returns [OF p(1,2) ok p(4)] p(3,5) by auto
next
  fix sm sm' assume ok: "sem_ok sm" and "sem_V sm sm'"
  then obtain i s s' where p: "cpu_ready i s" "kmt_sem_signal i sm s = Inr (sm', s')" unfolding sem_V_def by blast
  show "sem_ok sm' \<and> resource sm' = resource sm + 1 \<and> mset (waiters sm') \<subseteq># mset (waiters sm)"
    using sem_signal_returns [OF p(1) ok] p(2) by (auto split: if_splits)
next
  fix sm assume "sem_ok sm"
  then show "size (mset (waiters sm)) = nat (- resource sm)" by (simp add: waiters_length)
qed

section \<open>Properties\<close>

text \<open>A CPU with a current task and a semaphore whose value is 0, for the witnesses.\<close>

definition one_running :: kern where
  "one_running = (two_threads undefined)\<lparr>k_cpus := [\<lparr>interrupt = \<lparr>noff = 0, intena = False\<rparr>, current_task = 12288,
     save_task = 0, idle_task = 4096, ien = True\<rparr>]\<rparr>"

definition zero_sem :: sem where
  "zero_sem = \<lparr>sem_name = ''s'', resource = 0, sem_cnt = 0, sem_lock = \<lparr>lock_word = 0, lock_name = ''s'', lock_cpu = -1\<rparr>,
     sem_list = replicate K_MAX_TASK 0\<rparr>"

lemma one_running_ready: "cpu_ready 0 one_running" "current_task (cpu_of one_running 0) = 12288"
  by (auto simp: cpu_ready_def one_running_def two_threads_def cpu_of_def cpu_ok_def lock_free_def)

lemma zero_sem_ok: "sem_ok zero_sem" "resource zero_sem = 0" "waiters zero_sem = []"
  by (simp_all add: sem_ok_def zero_sem_def lock_free_def waiters_def)

text \<open>
  C15: waiting on a semaphore always returns and decrements its value; exactly when the value was
  not positive the calling task is appended to the waiting tasks, is blocked and gives up the CPU,
  and nothing else changes; the locks it takes are free again and the interrupt state of the CPU is
  restored.
\<close>

theorem kmt_sem_wait_correct:
  assumes "cpu_ready i s" and "current_task (cpu_of s i) \<noteq> 0" and "sem_ok sm" and "- resource sm < int K_MAX_TASK"
  shows "\<exists>sm' s'. kmt_sem_wait i sm s = Inr (resource sm \<le> 0, sm', s') \<and> sem_ok sm' \<and> resource sm' = resource sm - 1 \<and>
     waiters sm' = waiters sm @ (if resource sm \<le> 0 then [current_task (cpu_of s i)] else []) \<and>
     like (if resource sm \<le> 0 then upd_task (current_task (cpu_of s i)) (block_update (\<lambda>_. True)) s else s) s'"
  by (rule sem_wait_returns [OF assms])

theorem kmt_sem_wait_correct_witness:
  "\<exists>sm' s'. kmt_sem_wait 0 zero_sem one_running = Inr (True, sm', s') \<and> waiters sm' = [12288] \<and> block (k_tasks s' 12288)"
proof -
  obtain sm' s' where r: "kmt_sem_wait 0 zero_sem one_running = Inr (True, sm', s')" "waiters sm' = [12288]"
    "like (upd_task 12288 (block_update (\<lambda>_. True)) one_running) s'"
    using kmt_sem_wait_correct [OF one_running_ready(1), of zero_sem] one_running_ready(2) zero_sem_ok
    by (auto simp: K_MAX_TASK_def)
  then have "block (k_tasks s' 12288)" by (simp add: like_fields [OF r(3)])
  then show ?thesis using r by blast
qed

text \<open>
  C16: signalling a semaphore always returns and increments its value; if tasks are waiting it takes
  exactly one of them off the list and unblocks it, and otherwise changes no task.
\<close>

theorem kmt_sem_signal_correct:
  assumes "cpu_ready i s" and "sem_ok sm"
  shows "\<exists>sm' s'. kmt_sem_signal i sm s = Inr (sm', s') \<and> sem_ok sm' \<and> resource sm' = resource sm + 1 \<and>
     (if waiters sm = [] then waiters sm' = [] \<and> like s s'
      else \<exists>t. mset (waiters sm) = add_mset t (mset (waiters sm')) \<and> like (upd_task t (block_update (\<lambda>_. False)) s) s')"
  by (rule sem_signal_returns [OF assms])

theorem kmt_sem_signal_correct_witness:
  "\<exists>sm' s'. kmt_sem_signal 0 zero_sem one_running = Inr (sm', s') \<and> resource sm' = 1"
  using kmt_sem_signal_correct [OF one_running_ready(1) zero_sem_ok(1)] zero_sem_ok(2) by auto



end
