(* ===== verification/Palloc.thy ===== *)
theory Palloc
  imports Kmt
begin

text \<open>
  \<open>pmm->alloc\<close> and \<open>pmm->free\<close> as the rest of the kernel sees them: what changes in the kernel's
  state, and a concrete allocator that has blocks to give, for the examples of later theories.
\<close>

section \<open>What an allocation does to the state of the kernel\<close>

lemma palloc_kalloc:
  assumes "kalloc (k_pmm s) i (of_int n) = Inr (p, m)"
  shows "palloc i n s = Inr (p, set_cpu i (cpu_of s i) (s\<lparr>k_pmm := m\<rparr>))"
proof -
  have "kalloc_safe (ien (cpu_of s i)) (k_pmm s) i n = Inr (p, m, ien (cpu_of s i))"
    using assms by (simp add: kalloc_safe_def)
  then show ?thesis by (simp add: palloc_def)
qed

lemma palloc_cases:
  assumes "pmm_holds (k_pmm s) X" and "i < 8"
  shows "\<exists>p m. palloc i n s = Inr (p, set_cpu i (cpu_of s i) (s\<lparr>k_pmm := m\<rparr>)) \<and>
     (p = 0 \<and> pmm_holds m X \<or>
      p \<noteq> 0 \<and> (\<exists>len. unat (of_int n :: u64) \<le> len \<and> len dvd unat p \<and> (unat p, len) \<notin> X \<and>
         pmm_holds m (insert (unat p, len) X)))"
proof -
  obtain p m where k: "kalloc (k_pmm s) i (of_int n) = Inr (p, m)" "got X (unat (of_int n :: u64)) p m"
    using kalloc_effect [OF assms, of "of_int n"] by blast
  then have "palloc i n s = Inr (p, set_cpu i (cpu_of s i) (s\<lparr>k_pmm := m\<rparr>))"
    by (intro palloc_kalloc) simp
  then show ?thesis using k(2) unfolding got_def by blast
qed

lemma set_cpu_same: "i < length (k_cpus s) \<Longrightarrow> set_cpu i (cpu_of s i) (s\<lparr>k_pmm := m\<rparr>) = s\<lparr>k_pmm := m\<rparr>"
  by (simp add: set_cpu_def cpu_of_def)

section \<open>An allocator with blocks to give\<close>

text \<open>Every list of every CPU starts with the page at 0x5000, whose free blocks follow each other.\<close>

definition block_pmm :: "addr \<Rightarrow> nat \<Rightarrow> slab_sys" where
  "block_pmm a n = \<lparr>sl_bbma = bbma_zero (\<lambda>_. []), cpu_own_area = replicate 8 (replicate 7 0x5000),
     stick = (\<lambda>_. \<lparr>slab_lock = 0, current_slab_free_block_list = a, next_slab_stick = 0, current_slab_free_space = n\<rparr>),
     next_free = (\<lambda>b. b + 0x800)\<rparr>"

lemma determine_slab_size_small: "n \<le> 2048 \<Longrightarrow> determine_slab_size n \<in> {5..11}"
  by (auto simp: determine_slab_size_def slab_consts)

lemma is_align_below:
  assumes "a AND mask 11 = (0 :: u64)" and "k \<le> 11"
  shows "is_align_to a k = Inr True"
proof -
  have "a AND mask k = (a AND mask 11) AND mask k"
    using assms(2) by (intro bit_word_eqI) (auto simp: bit_simps)
  then show ?thesis using assms by (simp add: is_align_to_def align_unit_small exp_and_mask mask_eq_decr_exp [symmetric])
qed

lemma kalloc_block:
  assumes n: "n \<noteq> 0" "n \<le> 2048" and c: "c < 8"
    and s: "cpu_own_area s = replicate 8 (replicate 7 0x5000)" "slab_lock (stick s 0x5000) = 0"
      "current_slab_free_space (stick s 0x5000) > 0" "current_slab_free_block_list (stick s 0x5000) = a"
    and a: "a \<noteq> 0" "a AND mask 11 = 0"
  shows "kalloc s c n = Inr (a, upd_stick s 0x5000 (\<lambda>st. st\<lparr>current_slab_free_block_list := next_free s a,
           current_slab_free_space := current_slab_free_space st - 1\<rparr>))"
proof -
  define k where "k = determine_slab_size n"
  have k: "5 \<le> k" "k \<le> 11" using determine_slab_size_small [OF n(2)] by (simp_all add: k_def)
  have slot: "area_slot s c k = Inr 0x5000" using s(1) k c by (simp add: area_slot_def slab_consts)
  have fuel: "SLAB_FUEL = Suc 131073" by (simp add: SLAB_FUEL_def)
  have "find_the_free_space_in_slab s c k = Inr (a, upd_stick s 0x5000 (\<lambda>st. st\<lparr>current_slab_free_block_list := next_free s a,
           current_slab_free_space := current_slab_free_space st - 1\<rparr>))"
  proof -
    have "find_page_loop SLAB_FUEL s 0x5000 = Inr (0x5000, upd_stick s 0x5000 (slab_lock_update (\<lambda>_. 1)))"
      unfolding fuel find_page_loop.simps using s by (simp add: spin_lock_eq upd_stick_def Let_def)
    then show ?thesis
      using s a slot unfolding find_the_free_space_in_slab_def find_the_avaliable_page_in_slab_and_lock_def
      by (simp add: Let_def upd_stick_def, cases "stick s 0x5000") simp
  qed
  then show ?thesis
    using n k a is_align_below [OF a(2) k(2)]
    by (simp add: kalloc_def slab_alloc_def k_def [symmetric] slab_consts)
qed

text \<open>The next block is \<open>a\<close>, and there are \<open>m\<close> of them.\<close>

definition gives :: "slab_sys \<Rightarrow> addr \<Rightarrow> nat \<Rightarrow> bool" where
  "gives p a m \<longleftrightarrow> cpu_own_area p = replicate 8 (replicate 7 0x5000) \<and> slab_lock (stick p 0x5000) = 0 \<and>
     current_slab_free_space (stick p 0x5000) = m \<and> current_slab_free_block_list (stick p 0x5000) = a \<and>
     next_free p = (\<lambda>b. b + 0x800)"

lemma block_pmm_gives: "gives (block_pmm a m) a m"
  by (simp add: gives_def block_pmm_def)

lemma palloc_block:
  assumes "n > 0" and "n \<le> 2048" and "i < 8" and "i < length (k_cpus s)"
    and g: "gives (k_pmm s) a m" and "m > 0" and "a \<noteq> 0" and "a AND mask 11 = 0"
  shows "\<exists>p. palloc i n s = Inr (a, s\<lparr>k_pmm := p\<rparr>) \<and> gives p (a + 0x800) (m - 1)"
proof -
  have u: "unat (word_of_int n :: u64) = nat n"
    using assms(1,2) unat_of_nat_small [of "nat n", where 'a = 64] by simp
  have n: "(word_of_int n :: u64) \<noteq> 0" "(word_of_int n :: u64) \<le> 2048"
    using u assms(1,2) by (auto simp: word_le_nat_alt simp flip: unsigned_eq_0_iff)
  let ?p = "upd_stick (k_pmm s) 0x5000 (\<lambda>st. st\<lparr>current_slab_free_block_list := next_free (k_pmm s) a,
           current_slab_free_space := current_slab_free_space st - 1\<rparr>)"
  have "kalloc (k_pmm s) i (word_of_int n) = Inr (a, ?p)"
    by (rule kalloc_block [OF n assms(3)]) (use assms in \<open>simp_all add: gives_def\<close>)
  then have "palloc i n s = Inr (a, s\<lparr>k_pmm := ?p\<rparr>)"
    using palloc_kalloc set_cpu_same [OF assms(4)] by simp
  moreover have "gives ?p (a + 0x800) (m - 1)" using g by (simp add: gives_def upd_stick_def)
  ultimately show ?thesis by blast
qed

end
