(* ===== verification/Trap.thy ===== *)
theory Trap
  imports Kmt_Sched Palloc
begin

text \<open>
  The trap dispatcher of \<open>kernel/src/os.c\<close>: the list of handlers that \<open>os_on_irq\<close> keeps sorted
  by sequence number, the loop of \<open>os_trap\<close> over it, and the two handlers of \<open>kmt_init\<close>. A handler
  runs on a CPU, gets the event and the address of the saved context, and works on the kernel's
  state; \<open>uproc->exit\<close> is a parameter, the entry of a table of function pointers.
\<close>

section \<open>Handlers\<close>

type_synonym handler = "nat \<Rightarrow> event \<Rightarrow> addr \<Rightarrow> kern \<Rightarrow> (addr \<times> kern) res"

record irq =
  irq_seq :: int
  irq_ev :: event_kind
  irq_handler :: handler

definition IRQ_SIZE :: int where "IRQ_SIZE = 24"
definition MIN_SEQ :: int where "MIN_SEQ = 0"
definition MAX_SEQ :: int where "MAX_SEQ = 10000"

text \<open>The search for the place: before the first handler whose number is not below the new one.\<close>

fun insert_irq :: "irq \<Rightarrow> irq list \<Rightarrow> irq list" where
  "insert_irq h [] = [h]"
| "insert_irq h (c # rest) = (if irq_seq h \<le> irq_seq c then h # c # rest else c # insert_irq h rest)"

definition os_on_irq :: "nat \<Rightarrow> int \<Rightarrow> event_kind \<Rightarrow> handler \<Rightarrow> irq list \<Rightarrow> kern \<Rightarrow> (irq list \<times> kern) res" where
  "os_on_irq i seq ev hdl irq_head s =
    res_bind (palloc i IRQ_SIZE s) (\<lambda>(p, s1).
      if p = 0 then Inl Undefined
      else Inr (insert_irq \<lparr>irq_seq = seq, irq_ev = ev, irq_handler = hdl\<rparr> irq_head, s1))"

fun trap_loop :: "irq list \<Rightarrow> nat \<Rightarrow> event \<Rightarrow> addr \<Rightarrow> addr \<Rightarrow> kern \<Rightarrow> (addr \<times> kern) res" where
  "trap_loop [] i ev c nxt s = (if nxt = 0 then Inl (Panic ''returning NULL context'') else Inr (nxt, s))"
| "trap_loop (h # hs) i ev c nxt s =
    (if irq_ev h = EVENT_NULL \<or> irq_ev h = event ev then
       res_bind (irq_handler h i ev c s) (\<lambda>(r, s1).
         if event ev = EVENT_SYSCALL then Inr (c, s1)
         else if r \<noteq> 0 \<and> nxt \<noteq> 0 then Inl (Panic ''returning multiple contexts'')
         else trap_loop hs i ev c (if r \<noteq> 0 then r else nxt) s1)
     else trap_loop hs i ev c nxt s)"

definition os_trap :: "(nat \<Rightarrow> addr \<Rightarrow> int \<Rightarrow> kern \<Rightarrow> (int \<times> kern) res) \<Rightarrow> irq list \<Rightarrow> handler" where
  "os_trap uproc_exit irq_head i ev c s =
    (let current = current_task (cpu_of s i) in
     res_bind (if killed (k_tasks s current) then res_bind (uproc_exit i current 0 s) (\<lambda>(_, s1). Inr s1) else Inr s) (\<lambda>s1.
       if irq_head = [] then Inl (Panic ''no irq handler'')
       else trap_loop irq_head i ev c 0 s1))"

text \<open>The registrations of \<open>kmt_init\<close>, which the routine itself makes before anything else.\<close>

definition save_handler :: handler where
  "save_handler i ev c s = kmt_context_save i c s"

definition schedule_handler :: handler where
  "schedule_handler i ev c s = kmt_schedule i c s"

definition kmt_register :: "nat \<Rightarrow> irq list \<Rightarrow> kern \<Rightarrow> (irq list \<times> kern) res" where
  "kmt_register i irqs s =
    res_bind (os_on_irq i MIN_SEQ EVENT_NULL save_handler irqs s) (\<lambda>(irqs1, s1).
      os_on_irq i MAX_SEQ EVENT_NULL schedule_handler irqs1 s1)"

section \<open>The list of handlers as a priority queue\<close>

text \<open>A collection ordered by a key: what \<open>os_on_irq\<close> promises of its list.\<close>

locale ordered_registry =
  fixes ins :: "'h \<Rightarrow> 'h list \<Rightarrow> 'h list" and key :: "'h \<Rightarrow> int"
  assumes ins_split: "\<exists>xs ys. hs = xs @ ys \<and> ins h hs = xs @ h # ys \<and> (\<forall>x \<in> set xs. key x < key h) \<and>
      (ys = [] \<or> key h \<le> key (hd ys))"
begin

lemma ins_sorted: "sorted (map key hs) \<Longrightarrow> sorted (map key (ins h hs))"
proof -
  assume s: "sorted (map key hs)"
  obtain xs ys where p: "hs = xs @ ys" "ins h hs = xs @ h # ys" "\<forall>x \<in> set xs. key x < key h"
    "ys = [] \<or> key h \<le> key (hd ys)" using ins_split by blast
  have "\<forall>y \<in> set ys. key h \<le> key y"
    using s p(4) unfolding p(1) by (cases ys) (auto simp: sorted_append)
  then show ?thesis using s [unfolded p(1)] p(3) unfolding p(2) by (fastforce simp: sorted_append)
qed

lemma ins_length: "length (ins h hs) = Suc (length hs)"
  using ins_split [of hs h] by auto

lemma ins_set: "set (ins h hs) = insert h (set hs)"
  using ins_split [of hs h] by auto

lemma ins_relative: "filter P (ins h hs) = (if P h then filter P (ins h hs) else filter P hs)"
  using ins_split [of hs h] by auto

end

interpretation irqs: ordered_registry insert_irq irq_seq
proof
  show "\<exists>xs ys. hs = xs @ ys \<and> insert_irq h hs = xs @ h # ys \<and> (\<forall>x \<in> set xs. irq_seq x < irq_seq h) \<and>
      (ys = [] \<or> irq_seq h \<le> irq_seq (hd ys))" for hs h
  proof (induction hs)
    case (Cons c rest)
    show ?case
    proof (cases "irq_seq h \<le> irq_seq c")
      case True
      then show ?thesis by (intro exI [of _ "[]"] exI [of _ "c # rest"]) simp
    next
      case False
      obtain xs ys where "rest = xs @ ys" "insert_irq h rest = xs @ h # ys" "\<forall>x \<in> set xs. irq_seq x < irq_seq h"
        "ys = [] \<or> irq_seq h \<le> irq_seq (hd ys)" using Cons.IH by blast
      then show ?thesis using False by (intro exI [of _ "c # xs"] exI [of _ ys]) auto
    qed
  qed simp
qed

section \<open>Dispatch\<close>

text \<open>The handlers that do not answer to an event do not matter.\<close>

definition answers :: "event \<Rightarrow> irq \<Rightarrow> bool" where
  "answers ev h \<longleftrightarrow> irq_ev h = EVENT_NULL \<or> irq_ev h = event ev"

lemma trap_loop_filter: "trap_loop hs i ev c nxt s = trap_loop (filter (answers ev) hs) i ev c nxt s"
proof (induction hs arbitrary: nxt s)
  case (Cons h hs)
  have eq: "(\<lambda>(r, s1). if event ev = EVENT_SYSCALL then Inr (c, s1)
         else if r \<noteq> 0 \<and> nxt \<noteq> 0 then Inl (Panic ''returning multiple contexts'')
         else trap_loop hs i ev c (if r \<noteq> 0 then r else nxt) s1) =
      (\<lambda>(r, s1). if event ev = EVENT_SYSCALL then Inr (c, s1)
         else if r \<noteq> 0 \<and> nxt \<noteq> 0 then Inl (Panic ''returning multiple contexts'')
         else trap_loop (filter (answers ev) hs) i ev c (if r \<noteq> 0 then r else nxt) s1)"
    by (rule ext) (auto simp: Cons.IH [symmetric])
  show ?case
  proof (cases "answers ev h")
    case True
    then have "filter (answers ev) (h # hs) = h # filter (answers ev) hs" by simp
    then show ?thesis using True by (simp only: trap_loop.simps answers_def [symmetric] if_True eq)
  next
    case False
    then show ?thesis using Cons.IH [of nxt s] by (simp add: answers_def)
  qed
qed simp

text \<open>With the kernel's handlers a trap other than a system call or a page fault only switches the context.\<close>

lemma two_handlers_switch:
  assumes "sched_inv s" and "i < length (k_cpus s)" and "c \<noteq> 0" and "event ev \<noteq> EVENT_SYSCALL"
  shows "trap_loop [\<lparr>irq_seq = MIN_SEQ, irq_ev = EVENT_NULL, irq_handler = save_handler\<rparr>,
       \<lparr>irq_seq = MAX_SEQ, irq_ev = EVENT_NULL, irq_handler = schedule_handler\<rparr>] i ev c 0 s = switch_context i c s"
proof -
  obtain s1 where s1: "kmt_context_save i c s = Inr (0, s1)" using sched_save_returns [OF assms(1,2), of c] by blast
  obtain r s2 where "switch_context i c s = Inr (r, s2)" "r \<noteq> 0" using switch_context_returns [OF assms(1-3)] by blast
  then show ?thesis using assms(4) by (simp add: save_handler_def schedule_handler_def switch_context_def s1)
qed

lemma kernel_handlers:
  assumes "kmt_register i [] s0 = Inr (l1, s1)" and "os_on_irq i 0 EVENT_SYSCALL sys l1 s1 = Inr (l2, s2)"
    and "os_on_irq i 0 EVENT_PAGEFAULT pf l2 s2 = Inr (l3, s3)"
  shows "l3 = [\<lparr>irq_seq = 0, irq_ev = EVENT_PAGEFAULT, irq_handler = pf\<rparr>, \<lparr>irq_seq = 0, irq_ev = EVENT_SYSCALL, irq_handler = sys\<rparr>,
       \<lparr>irq_seq = MIN_SEQ, irq_ev = EVENT_NULL, irq_handler = save_handler\<rparr>,
       \<lparr>irq_seq = MAX_SEQ, irq_ev = EVENT_NULL, irq_handler = schedule_handler\<rparr>]"
  using assms by (auto simp: kmt_register_def os_on_irq_def res_bind_eq_Inr MIN_SEQ_def MAX_SEQ_def split: if_splits)

text \<open>A machine with a running allocator, for the witnesses.\<close>

definition boot_kern :: kern where
  "boot_kern = (two_threads undefined)\<lparr>k_pmm := block_pmm 0x10000 100\<rparr>"

lemma boot_kern_inv: "sched_inv boot_kern"
  using two_threads_inv [of undefined]
  by (auto simp: boot_kern_def intro: like_sched [rotated] simp: like_def cpu_of_def)

lemma on_irq_block:
  assumes "i < length (k_cpus s)" "i < 8" "gives (k_pmm s) a m" "m > 0" "a \<noteq> 0" "a AND mask 11 = 0"
  shows "\<exists>p. os_on_irq i seq ev hdl irqs s = Inr (insert_irq \<lparr>irq_seq = seq, irq_ev = ev, irq_handler = hdl\<rparr> irqs, s\<lparr>k_pmm := p\<rparr>) \<and>
     gives p (a + 0x800) (m - 1)"
  using palloc_block [of IRQ_SIZE i s a m] assms by (auto simp: os_on_irq_def IRQ_SIZE_def)

lemma boot_kern_fields:
  "length (k_cpus boot_kern) = 2" "gives (k_pmm boot_kern) 0x10000 100"
  "\<not> killed (k_tasks boot_kern (current_task (cpu_of boot_kern 1)))"
  by (simp_all add: boot_kern_def block_pmm_gives two_threads_def cpu_of_def ready_task_def Let_def)

lemma boot_blocks: "(0x10000 :: u64) AND mask 11 = 0" "(0x10800 :: u64) AND mask 11 = 0"
  "(0x11000 :: u64) AND mask 11 = 0" "(0x11800 :: u64) AND mask 11 = 0"
  by (simp_all add: mask_eq_exp_minus_1)

lemma boot_registers:
  "\<exists>l1 s1 l2 s2 l3 s3. kmt_register 0 [] boot_kern = Inr (l1, s1) \<and> os_on_irq 0 0 EVENT_SYSCALL sys l1 s1 = Inr (l2, s2) \<and>
     os_on_irq 0 0 EVENT_PAGEFAULT pf l2 s2 = Inr (l3, s3)"
proof -
  have one: "\<exists>l' p'. os_on_irq 0 seq ev hdl irqs (boot_kern\<lparr>k_pmm := p\<rparr>) = Inr (l', boot_kern\<lparr>k_pmm := p'\<rparr>) \<and> gives p' (a + 0x800) (m - 1)"
    if "gives p a m" "m > 0" "a \<noteq> 0" "a AND mask 11 = 0" for seq ev hdl irqs p a m
    using on_irq_block [of 0 "boot_kern\<lparr>k_pmm := p\<rparr>" a m seq ev hdl irqs] that by (auto simp: boot_kern_fields)
  have start: "boot_kern\<lparr>k_pmm := k_pmm boot_kern\<rparr> = boot_kern" by simp
  obtain l1 p1 where p1: "os_on_irq 0 MIN_SEQ EVENT_NULL save_handler [] boot_kern = Inr (l1, boot_kern\<lparr>k_pmm := p1\<rparr>)"
    "gives p1 0x10800 99"
    using one [OF boot_kern_fields(2) _ _ boot_blocks(1)] by (simp add: start) blast
  obtain l2 p2 where p2: "os_on_irq 0 MAX_SEQ EVENT_NULL schedule_handler l1 (boot_kern\<lparr>k_pmm := p1\<rparr>) = Inr (l2, boot_kern\<lparr>k_pmm := p2\<rparr>)"
    "gives p2 0x11000 98"
    using one [OF p1(2) _ _ boot_blocks(2)] by simp blast
  obtain l3 p3 where p3: "os_on_irq 0 0 EVENT_SYSCALL sys l2 (boot_kern\<lparr>k_pmm := p2\<rparr>) = Inr (l3, boot_kern\<lparr>k_pmm := p3\<rparr>)"
    "gives p3 0x11800 97"
    using one [OF p2(2) _ _ boot_blocks(3)] by simp blast
  obtain l4 p4 where p4: "os_on_irq 0 0 EVENT_PAGEFAULT pf l3 (boot_kern\<lparr>k_pmm := p3\<rparr>) = Inr (l4, boot_kern\<lparr>k_pmm := p4\<rparr>)"
    using one [OF p3(2) _ _ boot_blocks(4)] by simp blast
  have "kmt_register 0 [] boot_kern = Inr (l2, boot_kern\<lparr>k_pmm := p2\<rparr>)" using p1(1) p2(1) by (simp add: kmt_register_def)
  then show ?thesis using p3(1) p4 by blast
qed

section \<open>Properties\<close>

text \<open>
  C24: registering a handler keeps the list of handlers sorted by sequence number: the new one is
  put before every handler with the same or a higher number and after those with a lower one, and
  the others keep their order.
\<close>

theorem os_on_irq_sorted:
  assumes "sorted (map irq_seq irqs)" and "os_on_irq i seq ev hdl irqs s = Inr (irqs', s')"
  shows "sorted (map irq_seq irqs') \<and> (\<exists>xs ys. irqs = xs @ ys \<and>
     irqs' = xs @ \<lparr>irq_seq = seq, irq_ev = ev, irq_handler = hdl\<rparr> # ys \<and> (\<forall>x \<in> set xs. irq_seq x < seq))"
proof -
  let ?h = "\<lparr>irq_seq = seq, irq_ev = ev, irq_handler = hdl\<rparr>"
  have "irqs' = insert_irq ?h irqs" using assms(2) by (auto simp: os_on_irq_def res_bind_eq_Inr split: if_splits)
  then show ?thesis using irqs.ins_sorted [OF assms(1), of ?h] irqs.ins_split [of irqs ?h] by auto
qed

theorem os_on_irq_sorted_witness:
  "\<exists>irqs' s'. os_on_irq 0 5 EVENT_YIELD save_handler [] boot_kern = Inr (irqs', s') \<and> sorted (map irq_seq irqs') \<and> length irqs' = 1"
proof -
  obtain p where p: "os_on_irq 0 5 EVENT_YIELD save_handler [] boot_kern =
      Inr (insert_irq \<lparr>irq_seq = 5, irq_ev = EVENT_YIELD, irq_handler = save_handler\<rparr> [], boot_kern\<lparr>k_pmm := p\<rparr>)"
    using on_irq_block [of 0 boot_kern "0x10000" 100 5 EVENT_YIELD save_handler "[]", OF _ _ boot_kern_fields(2) _ _ boot_blocks(1)]
    by (auto simp: boot_kern_fields(1))
  then show ?thesis using os_on_irq_sorted [OF _ p] by simp
qed

text \<open>
  C23: what a trap does in the running kernel, whose handlers are those of \<open>kmt_init\<close> and
  \<open>uproc_init\<close>: a timer or device interrupt, a yield or an error saves the context and switches
  to a ready task; a system call runs its handler alone and resumes the very context that made it;
  a page fault runs its handler and then switches. The panics of the dispatcher do not occur.
\<close>

theorem os_trap_dispatch:
  assumes reg: "kmt_register i [] s0 = Inr (l1, s1)" "os_on_irq i 0 EVENT_SYSCALL sys l1 s1 = Inr (l2, s2)"
      "os_on_irq i 0 EVENT_PAGEFAULT pf l2 s2 = Inr (l3, s3)"
    and s: "sched_inv s" "j < length (k_cpus s)" "c \<noteq> 0" "\<not> killed (k_tasks s (current_task (cpu_of s j)))"
  shows "(event ev \<noteq> EVENT_SYSCALL \<longrightarrow> event ev \<noteq> EVENT_PAGEFAULT \<longrightarrow>
       os_trap ex l3 j ev c s = switch_context j c s \<and> (\<exists>r s'. switch_context j c s = Inr (r, s') \<and> r \<noteq> 0 \<and> sched_inv s')) \<and>
     (event ev = EVENT_SYSCALL \<longrightarrow> os_trap ex l3 j ev c s = res_bind (sys j ev c s) (\<lambda>(_, s'). Inr (c, s'))) \<and>
     (event ev = EVENT_PAGEFAULT \<longrightarrow> (\<forall>s'. pf j ev c s = Inr (0, s') \<longrightarrow> sched_inv s' \<longrightarrow> length (k_cpus s') = length (k_cpus s) \<longrightarrow>
       os_trap ex l3 j ev c s = switch_context j c s'))"
proof -
  note l3 = kernel_handlers [OF reg]
  have os: "os_trap ex l3 j ev c s = trap_loop l3 j ev c 0 s" using s(4) by (simp add: os_trap_def l3)
  note two = two_handlers_switch [OF _ _ s(3), of _ j ev]
  have 1: "trap_loop l3 j ev c 0 s = switch_context j c s" if "event ev \<noteq> EVENT_SYSCALL" "event ev \<noteq> EVENT_PAGEFAULT"
  proof -
    have "event ev = EVENT_NULL \<or> event ev \<noteq> EVENT_NULL" by blast
    then show ?thesis using two [OF s(1,2)] that unfolding l3 by (subst trap_loop.simps, simp)+
  qed
  have 2: "trap_loop l3 j ev c 0 s = res_bind (sys j ev c s) (\<lambda>(_, s'). Inr (c, s'))" if "event ev = EVENT_SYSCALL"
    using that unfolding l3 by simp
  have 3: "trap_loop l3 j ev c 0 s = switch_context j c s'"
    if "event ev = EVENT_PAGEFAULT" "pf j ev c s = Inr (0, s')" "sched_inv s'" "length (k_cpus s') = length (k_cpus s)" for s'
  proof -
    have "j < length (k_cpus s')" using s(2) that(4) by simp
    then show ?thesis using two [OF that(3)] that unfolding l3 by (simp del: trap_loop_filter)
  qed
  show ?thesis using 1 2 3 switch_context_returns [OF s(1-3)] unfolding os by blast
qed

theorem os_trap_dispatch_witness:
  "\<exists>l3. os_trap (\<lambda>i t n s. Inl Hang) l3 1 \<lparr>event = EVENT_YIELD, cause = 0, ref = 0, msg = []\<rparr> 77 boot_kern = switch_context 1 77 boot_kern"
proof -
  obtain l1 s1 l2 s2 l3 s3 where r: "kmt_register 0 [] boot_kern = Inr (l1, s1)"
    "os_on_irq 0 0 EVENT_SYSCALL save_handler l1 s1 = Inr (l2, s2)" "os_on_irq 0 0 EVENT_PAGEFAULT save_handler l2 s2 = Inr (l3, s3)"
    using boot_registers [of save_handler save_handler] by blast
  show ?thesis
    using os_trap_dispatch [OF r boot_kern_inv _ _ boot_kern_fields(3), of 77 "\<lparr>event = EVENT_YIELD, cause = 0, ref = 0, msg = []\<rparr>"]
    by (auto simp: boot_kern_fields(1))
qed

end
