(* ===== verification/Page_Table.thy ===== *)
theory Page_Table
  imports Kmt
begin

text \<open>
  Virtual memory on x86_64 (\<open>abstract-machine/am/src/x86/qemu/vme.c\<close>): four-level page tables
  in the words of the memory, \<open>as->ptr\<close> standing above them as the only entry of level 0.
  Pages come from \<open>pmm->alloc\<close> and go back to \<open>pmm->free\<close>; \<open>i\<close> is the CPU.
\<close>

section \<open>The configuration\<close>

definition PTE_P :: u64 where "PTE_P = 0x001"
definition PTE_W :: u64 where "PTE_W = 0x002"
definition PTE_U :: u64 where "PTE_U = 0x004"
definition CR0_PG :: u64 where "CR0_PG = 0x80000000"
definition PML4_ADDR :: addr where "PML4_ADDR = 0x1000"

record ptinfo =
  pt_mask :: u64
  pt_shift :: nat
  pt_bits :: nat

definition mmu_pgsize :: int where "mmu_pgsize = 4096"
definition mmu_ptlevels :: nat where "mmu_ptlevels = 4"

definition mmu_pgtables :: "ptinfo list" where
  "mmu_pgtables = [\<lparr>pt_mask = 0x000000000000, pt_shift = 0, pt_bits = 0\<rparr>,
     \<lparr>pt_mask = 0xff8000000000, pt_shift = 39, pt_bits = 9\<rparr>,
     \<lparr>pt_mask = 0x007fc0000000, pt_shift = 30, pt_bits = 9\<rparr>,
     \<lparr>pt_mask = 0x00003fe00000, pt_shift = 21, pt_bits = 9\<rparr>,
     \<lparr>pt_mask = 0x0000001ff000, pt_shift = 12, pt_bits = 9\<rparr>]"

text \<open>The kernel's area; the user's is \<open>[uvm_start, uvm_end)\<close>.\<close>

definition kvm_start :: addr where "kvm_start = 0x000000000000"
definition kvm_end :: addr where "kvm_end = 0x008000000000"

section \<open>Pages and entries\<close>

text \<open>\<open>pgallocz\<close>: a page of 512 zero words.\<close>

fun clear_words :: "nat \<Rightarrow> addr \<Rightarrow> (addr \<Rightarrow> u64) \<Rightarrow> addr \<Rightarrow> u64" where
  "clear_words 0 p w = w"
| "clear_words (Suc n) p w = clear_words n (p + 8) (w(p := 0))"

definition pgallocz :: "nat \<Rightarrow> kern \<Rightarrow> (addr \<times> kern) res" where
  "pgallocz i s = res_bind (palloc i mmu_pgsize s) (\<lambda>(base, s1).
     if base = 0 then Inl (Panic ''cannot allocate page'')
     else Inr (base, s1\<lparr>k_words := clear_words 512 base (k_words s1)\<rparr>))"

definition indexof :: "addr \<Rightarrow> ptinfo \<Rightarrow> nat" where
  "indexof a info = unat (drop_bit (pt_shift info) (a AND pt_mask info))"

definition baseof :: "addr \<Rightarrow> addr" where
  "baseof a = a AND NOT (word_of_int (mmu_pgsize - 1))"

text \<open>The address of an entry of a table.\<close>

definition entry_addr :: "addr \<Rightarrow> nat \<Rightarrow> addr" where
  "entry_addr pt index = pt + of_nat (8 * index)"

text \<open>
  The loop of \<open>ptwalk\<close> below level 0: \<open>is\<close> are the levels still to walk, the last of which
  gives the entry.
\<close>

fun ptwalk_loop :: "nat \<Rightarrow> addr \<Rightarrow> u64 \<Rightarrow> addr \<Rightarrow> ptinfo list \<Rightarrow> kern \<Rightarrow> (addr \<times> kern) res" where
  "ptwalk_loop i a flags cur [] s = Inl (Panic ''should not reach here'')"
| "ptwalk_loop i a flags cur [info] s = Inr (entry_addr cur (indexof a info), s)"
| "ptwalk_loop i a flags cur (info # info2 # infos) s =
    (let e = entry_addr cur (indexof a info) in
     if k_words s e AND PTE_P = 0 then
       res_bind (pgallocz i s) (\<lambda>(next_page, s1).
         ptwalk_loop i a flags next_page (info2 # infos)
           (s1\<lparr>k_words := (k_words s1)(e := next_page OR PTE_P OR flags)\<rparr>))
     else ptwalk_loop i a flags (baseof (k_words s e)) (info2 # infos) s)"

definition ptwalk :: "nat \<Rightarrow> addr \<Rightarrow> addr \<Rightarrow> u64 \<Rightarrow> kern \<Rightarrow> (addr \<times> kern) res" where
  "ptwalk i asp a flags s =
    (if as_ptr (k_as s asp) AND PTE_P = 0 then
       res_bind (pgallocz i s) (\<lambda>(next_page, s1).
         ptwalk_loop i a flags next_page (tl mmu_pgtables)
           (s1\<lparr>k_as := (k_as s1)(asp := (k_as s1 asp)\<lparr>as_ptr := next_page OR PTE_P OR flags\<rparr>)\<rparr>))
     else ptwalk_loop i a flags (baseof (as_ptr (k_as s asp))) (tl mmu_pgtables) s)"

text \<open>
  \<open>teardown\<close> at a table of a level below 0: the tables under every present user entry, then
  the table itself; beyond the last level there is nothing. The recursion is on the levels left.
\<close>

fun teardown_table :: "nat \<Rightarrow> ptinfo list \<Rightarrow> addr \<Rightarrow> kern \<Rightarrow> kern res"
  and teardown_entries :: "nat \<Rightarrow> ptinfo list \<Rightarrow> addr \<Rightarrow> nat list \<Rightarrow> kern \<Rightarrow> kern res" where
  "teardown_table i [] pt s = Inr s"
| "teardown_table i (info # infos) pt s =
     res_bind (teardown_entries i infos pt [0..<2 ^ pt_bits info] s) (\<lambda>s1. pfree i pt s1)"
| "teardown_entries i infos pt [] s = Inr s"
| "teardown_entries i infos pt (j # js) s =
    (let e = k_words s (entry_addr pt j) in
     res_bind (if e AND PTE_P \<noteq> 0 \<and> e AND PTE_U \<noteq> 0 then teardown_table i infos (baseof e) s else Inr s)
       (\<lambda>s1. teardown_entries i infos pt js s1))"

text \<open>At level 0 the only entry is \<open>as->ptr\<close>, whose holder is not a page of the tables.\<close>

definition unprotect :: "nat \<Rightarrow> addr \<Rightarrow> kern \<Rightarrow> kern res" where
  "unprotect i asp s =
    (let e = as_ptr (k_as s asp) in
     if e AND PTE_P \<noteq> 0 \<and> e AND PTE_U \<noteq> 0 then teardown_table i (tl mmu_pgtables) (baseof e) s else Inr s)"

section \<open>The interface\<close>

text \<open>The registers \<open>vme_init\<close> loads: the page table base and \<open>cr0\<close>.\<close>

definition vme_init :: "nat \<Rightarrow> u64 \<Rightarrow> (addr \<times> u64) res" where
  "vme_init cpu_current cr0 =
    (if cpu_current \<noteq> 0 then Inl (Panic ''init VME in non-bootstrap CPU'')
     else Inr (PML4_ADDR, cr0 OR CR0_PG))"

text \<open>
  \<open>protect\<close> copies the entries of the kernel's area from the kernel's table; the loop runs over
  the area in steps of what one entry of level 1 covers.
\<close>

fun copy_kernel :: "addr \<Rightarrow> addr \<Rightarrow> ptinfo \<Rightarrow> addr \<Rightarrow> (addr \<Rightarrow> u64) \<Rightarrow> nat \<Rightarrow> addr \<Rightarrow> u64" where
  "copy_kernel kpt user_pt info cur w 0 = w"
| "copy_kernel kpt user_pt info cur w (Suc fuel) =
    (if cur = kvm_end then w
     else let index = indexof cur info in
       copy_kernel kpt user_pt info (cur + push_bit (pt_shift info) 1)
         (w(entry_addr user_pt index := w (entry_addr kpt index))) fuel)"

definition protect :: "nat \<Rightarrow> addr \<Rightarrow> kern \<Rightarrow> kern res" where
  "protect i asp s =
    res_bind (pgallocz i s) (\<lambda>(user_pt, s1).
      let info = mmu_pgtables ! 1;
          s2 = s1\<lparr>k_words := copy_kernel PML4_ADDR user_pt info kvm_start (k_words s1) 512\<rparr>
      in Inr (s2\<lparr>k_as := (k_as s2)(asp := \<lparr>as_pgsize = word_of_int mmu_pgsize, as_start = uvm_start, as_end = uvm_end,
           as_ptr = user_pt OR PTE_P OR PTE_U\<rparr>)\<rparr>))"

definition rounddown :: "addr \<Rightarrow> addr \<Rightarrow> addr" where
  "rounddown a sz = a AND NOT (sz - 1)"

definition roundup :: "addr \<Rightarrow> addr \<Rightarrow> addr" where
  "roundup a sz = (a + sz - 1) AND NOT (sz - 1)"

definition map_page :: "nat \<Rightarrow> addr \<Rightarrow> addr \<Rightarrow> addr \<Rightarrow> u64 \<Rightarrow> kern \<Rightarrow> kern res" where
  "map_page i asp va pa prot s =
    (if \<not> (uvm_start \<le> va \<and> va < uvm_end) then Inl (Panic ''mapping an invalid address'')
     else if va \<noteq> rounddown va 4096 \<or> pa \<noteq> rounddown pa 4096 then Inl (Panic ''non-page-boundary address'')
     else res_bind (ptwalk i asp va (PTE_W OR PTE_U) s) (\<lambda>(e, s1).
       res_bind
         (if prot = MMAP_NONE then
            (if k_words s1 e AND PTE_P = 0 then Inl (Panic ''unmapping a non-mapped page'')
             else Inr (s1\<lparr>k_words := (k_words s1)(e := 0)\<rparr>))
          else
            (if k_words s1 e AND PTE_P \<noteq> 0 then Inl (Panic ''remapping a mapped page'')
             else Inr (s1\<lparr>k_words := (k_words s1)(e := pa OR PTE_P OR PTE_U OR (if prot AND MMAP_WRITE \<noteq> 0 then PTE_W else 0))\<rparr>)))
         (\<lambda>s2. res_bind (ptwalk i asp va (PTE_W OR PTE_U) s2) (\<lambda>(_, s3). Inr s3))))"

end
