(* ===== verification/Vm_Area.thy ===== *)
theory Vm_Area
  imports Page_Table Trap
begin

text \<open>
  The memory of a process (\<open>kernel/src/uproc.c\<close>): process numbers, the list of areas of a task,
  its list of mapped pages, the counters of shared pages, and \<open>kmmap\<close>. The nodes of the two
  lists keep their address, which is what \<open>pmm\<close> gave and takes back; a write through a null
  pointer is undefined. The doubly linked list of areas is the list of its nodes in order.
\<close>

definition MAP_SHARED :: int where "MAP_SHARED = 1"
definition MAP_PRIVATE :: int where "MAP_PRIVATE = 2"
definition MAP_UNMAP :: int where "MAP_UNMAP = 3"
definition PROT_NONE :: int where "PROT_NONE = 1"
definition PROT_READ :: int where "PROT_READ = 2"
definition PROT_WRITE :: int where "PROT_WRITE = 4"

section \<open>Locks\<close>

definition lock_pid :: "nat \<Rightarrow> kern \<Rightarrow> kern res" where
  "lock_pid i = acquire i k_pid_lock (\<lambda>lk. k_pid_lock_update (\<lambda>_. lk))"

definition unlock_pid :: "nat \<Rightarrow> kern \<Rightarrow> kern res" where
  "unlock_pid i = release i k_pid_lock (\<lambda>lk. k_pid_lock_update (\<lambda>_. lk))"

definition lock_cow :: "nat \<Rightarrow> kern \<Rightarrow> kern res" where
  "lock_cow i = acquire i k_cow_lock (\<lambda>lk. k_cow_lock_update (\<lambda>_. lk))"

definition unlock_cow :: "nat \<Rightarrow> kern \<Rightarrow> kern res" where
  "unlock_cow i = release i k_cow_lock (\<lambda>lk. k_cow_lock_update (\<lambda>_. lk))"

definition lock_init :: "nat \<Rightarrow> kern \<Rightarrow> kern res" where
  "lock_init i = acquire i k_task_init_lock (\<lambda>lk. k_task_init_lock_update (\<lambda>_. lk))"

definition unlock_init :: "nat \<Rightarrow> kern \<Rightarrow> kern res" where
  "unlock_init i = release i k_task_init_lock (\<lambda>lk. k_task_init_lock_update (\<lambda>_. lk))"

definition lock_vme :: "nat \<Rightarrow> addr \<Rightarrow> kern \<Rightarrow> kern res" where
  "lock_vme i t = acquire i (\<lambda>s. vme_lock (k_tasks s t)) (\<lambda>lk. upd_task t (vme_lock_update (\<lambda>_. lk)))"

definition unlock_vme :: "nat \<Rightarrow> addr \<Rightarrow> kern \<Rightarrow> kern res" where
  "unlock_vme i t = release i (\<lambda>s. vme_lock (k_tasks s t)) (\<lambda>lk. upd_task t (vme_lock_update (\<lambda>_. lk)))"

definition lock_mp :: "nat \<Rightarrow> addr \<Rightarrow> kern \<Rightarrow> kern res" where
  "lock_mp i t = acquire i (\<lambda>s. mp_lock (k_tasks s t)) (\<lambda>lk. upd_task t (mp_lock_update (\<lambda>_. lk)))"

definition unlock_mp :: "nat \<Rightarrow> addr \<Rightarrow> kern \<Rightarrow> kern res" where
  "unlock_mp i t = release i (\<lambda>s. mp_lock (k_tasks s t)) (\<lambda>lk. upd_task t (mp_lock_update (\<lambda>_. lk)))"

section \<open>Process numbers\<close>

definition PID_Q_SIZE :: int where "PID_Q_SIZE = 16"

text \<open>
  \<open>get_pid\<close> reads the link of the first node after giving the node back; the allocator uses the
  first word of a free block, which is not the word of the link.
\<close>

definition get_pid :: "nat \<Rightarrow> kern \<Rightarrow> (int \<times> kern) res" where
  "get_pid i s =
    res_bind (lock_pid i s) (\<lambda>s1.
      case k_pids s1 of
        [] \<Rightarrow> res_bind (unlock_pid i s1) (\<lambda>s2. Inr (0, s2))
      | (node, p) # rest \<Rightarrow>
          res_bind (pfree i node s1) (\<lambda>s2.
          res_bind (unlock_pid i (s2\<lparr>k_pids := rest\<rparr>)) (\<lambda>s3. Inr (p, s3))))"

definition store_pid :: "nat \<Rightarrow> int \<Rightarrow> kern \<Rightarrow> kern res" where
  "store_pid i p s =
    res_bind (lock_pid i s) (\<lambda>s1.
    res_bind (palloc i PID_Q_SIZE s1) (\<lambda>(node, s2).
      if node = 0 then Inl Undefined
      else unlock_pid i (s2\<lparr>k_pids := k_pids s2 @ [(node, p)]\<rparr>)))"

definition new_pid :: "nat \<Rightarrow> kern \<Rightarrow> (int \<times> kern) res" where
  "new_pid i s = (if k_cnt s = 32768 then get_pid i s else Inr (k_cnt s, s\<lparr>k_cnt := k_cnt s + 1\<rparr>))"

section \<open>Areas\<close>

definition VME_AREA_SIZE :: int where "VME_AREA_SIZE = 48"

text \<open>The walk of \<open>get_suitable_addr\<close>: past the areas in the way, to the first gap that is long enough.\<close>

fun suitable_loop :: "vme_area list \<Rightarrow> addr \<Rightarrow> addr \<Rightarrow> addr \<Rightarrow> addr \<Rightarrow> addr \<times> addr" where
  "suitable_loop [] a e len pg = (a, e)"
| "suitable_loop (v # vs) a e len pg =
    (if e \<le> vm_start v then (a, e)
     else if vm_end v \<le> a then suitable_loop vs a e len pg
     else suitable_loop vs (vm_end v) (roundup (vm_end v + len) pg) len pg)"

definition get_suitable_addr :: "task \<Rightarrow> addr_space \<Rightarrow> addr \<Rightarrow> int \<Rightarrow> addr res" where
  "get_suitable_addr tk asp start_addr len =
    (let end_addr = roundup (start_addr + of_int len) (as_pgsize asp) in
     if vm_areas tk = [] then Inr start_addr
     else let (a, e) = suitable_loop (map snd (vm_areas tk)) start_addr end_addr (of_int len) (as_pgsize asp) in
       if \<not> e \<le> as_end asp then Inl Assert else Inr a)"

definition new_vme_node :: "nat \<Rightarrow> addr \<Rightarrow> addr \<Rightarrow> int \<Rightarrow> int \<Rightarrow> int \<Rightarrow> kern \<Rightarrow> ((addr \<times> vme_area) \<times> kern) res" where
  "new_vme_node i t a len prot flags s =
    res_bind (palloc i VME_AREA_SIZE s) (\<lambda>(node, s1).
      let tk = k_tasks s1 t; asp = k_as s1 (t_as tk); start_addr = roundup a (as_pgsize asp) in
      res_bind (get_suitable_addr tk asp start_addr len) (\<lambda>right_addr.
        if node = 0 then Inl Undefined
        else Inr ((node, \<lparr>vm_start = right_addr, vm_end = roundup (right_addr + of_int len) (as_pgsize asp),
               vm_as = t_as tk, vm_prot = of_int prot, vm_flags = of_int flags\<rparr>), s1)))"

text \<open>None is the result \<open>false\<close>: the new area overlaps another one.\<close>

fun insert_area :: "addr \<times> vme_area \<Rightarrow> (addr \<times> vme_area) list \<Rightarrow> (addr \<times> vme_area) list option" where
  "insert_area n [] = Some [n]"
| "insert_area n (v # vs) =
    (if vm_end (snd n) \<le> vm_start (snd v) then Some (n # v # vs)
     else if vm_end (snd v) \<le> vm_start (snd n) then map_option ((#) v) (insert_area n vs)
     else None)"

definition insert_vme_node :: "addr \<Rightarrow> addr \<times> vme_area \<Rightarrow> kern \<Rightarrow> bool \<times> kern" where
  "insert_vme_node t n s =
    (case insert_area n (vm_areas (k_tasks s t)) of
       None \<Rightarrow> (False, s)
     | Some l \<Rightarrow> (True, upd_task t (vm_areas_update (\<lambda>_. l)) s))"

fun find_area :: "(addr \<times> vme_area) list \<Rightarrow> addr \<Rightarrow> addr \<Rightarrow> vme_area option" where
  "find_area [] a e = None"
| "find_area (v # vs) a e =
    (if vm_start (snd v) \<le> a \<and> e \<le> vm_end (snd v) then Some (snd v)
     else if vm_end (snd v) \<le> a then find_area vs a e
     else None)"

definition find_vme_node :: "task \<Rightarrow> addr \<Rightarrow> addr \<Rightarrow> vme_area option" where
  "find_vme_node tk a e = find_area (vm_areas tk) a e"

section \<open>Mapped pages\<close>

definition M_PAGE_SIZE :: int where "M_PAGE_SIZE = 32"

definition new_mapped_page :: "nat \<Rightarrow> addr \<Rightarrow> addr \<Rightarrow> addr \<Rightarrow> kern \<Rightarrow> ((addr \<times> m_page) \<times> kern) res" where
  "new_mapped_page i t va pa s =
    res_bind (palloc i M_PAGE_SIZE s) (\<lambda>(node, s1).
      if node = 0 then Inl Undefined
      else Inr ((node, \<lparr>mp_as = t_as (k_tasks s1 t), mp_va = va, mp_pa = pa\<rparr>), s1))"

definition insert_map_page :: "addr \<Rightarrow> addr \<times> m_page \<Rightarrow> kern \<Rightarrow> kern" where
  "insert_map_page t pg = upd_task t (mapped_pages_update (\<lambda>l. pg # l))"

text \<open>The first page of the list that stands for an address, taken out.\<close>

fun take_page :: "addr \<Rightarrow> (addr \<times> m_page) list \<Rightarrow> (addr \<times> (addr \<times> m_page) list) option" where
  "take_page va [] = None"
| "take_page va (p # ps) =
    (if mp_va (snd p) = va then Some (fst p, ps)
     else map_option (\<lambda>(node, l). (node, p # l)) (take_page va ps))"

definition delete_map_page :: "nat \<Rightarrow> addr \<Rightarrow> addr \<Rightarrow> kern \<Rightarrow> kern res" where
  "delete_map_page i t va s =
    (case take_page va (mapped_pages (k_tasks s t)) of
       None \<Rightarrow> Inl (Panic ''mapped page not found'')
     | Some (node, l) \<Rightarrow> pfree i node (upd_task t (mapped_pages_update (\<lambda>_. l)) s))"

fun find_page :: "(addr \<times> m_page) list \<Rightarrow> addr \<Rightarrow> (addr \<times> m_page) option" where
  "find_page [] va = None"
| "find_page (p # ps) va = (if mp_va (snd p) = va then Some p else find_page ps va)"

definition find_mapped_page :: "task \<Rightarrow> addr \<Rightarrow> (addr \<times> m_page) option" where
  "find_mapped_page tk va = find_page (mapped_pages tk) va"

definition convert_mmap_prot_to_vm_prot :: "int \<Rightarrow> u64" where
  "convert_mmap_prot_to_vm_prot prot =
    (let v0 = 0;
         v1 = (if (of_int prot :: u32) AND of_int PROT_READ \<noteq> 0 then v0 OR MMAP_READ else v0);
         v2 = (if (of_int prot :: u32) AND of_int PROT_WRITE \<noteq> 0 then v1 OR MMAP_WRITE else v1)
     in if prot = PROT_NONE then MMAP_NONE else v2)"

section \<open>Counters of shared pages\<close>

text \<open>The counter of a page; a page beyond the end of the table is an undefined access.\<close>

definition cow_index :: "addr_space \<Rightarrow> addr \<Rightarrow> nat" where
  "cow_index asp pa = unat (rounddown pa (as_pgsize asp) div as_pgsize asp)"

definition cow_update :: "nat \<Rightarrow> addr \<Rightarrow> addr \<Rightarrow> (int \<Rightarrow> int) \<Rightarrow> kern \<Rightarrow> (int \<times> kern) res" where
  "cow_update i t pa f s =
    (let index = cow_index (k_as s (t_as (k_tasks s t))) pa in
     res_bind (lock_cow i s) (\<lambda>s1.
       if length (k_cow s1) \<le> index then Inl Undefined
       else let v = k_cow s1 ! index in
         res_bind (unlock_cow i (s1\<lparr>k_cow := (k_cow s1)[index := f v]\<rparr>)) (\<lambda>s2. Inr (v, s2))))"

definition get_cow_cnt :: "nat \<Rightarrow> addr \<Rightarrow> addr \<Rightarrow> kern \<Rightarrow> (int \<times> kern) res" where
  "get_cow_cnt i t pa s = cow_update i t pa (\<lambda>v. v) s"

definition set_cow_cnt :: "nat \<Rightarrow> addr \<Rightarrow> addr \<Rightarrow> int \<Rightarrow> kern \<Rightarrow> kern res" where
  "set_cow_cnt i t pa cnt s = res_bind (cow_update i t pa (\<lambda>_. cnt) s) (\<lambda>(_, s1). Inr s1)"

definition inc_cow_cnt :: "nat \<Rightarrow> addr \<Rightarrow> addr \<Rightarrow> kern \<Rightarrow> kern res" where
  "inc_cow_cnt i t pa s = res_bind (cow_update i t pa (\<lambda>v. v + 1) s) (\<lambda>(_, s1). Inr s1)"

definition dec_cow_cnt :: "nat \<Rightarrow> addr \<Rightarrow> addr \<Rightarrow> kern \<Rightarrow> kern res" where
  "dec_cow_cnt i t pa s = res_bind (cow_update i t pa (\<lambda>v. v - 1) s) (\<lambda>(_, s1). Inr s1)"

section \<open>Mapping and unmapping\<close>

definition pgmap :: "nat \<Rightarrow> addr \<Rightarrow> addr \<Rightarrow> addr \<Rightarrow> int \<Rightarrow> bool \<Rightarrow> kern \<Rightarrow> kern res" where
  "pgmap i t va pa prot cow_cnt s =
    res_bind (new_mapped_page i t va pa s) (\<lambda>(page, s1).
    res_bind (if cow_cnt then inc_cow_cnt i t pa s1 else Inr s1) (\<lambda>s2.
      let s3 = insert_map_page t page s2 in
      map_page i (t_as (k_tasks s3 t)) va pa (convert_mmap_prot_to_vm_prot prot) s3))"

definition pgunmap :: "nat \<Rightarrow> addr \<Rightarrow> addr \<Rightarrow> kern \<Rightarrow> kern res" where
  "pgunmap i t va s =
    res_bind (delete_map_page i t va s) (\<lambda>s1. map_page i (t_as (k_tasks s1 t)) va 0 MMAP_NONE s1)"

text \<open>The loop of \<open>delete_mapping\<close>, page by page; \<open>n\<close> is the number of pages of the range.\<close>

fun delete_mapping_loop :: "nat \<Rightarrow> nat \<Rightarrow> addr \<Rightarrow> addr \<Rightarrow> kern \<Rightarrow> kern res" where
  "delete_mapping_loop 0 i t cur s = Inr s"
| "delete_mapping_loop (Suc n) i t cur s =
    res_bind (if find_mapped_page (k_tasks s t) cur \<noteq> None then pgunmap i t cur s else Inr s) (\<lambda>s1.
      delete_mapping_loop n i t (cur + as_pgsize (k_as s1 (t_as (k_tasks s1 t)))) s1)"

definition delete_mapping :: "nat \<Rightarrow> addr \<Rightarrow> addr \<Rightarrow> addr \<Rightarrow> kern \<Rightarrow> kern res" where
  "delete_mapping i t start_addr end_addr s =
    (let pg = unat (as_pgsize (k_as s (t_as (k_tasks s t)))) in
     if pg = 0 then Inl Hang
     else delete_mapping_loop ((unat end_addr - unat start_addr + pg - 1) div pg) i t start_addr s)"

definition kmmap :: "nat \<Rightarrow> addr \<Rightarrow> addr \<Rightarrow> int \<Rightarrow> int \<Rightarrow> int \<Rightarrow> kern \<Rightarrow> (addr \<times> kern) res" where
  "kmmap i t a len prot flags s =
    (if t = 0 then Inl Assert
     else if t_as (k_tasks s t) = 0 then Inl Assert
     else if \<not> 0 < len then Inl Assert
     else if flags = MAP_UNMAP then
       (if prot \<noteq> PROT_NONE then Inl Assert
        else
          let pg = as_pgsize (k_as s (t_as (k_tasks s t)));
              start_addr = rounddown a pg; end_addr = roundup (a + of_int len) pg in
          res_bind (lock_vme i t s) (\<lambda>s1.
          let own_space = find_vme_node (k_tasks s1 t) start_addr end_addr in
          res_bind (unlock_vme i t s1) (\<lambda>s2.
          res_bind
            (if own_space \<noteq> None then
               res_bind (lock_mp i t s2) (\<lambda>s3.
               res_bind (delete_mapping i t start_addr end_addr s3) (\<lambda>s4. unlock_mp i t s4))
             else Inr s2) (\<lambda>s5. Inr (0, s5)))))
     else
       res_bind (new_vme_node i t a len prot flags s) (\<lambda>(node, s1).
       res_bind (lock_vme i t s1) (\<lambda>s2.
       let (success, s3) = insert_vme_node t node s2 in
       if \<not> success then Inl (Panic ''mmap failed'')
       else res_bind (unlock_vme i t s3) (\<lambda>s4. Inr (vm_start (snd node), s4)))))"

end
