(* ===== verification/Uproc.thy ===== *)
theory Uproc
  imports Vm_Area
begin

text \<open>
  Processes (\<open>kernel/src/uproc.c\<close>): creation, fork, wait, kill, exit, the page-fault and the
  system-call handler. A call that waits with \<open>yield()\<close> in a loop returns an outcome that says
  what it waits for; its continuation is a definition of its own. \<open>i\<close> is the CPU.
\<close>

section \<open>Creation\<close>

definition ADDR_SPACE_SIZE :: int where "ADDR_SPACE_SIZE = 32"

definition uproc_create :: "nat \<Rightarrow> addr \<Rightarrow> string \<Rightarrow> kern \<Rightarrow> (int \<times> kern) res" where
  "uproc_create i t name s =
    res_bind (lock_init i s) (\<lambda>s1.
    if t = 0 \<or> K_NAME \<le> length name then Inl Undefined
    else
      res_bind (palloc i ADDR_SPACE_SIZE s1) (\<lambda>(asp, s2).
      res_bind (if asp = 0 then Inl Undefined else protect i asp s2) (\<lambda>s3.
      let (ctx, regs) = ucontext (as_ptr (k_as s3 asp)) (t + STACK_SIZE) (as_start (k_as s3 asp)) in
      res_bind (palloc i (uint CONTEXT_SIZE) (s3\<lparr>k_ctx := (k_ctx s3)(ctx := regs)\<rparr>)) (\<lambda>(ctx1, s4).
      res_bind (kmt_spin_init (status (k_tasks s4 t)) name) (\<lambda>lk1.
      res_bind (kmt_spin_init (vme_lock (k_tasks s4 t)) name) (\<lambda>lk2.
      res_bind (kmt_spin_init (mp_lock (k_tasks s4 t)) name) (\<lambda>lk3.
      let s5 = upd_task t (\<lambda>tk. tk\<lparr>t_name := name, t_as := asp, t_context := (t_context tk)[0 := ctx, 1 := ctx1],
                 status := lk1, vme_lock := lk2, mp_lock := lk3, block := False, is_running := False,
                 pid := 0, ppid := 0, vm_areas := [], mapped_pages := [], t_state := 0, retstate := 0,
                 killed := False, nested_interrupt := 0\<rparr>) s4
      in res_bind (unlock_init i s5) (\<lambda>s6. Inr (0, s6)))))))))"

section \<open>Simple calls\<close>

definition kputc :: "u8 \<Rightarrow> kern \<Rightarrow> int \<times> kern" where
  "kputc ch s = (0, s\<lparr>k_out := k_out s @ [ch]\<rparr>)"

definition kgetpid :: "addr \<Rightarrow> kern \<Rightarrow> int res" where
  "kgetpid t s =
    (if t = 0 then Inl Assert
     else if \<not> (1 \<le> pid (k_tasks s t) \<and> pid (k_tasks s t) < 32768) then Inl Assert
     else Inr (pid (k_tasks s t)))"

text \<open>
  \<open>clock n\<close> is the n-th reading of the timer, in microseconds. The result of the loop is the
  number of readings it took; every failed comparison is one \<open>yield()\<close>. The product
  \<open>second * 1000000\<close> is an \<open>int\<close>.
\<close>

partial_function (option) sleep_loop :: "(nat \<Rightarrow> u64) \<Rightarrow> u64 \<Rightarrow> nat \<Rightarrow> nat option" where
  "sleep_loop clock wake n = (if clock n < wake then sleep_loop clock wake (Suc n) else Some n)"

definition wake_time :: "(nat \<Rightarrow> u64) \<Rightarrow> int \<Rightarrow> u64 res" where
  "wake_time clock second =
    (if second * 1000000 < - (2 ^ 31) \<or> 2 ^ 31 \<le> second * 1000000 then Inl Undefined
     else Inr (clock 0 + of_int (second * 1000000)))"

definition ksleep :: "(nat \<Rightarrow> u64) \<Rightarrow> int \<Rightarrow> (int \<times> nat) res" where
  "ksleep clock second =
    res_bind (wake_time clock second) (\<lambda>w.
      case sleep_loop clock w 1 of None \<Rightarrow> Inl Hang | Some n \<Rightarrow> Inr (0, n))"

definition kuptime :: "u64 \<Rightarrow> int" where
  "kuptime us = uint (us div 1000)"

section \<open>Fork\<close>

text \<open>
  The pages of the parent: the next node is read after the current one has been given back and a
  new one has been put at the head. \<open>next_node\<close> finds the link of a node that is in the list;
  the link of a node that is not is the one it had.
\<close>

fun next_node :: "(addr \<times> m_page) list \<Rightarrow> addr \<Rightarrow> addr \<Rightarrow> addr" where
  "next_node [] cur old = old"
| "next_node [p] cur old = (if fst p = cur then 0 else old)"
| "next_node (p # q # ps) cur old = (if fst p = cur then fst q else next_node (q # ps) cur old)"

fun node_at :: "(addr \<times> m_page) list \<Rightarrow> addr \<Rightarrow> m_page option" where
  "node_at [] cur = None"
| "node_at (p # ps) cur = (if fst p = cur then Some (snd p) else node_at ps cur)"

definition cow_page :: "nat \<Rightarrow> addr \<Rightarrow> addr \<Rightarrow> m_page \<Rightarrow> kern \<Rightarrow> (addr \<times> kern) res" where
  "cow_page i t cur pg s =
    (let old = next_node (mapped_pages (k_tasks s t)) cur 0 in
     res_bind (get_cow_cnt i t (mp_pa pg) s) (\<lambda>(cnt, s1).
     res_bind
       (if cnt = 0 then
          (let va = mp_va pg; pgsz = as_pgsize (k_as s1 (t_as (k_tasks s1 t))) in
           res_bind (palloc i (uint pgsz) s1) (\<lambda>(pa, s2).
           res_bind (lock_vme i t s2) (\<lambda>s3.
           let vma = find_vme_node (k_tasks s3 t) va (va + pgsz) in
           res_bind (unlock_vme i t s3) (\<lambda>s4.
             case vma of
               None \<Rightarrow> Inl Undefined
             | Some v \<Rightarrow>
                 if vm_prot v AND of_int PROT_WRITE \<noteq> 0 \<and> vm_flags v AND of_int MAP_PRIVATE \<noteq> 0 then
                   res_bind (pgunmap i t va s4) (\<lambda>s5.
                     pgmap i t va pa (uint (vm_prot v AND NOT (of_int PROT_WRITE))) True s5)
                 else Inr s4))))
        else Inr s1) (\<lambda>s6.
     Inr (next_node (mapped_pages (k_tasks s6 t)) cur old, s6))))"

text \<open>A node that has left the list is not visited: its memory would be read after its release.\<close>

partial_function (option) cow_loop :: "nat \<Rightarrow> addr \<Rightarrow> addr \<Rightarrow> kern \<Rightarrow> kern res option" where
  "cow_loop i t cur s =
    (if cur = 0 then Some (Inr s)
     else case node_at (mapped_pages (k_tasks s t)) cur of
       None \<Rightarrow> Some (Inl Undefined)
     | Some pg \<Rightarrow>
         (case cow_page i t cur pg s of
            Inl e \<Rightarrow> Some (Inl e)
          | Inr (nxt, s1) \<Rightarrow> cow_loop i t nxt s1))"

definition head_node :: "(addr \<times> m_page) list \<Rightarrow> addr" where
  "head_node l = (case l of [] \<Rightarrow> 0 | p # ps \<Rightarrow> fst p)"

definition fork_cow_mapping :: "nat \<Rightarrow> addr \<Rightarrow> kern \<Rightarrow> kern res" where
  "fork_cow_mapping i t s =
    res_bind (lock_mp i t s) (\<lambda>s1.
    res_bind (case cow_loop i t (head_node (mapped_pages (k_tasks s1 t))) s1 of None \<Rightarrow> Inl Hang | Some r \<Rightarrow> r) (\<lambda>s2.
      unlock_mp i t s2))"

text \<open>
  The areas of the parent are entered one by one in the new task; an area the new task refuses
  would leave dangling ends of the list.
\<close>

fun copy_areas :: "nat \<Rightarrow> addr \<Rightarrow> vme_area list \<Rightarrow> kern \<Rightarrow> kern res" where
  "copy_areas i new_task [] s = Inr s"
| "copy_areas i new_task (v # vs) s =
    res_bind (new_vme_node i new_task (vm_start v) (sint (ucast (vm_end v - vm_start v) :: u32)) (uint (vm_prot v)) (uint (vm_flags v)) s) (\<lambda>(n, s1).
      let (success, s2) = insert_vme_node new_task n s1 in
      if \<not> success then Inl Undefined else copy_areas i new_task vs s2)"

definition fork_copying_vme_pages :: "nat \<Rightarrow> addr \<Rightarrow> addr \<Rightarrow> kern \<Rightarrow> kern res" where
  "fork_copying_vme_pages i t new_task s =
    (if vm_areas (k_tasks s t) = [] then Inr (upd_task new_task (vm_areas_update (\<lambda>_. [])) s)
     else res_bind (lock_vme i t s) (\<lambda>s1.
       res_bind (copy_areas i new_task (map snd (vm_areas (k_tasks s1 t))) s1) (\<lambda>s2. unlock_vme i t s2)))"

fun copy_pages :: "nat \<Rightarrow> addr \<Rightarrow> addr \<Rightarrow> m_page list \<Rightarrow> kern \<Rightarrow> kern res" where
  "copy_pages i t new_task [] s = Inr s"
| "copy_pages i t new_task (p # ps) s =
    res_bind (lock_vme i t s) (\<lambda>s1.
      let pgsz = as_pgsize (k_as s1 (t_as (k_tasks s1 t))) in
      (case find_vme_node (k_tasks s1 t) (mp_va p) (mp_va p + pgsz) of
         None \<Rightarrow> Inl Undefined
       | Some v \<Rightarrow>
           res_bind (pgmap i new_task (mp_va p) (mp_pa p) (uint (vm_prot v)) True s1) (\<lambda>s2.
           res_bind (unlock_vme i t s2) (\<lambda>s3. copy_pages i t new_task ps s3))))"

text \<open>With nothing mapped the routine returns with the lock of the pages still held.\<close>

definition fork_coppying_new_mapped_pages :: "nat \<Rightarrow> addr \<Rightarrow> addr \<Rightarrow> kern \<Rightarrow> kern res" where
  "fork_coppying_new_mapped_pages i t new_task s =
    res_bind (lock_mp i t s) (\<lambda>s1.
      if mapped_pages (k_tasks s1 t) = [] then Inr (upd_task new_task (mapped_pages_update (\<lambda>_. [])) s1)
      else res_bind (copy_pages i t new_task (map snd (mapped_pages (k_tasks s1 t))) s1) (\<lambda>s2. unlock_mp i t s2))"

definition kfork :: "nat \<Rightarrow> addr \<Rightarrow> kern \<Rightarrow> (int \<times> kern) res" where
  "kfork i t s =
    res_bind (palloc i TASK_SIZE s) (\<lambda>(new_task, s1).
    res_bind (uproc_create i new_task ''_fork'' s1) (\<lambda>(_, s2).
      let ctx = t_context (k_tasks s2 new_task) ! 0;
          rsp0_new = rsp0 (k_ctx s2 ctx); cr3_new = cr3 (k_ctx s2 ctx);
          regs = (k_ctx s2 (t_context (k_tasks s2 t) ! 0))\<lparr>rsp0 := rsp0_new, cr3 := cr3_new, rax := 0\<rparr>;
          s3 = s2\<lparr>k_ctx := (k_ctx s2)(ctx := regs)\<rparr>
      in res_bind (fork_cow_mapping i t s3) (\<lambda>s4.
         res_bind (fork_copying_vme_pages i t new_task s4) (\<lambda>s5.
         res_bind (fork_coppying_new_mapped_pages i t new_task s5) (\<lambda>s6.
           let s7 = upd_task new_task (\<lambda>tk. tk\<lparr>ppid := pid (k_tasks s6 t)\<rparr>) s6 in
           res_bind (new_pid i s7) (\<lambda>(new_id, s8).
             let s9 = upd_task new_task (\<lambda>tk. tk\<lparr>pid := new_id\<rparr>) s8 in
             res_bind (lock_init i s9) (\<lambda>s10.
               if new_id < 0 \<or> int (length (k_list s10)) \<le> new_id then Inl Undefined
               else res_bind (unlock_init i (s10\<lparr>k_list := (k_list s10)[nat new_id := new_task]\<rparr>)) (\<lambda>s11.
                 Inr (new_id, s11)))))))))"

section \<open>Wait and kill\<close>

text \<open>
  The search of \<open>kwait\<close> over the whole task list, empty entries included: the record at address 0
  is read like any other.
\<close>

fun find_child :: "kern \<Rightarrow> addr \<Rightarrow> addr list \<Rightarrow> bool" where
  "find_child s t [] = False"
| "find_child s t (x # xs) =
    (if ppid (k_tasks s x) = pid (k_tasks s t) \<and> \<not> killed (k_tasks s x) then True else find_child s t xs)"

text \<open>The first component says whether the call waits for a child; otherwise it has returned -1.\<close>

definition kwait :: "nat \<Rightarrow> addr \<Rightarrow> kern \<Rightarrow> (bool \<times> int \<times> kern) res" where
  "kwait i t s =
    (let s1 = upd_task t (retstate_update (\<lambda>_. 0)) s in
     if length (k_list s1) < 32768 then Inl Undefined
     else if find_child s1 t (take 32768 (k_list s1)) then
       res_bind (kmt_sem_init i (wait_sem (k_tasks s1 t)) ''wait_sem'' 0 s1) (\<lambda>(sm, s2).
       res_bind (kmt_sem_wait i sm (upd_task t (wait_sem_update (\<lambda>_. sm)) s2)) (\<lambda>(_, sm', s3).
         Inr (True, 0, upd_task t (wait_sem_update (\<lambda>_. sm')) s3)))
     else Inr (False, -1, s1))"

text \<open>What \<open>kwait\<close> does once a child has exited: the state of the child goes to \<open>*status\<close>.\<close>

definition store_int :: "addr \<Rightarrow> int \<Rightarrow> (addr \<Rightarrow> u8) \<Rightarrow> addr \<Rightarrow> u8" where
  "store_int p v m = (let w = (of_int v :: u32) in
     m(p := ucast w, p + 1 := ucast (drop_bit 8 w), p + 2 := ucast (drop_bit 16 w), p + 3 := ucast (drop_bit 24 w)))"

definition kwait_resume :: "addr \<Rightarrow> addr \<Rightarrow> kern \<Rightarrow> int \<times> kern" where
  "kwait_resume t status_ptr s =
    (0, s\<lparr>k_bytes := store_int status_ptr (retstate (k_tasks s t)) (k_bytes s)\<rparr>)"

definition kkill :: "int \<Rightarrow> kern \<Rightarrow> (int \<times> kern) res" where
  "kkill p s =
    (if p < 0 \<or> int (length (k_list s)) \<le> p then Inl Undefined
     else let t = k_list s ! nat p in
       if t = 0 then Inr (-1, s)
       else if killed (k_tasks s t) then Inr (-1, s)
       else Inr (0, upd_task t (killed_update (\<lambda>_. True)) s))"

section \<open>Exit\<close>

fun destroy_pages_loop :: "nat \<Rightarrow> addr \<Rightarrow> (addr \<times> m_page) list \<Rightarrow> kern \<Rightarrow> kern res" where
  "destroy_pages_loop i t [] s = Inr s"
| "destroy_pages_loop i t (p # ps) s =
    res_bind (dec_cow_cnt i t (mp_pa (snd p)) s) (\<lambda>s1.
    res_bind (get_cow_cnt i t (mp_pa (snd p)) s1) (\<lambda>(cnt, s2).
    res_bind (if cnt = 0 then pfree i (mp_pa (snd p)) s2 else Inr s2) (\<lambda>s3.
    res_bind (pfree i (fst p) s3) (\<lambda>s4. destroy_pages_loop i t ps s4))))"

definition destroy_mapped_pages :: "nat \<Rightarrow> addr \<Rightarrow> kern \<Rightarrow> kern res" where
  "destroy_mapped_pages i t s = destroy_pages_loop i t (mapped_pages (k_tasks s t)) s"

fun destroy_areas_loop :: "nat \<Rightarrow> (addr \<times> vme_area) list \<Rightarrow> kern \<Rightarrow> kern res" where
  "destroy_areas_loop i [] s = Inr s"
| "destroy_areas_loop i (v # vs) s = res_bind (pfree i (fst v) s) (\<lambda>s1. destroy_areas_loop i vs s1)"

definition destroy_vme_area :: "nat \<Rightarrow> addr \<Rightarrow> kern \<Rightarrow> kern res" where
  "destroy_vme_area i t s = destroy_areas_loop i (vm_areas (k_tasks s t)) s"

text \<open>The last call takes the lock of the areas a second time.\<close>

definition destroy_task :: "nat \<Rightarrow> addr \<Rightarrow> kern \<Rightarrow> kern res" where
  "destroy_task i t s =
    res_bind (lock_vme i t s) (\<lambda>s1.
    res_bind (destroy_mapped_pages i t s1) (\<lambda>s2.
    res_bind (destroy_vme_area i t s2) (\<lambda>s3.
    res_bind (unprotect i (t_as (k_tasks s3 t)) s3) (\<lambda>s4.
      lock_vme i t s4))))"

text \<open>The search for the father: the last entry read, whether it is the father or not.\<close>

fun find_father :: "kern \<Rightarrow> int \<Rightarrow> addr list \<Rightarrow> addr \<Rightarrow> addr \<times> bool" where
  "find_father s pp [] prev = (prev, False)"
| "find_father s pp (x # xs) prev = (if pid (k_tasks s x) = pp then (x, True) else find_father s pp xs x)"

definition kexit :: "nat \<Rightarrow> addr \<Rightarrow> int \<Rightarrow> kern \<Rightarrow> (int \<times> kern) res" where
  "kexit i t st s =
    (let s1 = upd_task (current_task (cpu_of s i)) (killed_update (\<lambda>_. True)) s in
     res_bind
       (if ppid (k_tasks s1 t) \<noteq> 0 then
          (if length (k_list s1) < 32768 then Inl Undefined
           else
             let (father, found) = find_father s1 (ppid (k_tasks s1 t)) (drop 1 (take 32768 (k_list s1))) 0;
                 s2 = (if found then upd_task father (retstate_update (\<lambda>_. st)) s1 else s1)
             in res_bind (kmt_sem_signal i (wait_sem (k_tasks s2 father)) s2) (\<lambda>(sm, s3).
                  Inr (upd_task father (wait_sem_update (\<lambda>_. sm)) s3)))
        else Inr s1) (\<lambda>s4.
     res_bind (store_pid i (pid (k_tasks s4 t)) s4) (\<lambda>s5.
     res_bind (destroy_task i t s5) (\<lambda>s6.
     res_bind (kmt_teardown i t s6) (\<lambda>s7.
     res_bind (pfree i t s7) (\<lambda>s8. Inr (st, s8)))))))"

section \<open>Page faults\<close>

text \<open>
  \<open>init_code\<close> is the address and the length of the array \<open>_init\<close>, which the build generates.
\<close>

definition page_fault :: "addr \<Rightarrow> nat \<Rightarrow> handler" where
  "page_fault init_addr init_len i ev c s =
    (let t = current_task (cpu_of s i); asp = t_as (k_tasks s t); pgsz = as_pgsize (k_as s asp) in
     res_bind (palloc i (uint pgsz) s) (\<lambda>(pa, s1).
     let va = ref ev AND NOT (pgsz - 1) in
     if \<not> (as_start (k_as s1 asp) \<le> va \<and> va < as_end (k_as s1 asp)) then Inr (0, s1)
     else
       res_bind (if va = as_start (k_as s1 asp)
                 then res_bind (memcpy (k_bytes s1) pa init_addr init_len) (\<lambda>m. Inr (s1\<lparr>k_bytes := m\<rparr>))
                 else Inr s1) (\<lambda>s2.
       res_bind (lock_vme i t s2) (\<lambda>s3.
       let the_page = find_mapped_page (k_tasks s3 t) va;
           vma = find_vme_node (k_tasks s3 t) va (va + pgsz)
       in (case the_page of
            None \<Rightarrow>
              (case vma of
                 None \<Rightarrow>
                   res_bind (unlock_vme i t s3) (\<lambda>s4.
                   res_bind (kmmap i t va (uint pgsz) (PROT_READ + PROT_WRITE) MAP_PRIVATE s4) (\<lambda>(_, s5).
                   res_bind (lock_mp i t s5) (\<lambda>s6.
                   res_bind (pgmap i t va pa (PROT_READ + PROT_WRITE) False s6) (\<lambda>s7.
                   res_bind (unlock_mp i t s7) (\<lambda>s8. Inr (0, s8))))))
               | Some v \<Rightarrow>
                   res_bind (lock_mp i t s3) (\<lambda>s4.
                   res_bind (pgmap i t va pa (uint (vm_prot v)) False s4) (\<lambda>s5.
                   res_bind (unlock_mp i t s5) (\<lambda>s6.
                   res_bind (unlock_vme i t s6) (\<lambda>s7. Inr (0, s7))))))
          | Some (node, pg) \<Rightarrow>
              res_bind (lock_mp i t s3) (\<lambda>s4.
              res_bind (memcpy (k_bytes s4) pa (mp_pa pg) (unat pgsz)) (\<lambda>m.
              let s5 = s4\<lparr>k_bytes := m\<rparr> in
              res_bind (pgunmap i t va s5) (\<lambda>s6.
              case vma of
                None \<Rightarrow> Inl Undefined
              | Some v \<Rightarrow>
                res_bind (pgmap i t va pa (uint (vm_prot v)) False s6) (\<lambda>s7.
                res_bind (unlock_mp i t s7) (\<lambda>s8.
                res_bind (dec_cow_cnt i t (mp_pa pg) s8) (\<lambda>s9.
                res_bind (get_cow_cnt i t (mp_pa pg) s9) (\<lambda>(cnt, s10).
                res_bind (if cnt = 0 then pfree i (mp_pa pg) s10 else Inr s10) (\<lambda>s11.
                res_bind (unlock_vme i t s11) (\<lambda>s12. Inr (0, s12)))))))))))))))"

section \<open>System calls\<close>

definition SYS_kputc :: u64 where "SYS_kputc = 1"
definition SYS_fork :: u64 where "SYS_fork = 2"
definition SYS_exit :: u64 where "SYS_exit = 3"
definition SYS_wait :: u64 where "SYS_wait = 4"
definition SYS_kill :: u64 where "SYS_kill = 7"
definition SYS_getpid :: u64 where "SYS_getpid = 12"
definition SYS_mmap :: u64 where "SYS_mmap = 13"
definition SYS_sleep :: u64 where "SYS_sleep = 14"
definition SYS_uptime :: u64 where "SYS_uptime = 15"

text \<open>A call is over with a value for the register, or waits for its child.\<close>

datatype sys_outcome = Return u64 | WaitChild addr

definition int_arg :: "u64 \<Rightarrow> int" where "int_arg w = sint (ucast w :: u32)"

text \<open>The switch of \<open>syscall\<close>; \<open>clock\<close> are the readings of the timer from now on.\<close>

definition syscall_body :: "(nat \<Rightarrow> u64) \<Rightarrow> nat \<Rightarrow> addr \<Rightarrow> regs \<Rightarrow> kern \<Rightarrow> (sys_outcome \<times> kern) res" where
  "syscall_body clock i t r s =
    (if rax r = SYS_kputc then (let (v, s1) = kputc (ucast (rdi r)) s in Inr (Return (of_int v), s1))
     else if rax r = SYS_exit then res_bind (kexit i t (int_arg (rdi r)) s) (\<lambda>(v, s1). Inr (Return (of_int v), s1))
     else if rax r = SYS_sleep then res_bind (ksleep clock (int_arg (rdi r))) (\<lambda>(v, n). Inr (Return (of_int v), s))
     else if rax r = SYS_uptime then Inr (Return (of_int (kuptime (clock 0))), s)
     else if rax r = SYS_fork then res_bind (kfork i t s) (\<lambda>(v, s1). Inr (Return (of_int v), s1))
     else if rax r = SYS_getpid then res_bind (kgetpid t s) (\<lambda>v. Inr (Return (of_int v), s))
     else if rax r = SYS_wait then res_bind (kwait i t s) (\<lambda>(w, v, s1).
       Inr (if w then WaitChild (rdi r) else Return (of_int v), s1))
     else if rax r = SYS_kill then res_bind (kkill (int_arg (rdi r)) s) (\<lambda>(v, s1). Inr (Return (of_int v), s1))
     else if rax r = SYS_mmap then
       res_bind (kmmap i t (rdi r) (int_arg (rsi r)) (int_arg (rdx r)) (int_arg (rcx r)) s) (\<lambda>(p, s1). Inr (Return p, s1))
     else Inl Assert)"

text \<open>What comes before and after the switch; \<open>c\<close> is the address of the saved context.\<close>

definition syscall_enter :: "nat \<Rightarrow> kern \<Rightarrow> kern res" where
  "syscall_enter i s =
    (let t = current_task (cpu_of s i);
         s1 = upd_task t (\<lambda>tk. tk\<lparr>nested_interrupt := nested_interrupt tk + 1\<rparr>) s in
     if ien (cpu_of s1 i) then Inl (Panic ''cli'')
     else Inr (set_cpu i ((cpu_of s1 i)\<lparr>ien := True\<rparr>) s1))"

definition syscall_leave :: "nat \<Rightarrow> addr \<Rightarrow> addr \<Rightarrow> u64 \<Rightarrow> kern \<Rightarrow> (addr \<times> kern) res" where
  "syscall_leave i t c v s =
    (let s1 = s\<lparr>k_ctx := (k_ctx s)(c := (k_ctx s c)\<lparr>rax := v\<rparr>)\<rparr> in
     if \<not> ien (cpu_of s1 i) then Inl (Panic ''cli'')
     else Inr (0, upd_task t (\<lambda>tk. tk\<lparr>nested_interrupt := nested_interrupt tk - 1\<rparr>)
                 (set_cpu i ((cpu_of s1 i)\<lparr>ien := False\<rparr>) s1)))"

text \<open>The task that waits comes back on the CPU \<open>j\<close>, in the state \<open>s2\<close> that \<open>resume\<close> gives.\<close>

definition syscall :: "(nat \<Rightarrow> u64) \<Rightarrow> (kern \<Rightarrow> nat \<times> kern) \<Rightarrow> handler" where
  "syscall clock resume i ev c s =
    (let t = current_task (cpu_of s i) in
     res_bind (syscall_enter i s) (\<lambda>s1.
     res_bind (syscall_body clock i t (k_ctx s1 c) s1) (\<lambda>(out, s2).
       case out of
         Return v \<Rightarrow> syscall_leave i t c v s2
       | WaitChild p \<Rightarrow>
           let (j, s3) = resume s2; (v, s4) = kwait_resume t p s3 in syscall_leave j t c (of_int v) s4)))"

section \<open>Initialisation\<close>

text \<open>
  \<open>uproc_init\<close>; \<open>irqs\<close> is the list of handlers so far, \<open>cr0\<close> the control register before
  paging. The table of counters is cleared byte by byte.
\<close>

definition uproc_init ::
  "handler \<Rightarrow> handler \<Rightarrow> addr \<Rightarrow> addr \<Rightarrow> nat \<Rightarrow> u64 \<Rightarrow> irq list \<Rightarrow> kern \<Rightarrow> (irq list \<times> kern) res" where
  "uproc_init sys pf heap_start heap_end i cr0 irqs s =
    res_bind (vme_init i cr0) (\<lambda>_.
    res_bind (os_on_irq i 0 EVENT_SYSCALL sys irqs s) (\<lambda>(irqs1, s1).
    res_bind (os_on_irq i 0 EVENT_PAGEFAULT pf irqs1 s1) (\<lambda>(irqs2, s2).
    res_bind (kmt_spin_init (k_pid_lock s2) ''pid_lock'') (\<lambda>lk1.
    res_bind (kmt_spin_init (k_cow_lock s2) ''cow_lock'') (\<lambda>lk2.
    let s3 = s2\<lparr>k_pid_lock := lk1, k_cow_lock := lk2\<rparr>;
        pmsize = unat (drop_bit 12 (heap_end - heap_start)) in
    res_bind (palloc i (sint (of_nat (pmsize * 4) :: u32)) s3) (\<lambda>(tab, s4).
    res_bind (memset (k_bytes s4) tab 0 (pmsize * 4)) (\<lambda>m.
    let s5 = s4\<lparr>k_bytes := m, k_cow := replicate pmsize 0, k_cnt := 1\<rparr> in
    res_bind (palloc i TASK_SIZE s5) (\<lambda>(t, s6).
    res_bind (uproc_create i t ''initi'' s6) (\<lambda>(_, s7).
    res_bind (new_pid i s7) (\<lambda>(p, s8).
    let s9 = upd_task t (\<lambda>tk. tk\<lparr>pid := p\<rparr>) s8 in
    if p < 0 \<or> int (length (k_list s9)) \<le> p then Inl Undefined
    else Inr (irqs2, s9\<lparr>k_list := (k_list s9)[nat p := t]\<rparr>)))))))))))"

end
