(* ===== verification/Vm_Props.thy ===== *)
theory Vm_Props
  imports Uproc Kmt_Sem
begin

text \<open>
  What holds of the memory of processes and of their calls (\<open>kernel/src/uproc.c\<close>): the areas
  \<open>kmmap\<close> gives, when \<open>ksleep\<close> comes back, and the two calls that lose a lock, \<open>exit\<close> and \<open>fork\<close>.
\<close>

section \<open>The list of areas\<close>

text \<open>
  Addresses as numbers: \<open>up a\<close> is the next multiple of the page size. Areas of a process are
  whole pages, one after the other, and stay below \<open>VM_TOP\<close>, far from the end of the machine's
  addresses; \<open>clear_of\<close> says that a range of addresses meets no area.
\<close>

definition VM_TOP :: nat where "VM_TOP = 2 ^ 62"

definition page_up :: "nat \<Rightarrow> nat" where "page_up n = (n + 4095) div 4096 * 4096"

definition areas_ok :: "vme_area list \<Rightarrow> bool" where
  "areas_ok vs \<longleftrightarrow> sorted_wrt (\<lambda>u v. vm_end u \<le> vm_start v) vs \<and>
     (\<forall>v\<in>set vs. vm_start v < vm_end v \<and> unat (vm_end v) \<le> VM_TOP \<and>
        4096 dvd unat (vm_start v) \<and> 4096 dvd unat (vm_end v))"

definition clear_of :: "vme_area list \<Rightarrow> nat \<Rightarrow> nat \<Rightarrow> bool" where
  "clear_of vs a e \<longleftrightarrow> (\<forall>v\<in>set vs. e \<le> unat (vm_start v) \<or> unat (vm_end v) \<le> a)"

lemma page_up_le: "n \<le> page_up n" and page_up_less: "page_up n < n + 4096" and page_up_dvd: "4096 dvd page_up n"
  using div_mult_mod_eq [of "n + 4095" 4096] mod_less_divisor [of 4096 "n + 4095"]
  by (simp_all only: page_up_def dvd_triv_right)

lemma page_up_mono: "m \<le> n \<Longrightarrow> page_up m \<le> page_up n"
  unfolding page_up_def by (intro mult_right_mono div_le_mono) simp_all

lemma unat_roundup:
  assumes "unat a + 4096 < 2 ^ 64"
  shows "unat (roundup a 4096) = page_up (unat a)"
proof -
  have m: "(4095 :: addr) = mask 12" by (simp add: mask_eq_exp_minus_1)
  have "unat (a + 4095) = unat a + 4095" using assms by (subst unat_add_nowrap) simp_all
  then have "unat (4095 + a) = unat a + 4095" by (simp only: add.commute)
  then have "unat (roundup a 4096) = unat a + 4095 - (unat a + 4095) mod 4096"
    by (simp add: roundup_def m unat_and_not_mask add.commute [of a])
  then show ?thesis unfolding page_up_def by (simp add: minus_mod_eq_div_mult)
qed

lemma unat_roundup_add:
  assumes "unat a \<le> VM_TOP" and "unat l < 2 ^ 31"
  shows "unat (a + l) = unat a + unat l" and "unat (roundup (a + l) 4096) = page_up (unat a + unat l)"
proof -
  show add: "unat (a + l) = unat a + unat l"
    using assms by (intro unat_add_nowrap) (simp add: VM_TOP_def)
  show "unat (roundup (a + l) 4096) = page_up (unat a + unat l)"
    using assms by (subst unat_roundup) (simp_all add: add VM_TOP_def)
qed

text \<open>The search finds the least suitable address that is not below the one asked for.\<close>

lemma suitable_loop_first_fit:
  assumes "areas_ok vs" and "unat a \<le> VM_TOP" and "unat l < 2 ^ 31" and "suitable_loop vs a (roundup (a + l) 4096) l 4096 = (b, e)"
  shows "e = roundup (b + l) 4096 \<and> a \<le> b \<and> unat b \<le> VM_TOP \<and> (b = a \<or> (\<exists>v\<in>set vs. b = vm_end v)) \<and>
     clear_of vs (unat b) (page_up (unat b + unat l)) \<and>
     (\<forall>q. unat a \<le> q \<and> clear_of vs q (page_up (q + unat l)) \<longrightarrow> unat b \<le> q)"
  using assms
proof (induction vs arbitrary: a)
  case Nil
  then show ?case by (auto simp: clear_of_def)
next
  case (Cons v vs)
  have ok: "areas_ok vs" and v: "vm_start v < vm_end v" "unat (vm_end v) \<le> VM_TOP"
    and after: "\<forall>u\<in>set vs. vm_end v \<le> vm_start u \<and> vm_start u < vm_end u"
    using Cons.prems(1) by (auto simp: areas_ok_def)
  let ?e = "roundup (a + l) 4096"
  have e: "unat ?e = page_up (unat a + unat l)" by (rule unat_roundup_add(2) [OF Cons.prems(2,3)])
  consider (gap) "?e \<le> vm_start v" | (past) "\<not> ?e \<le> vm_start v" "vm_end v \<le> a" | (hit) "\<not> ?e \<le> vm_start v" "\<not> vm_end v \<le> a"
    by blast
  then show ?case
  proof cases
    case gap
    then have "clear_of (v # vs) (unat a) (page_up (unat a + unat l))"
      using after v(1) unfolding clear_of_def e [symmetric] by (force simp: word_le_nat_alt word_less_nat_alt)
    then show ?thesis using gap Cons.prems by auto
  next
    case past
    then show ?thesis using Cons.IH [OF ok Cons.prems(2,3)] Cons.prems(4)
      by (auto simp: clear_of_def word_le_nat_alt)
  next
    case hit
    have IH: "e = roundup (b + l) 4096 \<and> vm_end v \<le> b \<and> unat b \<le> VM_TOP \<and> (b = vm_end v \<or> (\<exists>v\<in>set vs. b = vm_end v)) \<and>
       clear_of vs (unat b) (page_up (unat b + unat l)) \<and>
       (\<forall>q. unat (vm_end v) \<le> q \<and> clear_of vs q (page_up (q + unat l)) \<longrightarrow> unat b \<le> q)"
      using Cons.IH [OF ok v(2) Cons.prems(3)] Cons.prems(4) hit by simp
    have "unat b \<le> q" if q: "unat a \<le> q" "clear_of (v # vs) q (page_up (q + unat l))" for q
    proof -
      have "page_up (unat a + unat l) \<le> page_up (q + unat l)" using q(1) by (intro page_up_mono) simp
      then have "unat (vm_end v) \<le> q" using q(2) hit(1) e by (auto simp: clear_of_def word_le_nat_alt)
      then show ?thesis using IH q(2) by (simp add: clear_of_def)
    qed
    moreover have "a \<le> b" using IH hit(2) by (auto intro: order_trans less_imp_le)
    moreover have "clear_of (v # vs) (unat b) (page_up (unat b + unat l))" using IH by (auto simp: clear_of_def word_le_nat_alt)
    ultimately show ?thesis using IH by auto
  qed
qed

text \<open>An area that is clear of the others finds its place, and the list stays in order.\<close>

lemma insert_area_places:
  assumes "areas_ok (map snd l)" and "clear_of (map snd l) (unat (vm_start (snd n))) (unat (vm_end (snd n)))"
    and "areas_ok [snd n]"
  shows "\<exists>l'. insert_area n l = Some l' \<and> mset l' = add_mset n (mset l) \<and> areas_ok (map snd l')"
  using assms
proof (induction l)
  case (Cons v l)
  have ok: "areas_ok (map snd l)" and c: "clear_of (map snd l) (unat (vm_start (snd n))) (unat (vm_end (snd n)))"
    using Cons.prems by (auto simp: areas_ok_def clear_of_def)
  obtain l' where l': "insert_area n l = Some l'" "mset l' = add_mset n (mset l)" "areas_ok (map snd l')"
    using Cons.IH [OF ok c Cons.prems(3)] by blast
  have set: "set l' = insert n (set l)" using l'(2) by (metis set_mset_add_mset_insert set_mset_mset)
  show ?case
  proof (cases "vm_end (snd n) \<le> vm_start (snd v)")
    case True
    then have "\<forall>u\<in>set l. vm_end (snd n) \<le> vm_start (snd u)"
      using Cons.prems(1) by (force simp: areas_ok_def)
    then have "areas_ok (map snd (n # v # l))" using True Cons.prems(1,3) by (auto simp: areas_ok_def)
    then show ?thesis using True by simp
  next
    case False
    then have "vm_end (snd v) \<le> vm_start (snd n)" using Cons.prems(2) by (auto simp: clear_of_def word_le_nat_alt)
    moreover have "areas_ok (map snd (v # l'))"
      using l'(3) Cons.prems(1) \<open>vm_end (snd v) \<le> vm_start (snd n)\<close> set by (auto simp: areas_ok_def)
    ultimately show ?thesis using False l' by simp
  qed
qed simp

section \<open>The locks of a task\<close>

lemma lock_vme_free:
  assumes "lock_free (vme_lock (k_tasks s t))"
  shows "lock_vme i t s = Inr (upd_task t (\<lambda>tk. tk\<lparr>vme_lock := (vme_lock tk)\<lparr>lock_word := 1, lock_cpu := int i\<rparr>\<rparr>)
     (set_cpu i (push_off (cpu_of s i)) s))"
  using kmt_spin_lock_free [OF assms, of i "cpu_of s i"] by (simp add: lock_vme_def acquire_def upd_task_def)

lemma lock_vme_taken: "\<not> lock_free (vme_lock (k_tasks s t)) \<Longrightarrow> lock_vme i t s = Inl Hang"
  by (simp add: lock_vme_def acquire_def kmt_spin_lock_taken)

lemma lock_mp_taken: "\<not> lock_free (mp_lock (k_tasks s t)) \<Longrightarrow> lock_mp i t s = Inl Hang"
  by (simp add: lock_mp_def acquire_def kmt_spin_lock_taken)

lemma unlock_vme_held:
  assumes "i < length (k_cpus s)" and "cpu_ok c" and "same_cpu (push_off c) (cpu_of s i)"
    and "lock_word (vme_lock (k_tasks s t)) \<noteq> 0" and "lock_cpu (vme_lock (k_tasks s t)) = int i"
  shows "\<exists>d. unlock_vme i t s = Inr (upd_task t (\<lambda>tk. tk\<lparr>vme_lock := (vme_lock tk)\<lparr>lock_word := 0, lock_cpu := -1\<rparr>\<rparr>) (set_cpu i d s)) \<and>
     same_cpu c d"
proof -
  obtain d where "kmt_spin_unlock i (cpu_of s i) (vme_lock (k_tasks s t)) =
      Inr (d, (vme_lock (k_tasks s t))\<lparr>lock_word := 0, lock_cpu := -1\<rparr>)" "same_cpu c d"
    using kmt_spin_unlock_held [OF assms(2-5)] by blast
  then show ?thesis by (auto simp: unlock_vme_def release_def upd_task_def)
qed

section \<open>Areas of a process\<close>

definition areas_of :: "kern \<Rightarrow> addr \<Rightarrow> vme_area list" where
  "areas_of s t = map snd (vm_areas (k_tasks s t))"

definition vm_ok :: "kern \<Rightarrow> addr \<Rightarrow> bool" where
  "vm_ok s t \<longleftrightarrow> areas_ok (areas_of s t) \<and> as_pgsize (k_as s (t_as (k_tasks s t))) = 4096 \<and>
     unat (as_end (k_as s (t_as (k_tasks s t)))) \<le> VM_TOP \<and> lock_free (vme_lock (k_tasks s t))"

text \<open>A place for \<open>len\<close> bytes, not below the address asked for.\<close>

definition place :: "kern \<Rightarrow> addr \<Rightarrow> addr \<Rightarrow> nat \<Rightarrow> nat \<Rightarrow> bool" where
  "place s t a len q \<longleftrightarrow> page_up (unat a) \<le> q \<and> clear_of (areas_of s t) q (page_up (q + len))"

lemma suitable_addr_cases:
  assumes ok: "vm_ok s t" and a: "unat a + nat len + 8192 \<le> VM_TOP" and len: "0 < len" "len < 2 ^ 31"
  defines "r \<equiv> get_suitable_addr (k_tasks s t) (k_as s (t_as (k_tasks s t))) (roundup a 4096) len"
  shows "r = Inl Assert \<and> areas_of s t \<noteq> [] \<and>
       (\<forall>q. place s t a (nat len) q \<longrightarrow> unat (as_end (k_as s (t_as (k_tasks s t)))) < page_up (q + nat len)) \<or>
     (\<exists>b. r = Inr b \<and> place s t a (nat len) (unat b) \<and> (\<forall>q. place s t a (nat len) q \<longrightarrow> unat b \<le> q) \<and>
        areas_ok [\<lparr>vm_start = b, vm_end = roundup (b + of_int len) 4096, vm_as = x, vm_prot = y, vm_flags = z\<rparr>] \<and>
        unat (roundup (b + of_int len) 4096) = page_up (unat b + nat len))"
proof -
  let ?as = "k_as s (t_as (k_tasks s t))" and ?vs = "areas_of s t" and ?l = "of_int len :: addr"
  have vs: "areas_ok ?vs" and pg: "as_pgsize ?as = 4096" and top: "unat (as_end ?as) \<le> VM_TOP"
    using ok by (simp_all add: vm_ok_def)
  have l: "unat ?l = nat len" "unat ?l < 2 ^ 31" "0 < nat len"
    using len unat_of_nat_small [of "nat len", where 'a = 64] by simp_all
  let ?a = "roundup a 4096"
  have ra: "unat ?a = page_up (unat a)" using a by (intro unat_roundup) (simp add: VM_TOP_def)
  have atop: "unat ?a + nat len + 4096 \<le> VM_TOP" using page_up_less [of "unat a"] ra a by simp
  have new: "areas_ok [\<lparr>vm_start = b, vm_end = roundup (b + ?l) 4096, vm_as = x, vm_prot = y, vm_flags = z\<rparr>] \<and>
      unat (roundup (b + ?l) 4096) = page_up (unat b + nat len)"
    if "unat b \<le> VM_TOP" "4096 dvd unat b" "unat (roundup (b + ?l) 4096) \<le> VM_TOP" for b x y z
    using that unat_roundup_add(2) [OF that(1) l(2)] page_up_le [of "unat b + nat len"] page_up_dvd l(1,3)
    by (simp add: areas_ok_def word_less_nat_alt)
  show ?thesis
  proof (cases "vm_areas (k_tasks s t) = []")
    case True
    then have "r = Inr ?a" and "?vs = []" by (simp_all add: r_def get_suitable_addr_def Let_def pg areas_of_def)
    moreover have "unat (roundup (?a + ?l) 4096) \<le> VM_TOP"
      using unat_roundup_add(2) [of ?a ?l] page_up_less [of "unat ?a + nat len"] atop l by simp
    ultimately show ?thesis using new [of ?a] atop ra page_up_dvd [of "unat a"]
      by (simp add: place_def clear_of_def)
  next
    case False
    obtain b e where be: "suitable_loop ?vs ?a (roundup (?a + ?l) 4096) ?l 4096 = (b, e)" by fastforce
    have b: "e = roundup (b + ?l) 4096" "?a \<le> b" "unat b \<le> VM_TOP" "b = ?a \<or> (\<exists>v\<in>set ?vs. b = vm_end v)"
      "clear_of ?vs (unat b) (page_up (unat b + unat ?l))"
      "\<And>q. unat ?a \<le> q \<Longrightarrow> clear_of ?vs q (page_up (q + unat ?l)) \<Longrightarrow> unat b \<le> q"
      using suitable_loop_first_fit [OF vs _ l(2) be] atop by simp_all
    have e: "unat e = page_up (unat b + nat len)" using unat_roundup_add(2) [OF b(3) l(2)] b(1) l(1) by simp
    have r: "r = (if e \<le> as_end ?as then Inr b else Inl Assert)"
      using False be by (simp add: r_def get_suitable_addr_def Let_def pg areas_of_def)
    have place: "place s t a (nat len) (unat b)" using b(2,5) ra l(1) by (simp add: place_def word_le_nat_alt)
    have least: "unat b \<le> q" if "place s t a (nat len) q" for q using that b(6) ra l(1) by (simp add: place_def)
    show ?thesis
    proof (cases "e \<le> as_end ?as")
      case True
      have "4096 dvd unat b" using b(4) vs ra page_up_dvd [of "unat a"] by (auto simp: areas_ok_def)
      then show ?thesis using True r new [OF b(3)] place least top b(1) e by (auto simp: word_le_nat_alt)
    next
      case False
      have "unat (as_end ?as) < page_up (q + nat len)" if "place s t a (nat len) q" for q
        using False e page_up_mono [of "unat b + nat len" "q + nat len"] least [OF that] by (simp add: word_le_nat_alt)
      then show ?thesis using False r \<open>vm_areas (k_tasks s t) \<noteq> []\<close> by (auto simp: areas_of_def)
    qed
  qed
qed

text \<open>
  C9: what \<open>kmmap\<close> gives: of all the ranges of pages that are not below the address asked for
  and meet no area of the process, it takes the first, enters it as a new area with the length,
  protection and flags asked for, keeps the areas in order and disjoint, and gives the locks back.
  It fails in two ways only: with no memory for the node it writes through a null pointer, and if
  areas exist and no such range ends within the user's addresses, an assertion fails. The panic
  \<open>mmap failed\<close> never happens.
\<close>

theorem kmmap_first_fit:
  assumes cpu: "i < 8" "i < length (k_cpus s)" "cpu_ok (cpu_of s i)" and pmm: "pmm_holds (k_pmm s) X"
    and t: "t \<noteq> 0" "t_as (k_tasks s t) \<noteq> 0" and ok: "vm_ok s t" and flags: "flags \<noteq> MAP_UNMAP"
    and a: "unat a + nat len + 8192 \<le> VM_TOP" and len: "0 < len" "len < 2 ^ 31"
  shows "kmmap i t a len prot flags s = Inl Undefined \<and> (\<exists>s'. palloc i VME_AREA_SIZE s = Inr (0, s')) \<or>
     kmmap i t a len prot flags s = Inl Assert \<and> areas_of s t \<noteq> [] \<and>
       (\<forall>q. place s t a (nat len) q \<longrightarrow> unat (as_end (k_as s (t_as (k_tasks s t)))) < page_up (q + nat len)) \<or>
     (\<exists>b node v s'. kmmap i t a len prot flags s = Inr (b, s') \<and>
        place s t a (nat len) (unat b) \<and> (\<forall>q. place s t a (nat len) q \<longrightarrow> unat b \<le> q) \<and>
        vm_start v = b \<and> unat (vm_end v) = page_up (unat b + nat len) \<and>
        vm_prot v = of_int prot \<and> vm_flags v = of_int flags \<and>
        mset (vm_areas (k_tasks s' t)) = add_mset (node, v) (mset (vm_areas (k_tasks s t))) \<and> vm_ok s' t \<and>
        same_cpu (cpu_of s i) (cpu_of s' i) \<and> (\<forall>u. u \<noteq> t \<longrightarrow> k_tasks s' u = k_tasks s u))"
proof -
  let ?asp = "t_as (k_tasks s t)" and ?c = "cpu_of s i"
  obtain p m where p: "palloc i VME_AREA_SIZE s = Inr (p, s\<lparr>k_pmm := m\<rparr>)"
    using palloc_cases [OF pmm cpu(1)] set_cpu_same [OF cpu(2)] by metis
  let ?s1 = "s\<lparr>k_pmm := m\<rparr>"
  have pg: "as_pgsize (k_as s ?asp) = 4096" using ok by (simp add: vm_ok_def)
  define r where "r = get_suitable_addr (k_tasks s t) (k_as s ?asp) (roundup a 4096) len"
  have get: "get_suitable_addr (k_tasks s t) (k_as s ?asp) (roundup a 4096) len = r" by (simp add: r_def)
  have node: "new_vme_node i t a len prot flags s = res_bind r (\<lambda>b. if p = 0 then Inl Undefined
      else Inr ((p, \<lparr>vm_start = b, vm_end = roundup (b + of_int len) 4096, vm_as = ?asp, vm_prot = of_int prot,
        vm_flags = of_int flags\<rparr>), ?s1))"
    by (cases r) (simp_all add: new_vme_node_def p pg get Let_def)
  have kmmap: "kmmap i t a len prot flags s = res_bind (new_vme_node i t a len prot flags s) (\<lambda>(node, s1).
       res_bind (lock_vme i t s1) (\<lambda>s2.
       let (success, s3) = insert_vme_node t node s2 in
       if \<not> success then Inl (Panic ''mmap failed'')
       else res_bind (unlock_vme i t s3) (\<lambda>s4. Inr (vm_start (snd node), s4))))"
    using t len(1) flags by (simp add: kmmap_def)
  consider (full) "r = Inl Assert" | (null) b where "r = Inr b" "p = 0" | (gap) b where "r = Inr b" "p \<noteq> 0"
    using suitable_addr_cases [OF ok a len] unfolding r_def by blast
  then show ?thesis
  proof cases
    case full
    then show ?thesis using suitable_addr_cases [OF ok a len] by (simp add: kmmap node) (auto simp: r_def)
  next
    case null
    then show ?thesis using p by (simp add: kmmap node)
  next
    case gap
    let ?v = "\<lparr>vm_start = b, vm_end = roundup (b + of_int len) 4096, vm_as = ?asp, vm_prot = (of_int prot :: u8),
        vm_flags = (of_int flags :: u8)\<rparr>"
    have b: "place s t a (nat len) (unat b)" "\<And>q. place s t a (nat len) q \<Longrightarrow> unat b \<le> q" "areas_ok [?v]"
      "unat (vm_end ?v) = page_up (unat b + nat len)"
      using suitable_addr_cases [OF ok a len, of ?asp "of_int prot" "of_int flags"] gap(1) unfolding r_def by auto
    let ?s2 = "upd_task t (\<lambda>tk. tk\<lparr>vme_lock := (vme_lock tk)\<lparr>lock_word := 1, lock_cpu := int i\<rparr>\<rparr>) (set_cpu i (push_off ?c) ?s1)"
    have free: "lock_free (vme_lock (k_tasks ?s1 t))" using ok by (simp add: vm_ok_def)
    have lock: "lock_vme i t ?s1 = Inr ?s2" using lock_vme_free [OF free] by (simp add: cpu_of_def)
    have "areas_ok (map snd (vm_areas (k_tasks s t)))" using ok by (simp add: vm_ok_def areas_of_def)
    then obtain l where l: "insert_area (p, ?v) (vm_areas (k_tasks s t)) = Some l"
      "mset l = add_mset (p, ?v) (mset (vm_areas (k_tasks s t)))" "areas_ok (map snd l)"
      using insert_area_places [of _ "(p, ?v)"] b(1,3,4) unfolding place_def areas_of_def by (metis snd_conv vme_area.select_convs(1))
    let ?s3 = "upd_task t (vm_areas_update (\<lambda>_. l)) ?s2"
    have ins: "insert_vme_node t (p, ?v) ?s2 = (True, ?s3)" using l(1) by (simp add: insert_vme_node_def)
    obtain d where d: "unlock_vme i t ?s3 =
        Inr (upd_task t (\<lambda>tk. tk\<lparr>vme_lock := (vme_lock tk)\<lparr>lock_word := 0, lock_cpu := -1\<rparr>\<rparr>) (set_cpu i d ?s3))" "same_cpu ?c d"
      using unlock_vme_held [of i ?s3 ?c t] cpu(2,3) by auto
    let ?s4 = "upd_task t (\<lambda>tk. tk\<lparr>vme_lock := (vme_lock tk)\<lparr>lock_word := 0, lock_cpu := -1\<rparr>\<rparr>) (set_cpu i d ?s3)"
    have res: "kmmap i t a len prot flags s = Inr (b, ?s4)"
      using gap by (simp add: kmmap node lock ins d(1))
    have "vm_areas (k_tasks ?s4 t) = l" by simp
    moreover have "vm_ok ?s4 t"
      using ok l(3) by (simp add: vm_ok_def areas_of_def lock_free_def) (simp add: set_cpu_def upd_task_def)
    moreover have "same_cpu ?c (cpu_of ?s4 i)" using cpu(2) d(2) by simp
    moreover have "\<forall>u. u \<noteq> t \<longrightarrow> k_tasks ?s4 u = k_tasks s u" by simp
    ultimately show ?thesis using res b(1,2,4) l(2)
      by (intro disjI2 exI [of _ b] exI [of _ p] exI [of _ ?v] exI [of _ ?s4]) simp
  qed
qed

text \<open>A CPU without locks, a task at 0x6000 with no areas, and one with a page in the way.\<close>

definition vm_kern :: "slab_sys \<Rightarrow> (addr \<times> vme_area) list \<Rightarrow> kern" where
  "vm_kern m l = one_running\<lparr>k_tasks := (k_tasks one_running)(0x6000 := (ready_task 3 1)\<lparr>t_as := 0x7000, vm_areas := l,
       vme_lock := \<lparr>lock_word = 0, lock_name = ''v'', lock_cpu = -1\<rparr>\<rparr>),
     k_pmm := m, k_as := (\<lambda>_. \<lparr>as_pgsize = 4096, as_start = uvm_start, as_end = uvm_end, as_ptr = 0\<rparr>)\<rparr>"

theorem kmmap_first_fit_witness:
  "\<exists>m r. kmmap 0 0x6000 0x100000000000 5000 PROT_READ MAP_PRIVATE (vm_kern m
      [(0x9000, \<lparr>vm_start = 0x100000001000, vm_end = 0x100000002000, vm_as = 0x7000, vm_prot = 2, vm_flags = 2\<rparr>)]) = r \<and>
     (case r of Inl e \<Rightarrow> e = Undefined | Inr (b, s') \<Rightarrow> b = 0x100000002000)"
proof -
  obtain m X where m: "pmm_holds m X" using pmm_example by blast
  let ?v = "\<lparr>vm_start = 0x100000001000, vm_end = 0x100000002000, vm_as = 0x7000, vm_prot = 2, vm_flags = 2\<rparr> :: vme_area"
  let ?s = "vm_kern m [(0x9000, ?v)]"
  have vs: "areas_of ?s 0x6000 = [?v]" by (simp add: areas_of_def vm_kern_def)
  have ok: "vm_ok ?s 0x6000"
    unfolding vm_ok_def vs by (simp add: vm_kern_def areas_ok_def VM_TOP_def lock_free_def uvm_end_def)
  have pl: "place ?s 0x6000 0x100000000000 5000 q \<longleftrightarrow> 0x100000002000 \<le> q" for q
  proof -
    have "page_up 0x100000000000 = 0x100000000000" by (simp add: page_up_def)
    then show ?thesis using page_up_le [of "q + 5000"] unfolding place_def vs by (auto simp: clear_of_def)
  qed
  have c: "cpu_of ?s 0 = cpu_of one_running 0" "length (k_cpus ?s) = 1"
    by (simp_all add: vm_kern_def cpu_of_def one_running_def)
  have cpu: "cpu_ok (cpu_of ?s 0)" using one_running_ready(1) c(1) by (simp add: cpu_ready_def)
  have t: "t_as (k_tasks ?s 0x6000) \<noteq> 0" and pm: "pmm_holds (k_pmm ?s) X" using m by (simp_all add: vm_kern_def)
  have u: "unat (as_end (k_as ?s (t_as (k_tasks ?s 0x6000)))) = 0x108000000000" by (simp add: vm_kern_def uvm_end_def)
  have e: "page_up (0x100000002000 + 5000) = 0x100000004000" by (simp add: page_up_def)
  note k = kmmap_first_fit [where i = 0 and s = ?s and t = "0x6000" and flags = MAP_PRIVATE and a = "0x100000000000" and len = 5000
      and prot = PROT_READ, OF _ _ cpu pm _ t ok]
  show ?thesis
  proof (rule exI [of _ m], rule exI [of _ "kmmap 0 0x6000 0x100000000000 5000 PROT_READ MAP_PRIVATE ?s"], rule conjI [OF refl])
    have "kmmap 0 0x6000 0x100000000000 5000 PROT_READ MAP_PRIVATE ?s = Inl Undefined \<or>
      (\<exists>b s'. kmmap 0 0x6000 0x100000000000 5000 PROT_READ MAP_PRIVATE ?s = Inr (b, s') \<and> 0x100000002000 \<le> unat b \<and> unat b \<le> 0x100000002000)"
      using k c(2) u e by (auto simp: MAP_PRIVATE_def MAP_UNMAP_def VM_TOP_def pl)
    moreover have "b = 0x100000002000" if "0x100000002000 \<le> unat b" "unat b \<le> 0x100000002000" for b :: addr
      using that by (simp add: word_unat_eq_iff)
    ultimately show "case kmmap 0 0x6000 0x100000000000 5000 PROT_READ MAP_PRIVATE ?s of Inl e \<Rightarrow> e = Undefined
        | Inr (b, s') \<Rightarrow> b = 0x100000002000" by auto
  qed
qed

section \<open>Sleeping\<close>

lemma sleep_loop_finds:
  assumes "w \<le> clock (n + k)" and "\<forall>j < k. clock (n + j) < w"
  shows "sleep_loop clock w n = Some (n + k)"
  using assms
proof (induction k arbitrary: n)
  case 0
  then show ?case by (subst sleep_loop.simps) (auto simp: not_less)
next
  case (Suc k)
  have "clock n < w" using Suc.prems(2) by force
  moreover have "w \<le> clock (Suc n + k)" "\<forall>j < k. clock (Suc n + j) < w" using Suc.prems by auto
  ultimately show ?case using Suc.IH [of "Suc n"] by (subst sleep_loop.simps) simp
qed

lemma sleep_loop_result: "sleep_loop clock w n = Some m \<Longrightarrow> n \<le> m \<and> w \<le> clock m \<and> (\<forall>j. n \<le> j \<and> j < m \<longrightarrow> clock j < w)"
proof (rule sleep_loop.raw_induct [where P = "\<lambda>clock w n m. n \<le> m \<and> w \<le> clock m \<and> (\<forall>j. n \<le> j \<and> j < m \<longrightarrow> clock j < w)", rotated], assumption)
  fix rec and clock :: "nat \<Rightarrow> u64" and w n m
  assume 1: "\<And>(clock :: nat \<Rightarrow> u64) w n m. rec clock w n = Some m \<Longrightarrow> n \<le> m \<and> w \<le> clock m \<and> (\<forall>j. n \<le> j \<and> j < m \<longrightarrow> clock j < w)"
    "(if clock n < w then rec clock w (Suc n) else Some n) = Some m"
  show "n \<le> m \<and> w \<le> clock m \<and> (\<forall>j. n \<le> j \<and> j < m \<longrightarrow> clock j < w)"
  proof (cases "clock n < w")
    case True
    then have r: "Suc n \<le> m" "w \<le> clock m" "\<And>j. Suc n \<le> j \<Longrightarrow> j < m \<Longrightarrow> clock j < w"
      using 1(1) [of clock w "Suc n" m] 1(2) by auto
    have "clock j < w" if "n \<le> j" "j < m" for j
      using True r(3) [of j] that by (cases "j = n") auto
    then show ?thesis using r by simp
  next
    case False
    then have "n = m" "w \<le> clock n" using 1(2) by simp_all
    then show ?thesis by auto
  qed
qed

text \<open>
  C40: \<open>ksleep\<close> comes back, with the value 0, exactly when the timer reaches the time asked for, at
  the first reading at or after it and not before; if it never does, the call never returns. The
  number of microseconds is an \<open>int\<close>: from 2148 seconds on the product overflows.
\<close>

theorem ksleep_wakes:
  "ksleep clock second =
    (if second * 1000000 < - (2 ^ 31) \<or> 2 ^ 31 \<le> second * 1000000 then Inl Undefined
     else let w = clock 0 + of_int (second * 1000000) in
       if \<exists>n \<ge> 1. w \<le> clock n then Inr (0, LEAST n. 1 \<le> n \<and> w \<le> clock n) else Inl Hang)"
proof (cases "second * 1000000 < - (2 ^ 31) \<or> 2 ^ 31 \<le> second * 1000000")
  case False
  let ?w = "clock 0 + of_int (second * 1000000)"
  have k: "ksleep clock second = (case sleep_loop clock ?w 1 of None \<Rightarrow> Inl Hang | Some n \<Rightarrow> Inr (0, n))"
    using False by (simp add: ksleep_def wake_time_def Let_def)
  show ?thesis
  proof (cases "\<exists>n \<ge> 1. ?w \<le> clock n")
    case True
    define n where "n = (LEAST n. 1 \<le> n \<and> ?w \<le> clock n)"
    have n: "1 \<le> n" "?w \<le> clock n" using LeastI_ex [OF True] unfolding n_def by auto
    have "clock (1 + j) < ?w" if "j < n - 1" for j
    proof (rule ccontr)
      assume "\<not> clock (1 + j) < ?w"
      then have "n \<le> 1 + j" unfolding n_def by (intro Least_le) (simp add: not_less)
      then show False using that by simp
    qed
    then have "sleep_loop clock ?w 1 = Some n" using sleep_loop_finds [of ?w clock 1 "n - 1"] n by simp
    then show ?thesis using False True k by (simp add: Let_def n_def)
  next
    case none: False
    have "sleep_loop clock ?w 1 = None"
      using sleep_loop_result [of clock ?w 1] none by (cases "sleep_loop clock ?w 1") auto
    then show ?thesis using False none k by (simp add: Let_def)
  qed
qed (simp add: ksleep_def wake_time_def)

section \<open>Exit\<close>

text \<open>The lock of the areas of a task is not touched by what lies between the two acquisitions.\<close>

lemma keeps_pfree: "pfree i p s = Inr s' \<Longrightarrow> k_tasks s' = k_tasks s"
  by (auto simp: pfree_def set_cpu_def res_bind_def split: sum.splits)

lemma keeps_cow_update: "cow_update i t pa f s = Inr (v, s') \<Longrightarrow> k_tasks s' = k_tasks s"
  by (auto simp: cow_update_def lock_cow_def unlock_cow_def acquire_def release_def Let_def set_cpu_def res_bind_def
      split: sum.splits if_splits)

lemma keeps_pages_loop: "destroy_pages_loop i t l s = Inr s' \<Longrightarrow> k_tasks s' = k_tasks s"
proof (induction l arbitrary: s)
  case (Cons p l)
  then show ?case
    by (auto simp: res_bind_def dec_cow_cnt_def get_cow_cnt_def split: sum.splits if_splits
        dest!: keeps_cow_update keeps_pfree)
qed simp

lemma keeps_areas_loop: "destroy_areas_loop i l s = Inr s' \<Longrightarrow> k_tasks s' = k_tasks s"
proof (induction l arbitrary: s)
  case (Cons p l)
  then show ?case by (auto simp: res_bind_def split: sum.splits dest!: keeps_pfree)
qed simp

lemma keeps_teardown:
  "teardown_table i infos pt s = Inr s' \<Longrightarrow> k_tasks s' = k_tasks s"
  "teardown_entries i infos pt js s = Inr s' \<Longrightarrow> k_tasks s' = k_tasks s"
proof (induction i infos pt s and i infos pt js s arbitrary: s' and s' rule: teardown_table_teardown_entries.induct)
  case (2 i info infos pt s)
  from 2(2) show ?case by (auto simp: res_bind_eq_Inr dest!: keeps_pfree 2(1))
next
  case (4 i infos pt j js s)
  obtain s1 where s1: "(if k_words s (entry_addr pt j) AND PTE_P \<noteq> 0 \<and> k_words s (entry_addr pt j) AND PTE_U \<noteq> 0
      then teardown_table i infos (baseof (k_words s (entry_addr pt j))) s else Inr s) = Inr s1"
    "teardown_entries i infos pt js s1 = Inr s'"
    using 4(3) by (auto simp: res_bind_eq_Inr Let_def)
  have "k_tasks s1 = k_tasks s" using s1(1) 4(1) [OF refl] by (auto split: if_splits)
  then show ?case using 4(2) [OF refl s1] by simp
qed simp_all

lemma keeps_unprotect: "unprotect i asp s = Inr s' \<Longrightarrow> k_tasks s' = k_tasks s"
  by (auto simp: unprotect_def Let_def split: if_splits dest: keeps_teardown(1))

text \<open>The lock is not free after it was taken, whatever the state it was taken in.\<close>

lemma lock_vme_takes: "lock_vme i t s = Inr s' \<Longrightarrow> \<not> lock_free (vme_lock (k_tasks s' t))"
  by (cases "lock_free (vme_lock (k_tasks s t))") (auto simp: lock_vme_free lock_vme_taken, simp add: lock_free_def)

lemma destroy_task_fails: "\<exists>e. destroy_task i t s = Inl e"
proof -
  have "destroy_task i t s \<noteq> Inr s'" for s'
  proof
    assume "destroy_task i t s = Inr s'"
    then obtain s1 s2 s3 s4 where "lock_vme i t s = Inr s1" "destroy_mapped_pages i t s1 = Inr s2"
      "destroy_vme_area i t s2 = Inr s3" "unprotect i (t_as (k_tasks s3 t)) s3 = Inr s4" and last: "lock_vme i t s4 = Inr s'"
      unfolding destroy_task_def res_bind_eq_Inr by blast
    then have "\<not> lock_free (vme_lock (k_tasks s4 t))"
      using lock_vme_takes keeps_pages_loop keeps_areas_loop keeps_unprotect
      unfolding destroy_mapped_pages_def destroy_vme_area_def by metis
    then show False using last by (simp add: lock_vme_taken)
  qed
  then show ?thesis by (cases "destroy_task i t s") auto
qed



section \<open>Fork\<close>

lemma lock_mp_free:
  assumes "lock_free (mp_lock (k_tasks s t))"
  shows "lock_mp i t s = Inr (upd_task t (\<lambda>tk. tk\<lparr>mp_lock := (mp_lock tk)\<lparr>lock_word := 1, lock_cpu := int i\<rparr>\<rparr>)
     (set_cpu i (push_off (cpu_of s i)) s))"
  using kmt_spin_lock_free [OF assms, of i "cpu_of s i"] by (simp add: lock_mp_def acquire_def upd_task_def)

text \<open>
  A process that forks before any of its pages is mapped loses the lock of its pages: the copy
  of the list returns early, with the list of the child empty, the lock held and the interrupts of
  the CPU off; after that no CPU gets the lock again, so the next \<open>fork\<close> of the process hangs, on
  whatever CPU it runs.
\<close>

theorem fork_without_pages_keeps_lock:
  assumes "mapped_pages (k_tasks s t) = []" and "lock_free (mp_lock (k_tasks s t))" and "new_task \<noteq> t"
    and "i < length (k_cpus s)"
  shows "\<exists>s'. fork_coppying_new_mapped_pages i t new_task s = Inr s' \<and> mapped_pages (k_tasks s' new_task) = [] \<and>
     \<not> ien (cpu_of s' i) \<and> \<not> lock_free (mp_lock (k_tasks s' t)) \<and>
     fork_cow_mapping j t s' = Inl Hang \<and> fork_coppying_new_mapped_pages j t other s' = Inl Hang"
proof -
  let ?s1 = "upd_task t (\<lambda>tk. tk\<lparr>mp_lock := (mp_lock tk)\<lparr>lock_word := 1, lock_cpu := int i\<rparr>\<rparr>)
     (set_cpu i (push_off (cpu_of s i)) s)"
  let ?s' = "upd_task new_task (mapped_pages_update (\<lambda>_. [])) ?s1"
  have taken: "\<not> lock_free (mp_lock (k_tasks ?s' t))" using assms(3) by (simp add: lock_free_def)
  have "fork_coppying_new_mapped_pages i t new_task s = Inr ?s'"
    using assms(1) by (simp add: fork_coppying_new_mapped_pages_def lock_mp_free [OF assms(2)])
  moreover have "\<not> ien (cpu_of ?s' i)" using assms(4) by simp
  moreover have "fork_cow_mapping j t ?s' = Inl Hang" "fork_coppying_new_mapped_pages j t other ?s' = Inl Hang"
    using lock_mp_taken [OF taken] by (simp_all add: fork_cow_mapping_def fork_coppying_new_mapped_pages_def)
  ultimately show ?thesis using taken by (intro exI [of _ ?s']) simp
qed

theorem fork_without_pages_keeps_lock_witness:
  "\<exists>s'. fork_coppying_new_mapped_pages 0 0x6000 0x8000 ((upd_task 0x6000 (\<lambda>tk. tk\<lparr>mapped_pages := [],
       mp_lock := \<lparr>lock_word = 0, lock_name = ''m'', lock_cpu = -1\<rparr>\<rparr>)) (vm_kern undefined [])) = Inr s' \<and>
     fork_cow_mapping 1 0x6000 s' = Inl Hang"
  using fork_without_pages_keeps_lock [of "(upd_task 0x6000 (\<lambda>tk. tk\<lparr>mapped_pages := [],
       mp_lock := \<lparr>lock_word = 0, lock_name = ''m'', lock_cpu = -1\<rparr>\<rparr>)) (vm_kern undefined [])" "0x6000" "0x8000" 0 1 0]
  by (auto simp: lock_free_def vm_kern_def one_running_def)

end
