(* ===== verification/Pt_Tree.thy ===== *)
theory Pt_Tree
  imports Page_Table
begin

text \<open>
  The page tables of \<open>abstract-machine/am/src/x86/qemu/vme.c\<close> as a tree in the words of the memory:
  which pages it is made of, when no page is used twice, what the hardware finds for an address,
  and what a new table, a written entry or a change below one entry does to all this.
\<close>

section \<open>The words of a table\<close>

definition is_page :: "addr \<Rightarrow> bool" where "is_page p \<longleftrightarrow> 4096 dvd unat p"

definition words_of :: "addr \<Rightarrow> addr set" where "words_of p = entry_addr p ` {..<512}"

lemma unat_entry_addr:
  assumes "is_page p" and "j < 512" shows "unat (entry_addr p j) = unat p + 8 * j"
proof -
  have u: "unat (of_nat (8 * j) :: addr) = 8 * j" using assms(2) by (intro unat_of_nat_small) simp
  obtain k where k: "unat p = 4096 * k" using assms(1) unfolding is_page_def by (elim dvdE)
  have "4096 * k < 2 ^ 64" using k unsigned_less [of p, where 'a = nat] by simp
  then have "4096 * k + 4096 \<le> 2 ^ 64" by simp
  then have "unat p + 8 * j < 2 ^ 64" using k assms(2) by linarith
  then show ?thesis using unat_add_nowrap [of p "of_nat (8 * j)"] u by (simp add: entry_addr_def)
qed

lemma entry_addr_eq:
  assumes "is_page p" and "is_page q" and "j < 512" and "k < 512" and "entry_addr p j = entry_addr q k"
  shows "p = q" and "j = k"
proof -
  have e: "unat p + 8 * j = unat q + 8 * k" using assms unat_entry_addr by metis
  obtain m where m: "unat p = 4096 * m" using assms(1) unfolding is_page_def by (elim dvdE)
  obtain n where n: "unat q = 4096 * n" using assms(2) unfolding is_page_def by (elim dvdE)
  have "(4096 * m + 8 * j) div 4096 = (4096 * n + 8 * k) div 4096" using e m n by simp
  then have "m = n" using assms(3,4) by simp
  then show "p = q" using m n by (simp add: word_unat_eq_iff)
  show "j = k" using e \<open>m = n\<close> m n by simp
qed

lemma words_apart: "is_page p \<Longrightarrow> is_page q \<Longrightarrow> p \<noteq> q \<Longrightarrow> words_of p \<inter> words_of q = {}"
  unfolding words_of_def using entry_addr_eq(1) by (auto simp: image_iff)

lemma entry_in_words: "j < 512 \<Longrightarrow> entry_addr p j \<in> words_of p"
  by (simp add: words_of_def)

lemma clear_words_apply:
  "clear_words n p w x = (if \<exists>j < n. x = p + of_nat (8 * j) then 0 else w x)"
proof (induction n arbitrary: p w)
  case (Suc n)
  have "(\<exists>j < Suc n. x = p + of_nat (8 * j)) \<longleftrightarrow> x = p \<or> (\<exists>j < n. x = (p + 8) + of_nat (8 * j))"
    unfolding Ex_less_Suc2 by (simp add: algebra_simps)
  then show ?case by (simp only: clear_words.simps Suc.IH fun_upd_apply split: if_split) blast
qed simp

lemma cleared: "x \<in> words_of p \<Longrightarrow> clear_words 512 p w x = 0"
  and not_cleared: "x \<notin> words_of p \<Longrightarrow> clear_words 512 p w x = w x"
  unfolding clear_words_apply words_of_def entry_addr_def by auto

text \<open>An entry made of the address of a page and flags below the page size.\<close>

lemma baseof_page: "is_page p \<Longrightarrow> baseof p = p"
proof -
  assume "is_page p"
  then have "p AND mask 12 = 0" by (simp add: is_page_def and_mask_eq_0_iff)
  moreover have "p AND NOT (mask 12) = p - (p AND mask 12)"
    by (simp add: word_unat_eq_iff unat_and_not_mask unat_sub_le unat_and_mask)
  ultimately show ?thesis by (simp add: baseof_def mmu_pgsize_def mask_eq_exp_minus_1)
qed

lemma baseof_entry:
  assumes "is_page p" and "f AND NOT (mask 12) = 0" shows "baseof (p OR f) = p"
proof -
  have "baseof (p OR f) = baseof p OR baseof f" unfolding baseof_def by (rule bit_word_eqI) (auto simp: bit_simps)
  moreover have "baseof f = 0" using assms(2) by (simp add: baseof_def mmu_pgsize_def mask_eq_exp_minus_1)
  ultimately show ?thesis using baseof_page [OF assms(1)] by simp
qed

lemma baseof_is_page: "is_page (baseof e)"
proof -
  have "baseof e = e AND NOT (mask 12)" by (simp add: baseof_def mmu_pgsize_def mask_eq_exp_minus_1)
  then show ?thesis by (simp add: is_page_def unat_and_not_mask dvd_minus_mod)
qed

section \<open>The tree of tables under a table\<close>

text \<open>
  The entries of a table that belong to the user: of the first level only the one entry that
  covers the user's area, of the other levels all. \<open>tabs\<close> are the pages of the tree, \<open>sep\<close> says
  that no page is used twice in it, \<open>look\<close> is the entry the hardware ends at, 0 where a level is
  missing, and \<open>path\<close> relates an address to the place of its last entry when no level is missing.
\<close>

definition kids :: "ptinfo \<Rightarrow> nat set" where
  "kids info = (if pt_shift info = 39 then {32} else {..<512})"

definition present :: "u64 \<Rightarrow> bool" where "present e \<longleftrightarrow> e AND PTE_P \<noteq> 0"

fun tabs :: "(addr \<Rightarrow> u64) \<Rightarrow> ptinfo list \<Rightarrow> addr \<Rightarrow> addr set" where
  "tabs w [] pt = {}"
| "tabs w [info] pt = {pt}"
| "tabs w (info # info2 # infos) pt = insert pt (\<Union>j\<in>kids info.
     if present (w (entry_addr pt j)) then tabs w (info2 # infos) (baseof (w (entry_addr pt j))) else {})"

fun sep :: "(addr \<Rightarrow> u64) \<Rightarrow> ptinfo list \<Rightarrow> addr \<Rightarrow> bool" where
  "sep w [] pt = True"
| "sep w [info] pt = True"
| "sep w (info # info2 # infos) pt \<longleftrightarrow>
     (\<forall>j\<in>kids info. present (w (entry_addr pt j)) \<longrightarrow>
        sep w (info2 # infos) (baseof (w (entry_addr pt j))) \<and> pt \<notin> tabs w (info2 # infos) (baseof (w (entry_addr pt j)))) \<and>
     (\<forall>j\<in>kids info. \<forall>k\<in>kids info. j \<noteq> k \<longrightarrow> present (w (entry_addr pt j)) \<longrightarrow> present (w (entry_addr pt k)) \<longrightarrow>
        tabs w (info2 # infos) (baseof (w (entry_addr pt j))) \<inter> tabs w (info2 # infos) (baseof (w (entry_addr pt k))) = {})"

fun look :: "(addr \<Rightarrow> u64) \<Rightarrow> ptinfo list \<Rightarrow> addr \<Rightarrow> addr \<Rightarrow> u64" where
  "look w [] pt a = 0"
| "look w [info] pt a = w (entry_addr pt (indexof a info))"
| "look w (info # info2 # infos) pt a =
     (let e = w (entry_addr pt (indexof a info)) in
      if present e then look w (info2 # infos) (baseof e) a else 0)"

fun path :: "(addr \<Rightarrow> u64) \<Rightarrow> ptinfo list \<Rightarrow> addr \<Rightarrow> addr \<Rightarrow> addr \<Rightarrow> bool" where
  "path w [] pt a e = False"
| "path w [info] pt a e = (e = entry_addr pt (indexof a info))"
| "path w (info # info2 # infos) pt a e =
     (present (w (entry_addr pt (indexof a info))) \<and> path w (info2 # infos) (baseof (w (entry_addr pt (indexof a info)))) a e)"

text \<open>The addresses the entries of the user cover, and those that share an entry of the last level.\<close>

definition covered :: "ptinfo list \<Rightarrow> addr \<Rightarrow> bool" where
  "covered infos a \<longleftrightarrow> (\<forall>info\<in>set infos. indexof a info \<in> kids info)"

definition same_entry :: "ptinfo list \<Rightarrow> addr \<Rightarrow> addr \<Rightarrow> bool" where
  "same_entry infos a b \<longleftrightarrow> (\<forall>info\<in>set infos. indexof a info = indexof b info)"

lemma kids_less: "j \<in> kids info \<Longrightarrow> j < 512"
  by (simp add: kids_def split: if_splits)

lemma top_in_tabs: "infos \<noteq> [] \<Longrightarrow> pt \<in> tabs w infos pt"
  by (cases "(w, infos, pt)" rule: tabs.cases) auto

lemma child_tabs: "j \<in> kids info \<Longrightarrow> present (w (entry_addr pt j)) \<Longrightarrow>
  tabs w (info2 # infos) (baseof (w (entry_addr pt j))) \<subseteq> tabs w (info # info2 # infos) pt"
  by auto

text \<open>The tree depends on the words of its own pages only.\<close>

definition agree :: "(addr \<Rightarrow> u64) \<Rightarrow> (addr \<Rightarrow> u64) \<Rightarrow> addr set \<Rightarrow> bool" where
  "agree w w' P \<longleftrightarrow> (\<forall>p\<in>P. \<forall>j<512. w' (entry_addr p j) = w (entry_addr p j))"

lemma agreeD: "agree w w' P \<Longrightarrow> p \<in> P \<Longrightarrow> j < 512 \<Longrightarrow> w' (entry_addr p j) = w (entry_addr p j)"
  by (simp add: agree_def)

lemma agree_mono: "agree w w' P \<Longrightarrow> Q \<subseteq> P \<Longrightarrow> agree w w' Q"
  unfolding agree_def by blast

lemma frame_tabs: "agree w w' (tabs w infos pt) \<Longrightarrow> tabs w' infos pt = tabs w infos pt"
proof (induction w infos pt rule: tabs.induct)
  case (3 w info info2 infos pt)
  have eq: "w' (entry_addr pt j) = w (entry_addr pt j)" if "j \<in> kids info" for j
    using agreeD [OF 3(2) _ kids_less [OF that]] by simp
  have "tabs w' (info2 # infos) (baseof (w (entry_addr pt j))) = tabs w (info2 # infos) (baseof (w (entry_addr pt j)))"
    if "j \<in> kids info" "present (w (entry_addr pt j))" for j
    using 3(1) [OF that agree_mono [OF 3(2) child_tabs [of j info w pt, OF that]]] .
  then show ?case using eq by (auto split: if_splits)
qed auto

lemma frame_sep: "agree w w' (tabs w infos pt) \<Longrightarrow> sep w' infos pt = sep w infos pt"
proof (induction w infos pt rule: sep.induct)
  case (3 w info info2 infos pt)
  have eq: "w' (entry_addr pt j) = w (entry_addr pt j)" if "j \<in> kids info" for j
    using agreeD [OF 3(2) _ kids_less [OF that]] by simp
  have sub: "agree w w' (tabs w (info2 # infos) (baseof (w (entry_addr pt j))))"
    if "j \<in> kids info" "present (w (entry_addr pt j))" for j
    using agree_mono [OF 3(2) child_tabs [of j info w pt, OF that]] .
  have tabs: "tabs w' (info2 # infos) (baseof (w (entry_addr pt j))) = tabs w (info2 # infos) (baseof (w (entry_addr pt j)))"
    if "j \<in> kids info" "present (w (entry_addr pt j))" for j
    using frame_tabs [OF sub [OF that]] .
  have "sep w' (info2 # infos) (baseof (w (entry_addr pt j))) = sep w (info2 # infos) (baseof (w (entry_addr pt j)))"
    if "j \<in> kids info" "present (w (entry_addr pt j))" for j
    using 3(1) [OF that sub [OF that]] .
  then show ?case using eq tabs by simp
qed auto

lemma frame_look: "agree w w' (tabs w infos pt) \<Longrightarrow> covered infos a \<Longrightarrow> look w' infos pt a = look w infos pt a"
proof (induction w infos pt a rule: look.induct)
  case (2 w info pt a)
  then show ?case by (auto simp: agree_def covered_def dest: kids_less)
next
  case (3 w info info2 infos pt a)
  have k: "indexof a info \<in> kids info" using 3(3) by (simp add: covered_def)
  have eq: "w' (entry_addr pt (indexof a info)) = w (entry_addr pt (indexof a info))"
    using agreeD [OF 3(2) _ kids_less [OF k]] by simp
  show ?case
  proof (cases "present (w (entry_addr pt (indexof a info)))")
    case True
    then show ?thesis using eq 3(1) [OF refl True agree_mono [OF 3(2) child_tabs [of _ _ w pt, OF k True]]] 3(3)
      by (simp add: covered_def)
  qed (simp add: eq)
qed auto

lemma frame_path: "agree w w' (tabs w infos pt) \<Longrightarrow> covered infos a \<Longrightarrow> path w' infos pt a e = path w infos pt a e"
proof (induction w infos pt a e rule: path.induct)
  case (3 w info info2 infos pt a e)
  have k: "indexof a info \<in> kids info" using 3(3) by (simp add: covered_def)
  have eq: "w' (entry_addr pt (indexof a info)) = w (entry_addr pt (indexof a info))"
    using agreeD [OF 3(2) _ kids_less [OF k]] by simp
  show ?case
  proof (cases "present (w (entry_addr pt (indexof a info)))")
    case True
    then show ?thesis using eq 3(1) [OF agree_mono [OF 3(2) child_tabs [of _ _ w pt, OF k True]]] 3(3)
      by (simp add: covered_def)
  qed (simp add: eq)
qed auto

section \<open>A change below one entry\<close>

definition pages :: "addr set \<Rightarrow> bool" where "pages P \<longleftrightarrow> (\<forall>p\<in>P. is_page p)"

text \<open>\<open>w'\<close> differs from \<open>w\<close> in the words of the pages of \<open>P\<close> at most.\<close>

definition only_in :: "addr set \<Rightarrow> (addr \<Rightarrow> u64) \<Rightarrow> (addr \<Rightarrow> u64) \<Rightarrow> bool" where
  "only_in P w w' \<longleftrightarrow> (\<forall>x. x \<notin> (\<Union>p\<in>P. words_of p) \<longrightarrow> w' x = w x)"

lemma only_in_refl [simp]: "only_in P w w"
  by (simp add: only_in_def)

lemma only_in_trans: "only_in P u v \<Longrightarrow> only_in P v w \<Longrightarrow> only_in P u w"
  by (simp add: only_in_def)

lemma only_in_mono: "only_in P w w' \<Longrightarrow> P \<subseteq> Q \<Longrightarrow> only_in Q w w'"
  unfolding only_in_def by blast

lemma only_in_agree: "only_in P w w' \<Longrightarrow> pages P \<Longrightarrow> pages Q \<Longrightarrow> P \<inter> Q = {} \<Longrightarrow> agree w w' Q"
  unfolding only_in_def agree_def pages_def
  by (metis (no_types, lifting) UN_E disjoint_iff entry_in_words words_apart)

lemma only_in_other:
  assumes "only_in P w w'" and "pages P" and "is_page q" and "q \<notin> P" and "j < 512"
  shows "w' (entry_addr q j) = w (entry_addr q j)"
  using agreeD [OF only_in_agree [OF assms(1,2), of "{q}"]] assms(3-5) by (simp add: pages_def)

text \<open>
  \<open>w'\<close> is \<open>w\<close> with another tree below the entry \<open>i\<close> of the table \<open>pt\<close>, which has grown by pages of \<open>F\<close>.
\<close>

definition below_entry ::
  "(addr \<Rightarrow> u64) \<Rightarrow> (addr \<Rightarrow> u64) \<Rightarrow> ptinfo \<Rightarrow> ptinfo list \<Rightarrow> addr \<Rightarrow> addr \<Rightarrow> nat \<Rightarrow> addr set \<Rightarrow> bool" where
  "below_entry w w' info rest pt c i F \<longleftrightarrow>
     sep w (info # rest) pt \<and> pages (tabs w (info # rest) pt) \<and> pages F \<and>
     F \<inter> tabs w (info # rest) pt = {} \<and> i \<in> kids info \<and> present (w (entry_addr pt i)) \<and>
     c = baseof (w (entry_addr pt i)) \<and> only_in (tabs w rest c \<union> F) w w' \<and> sep w' rest c \<and>
     tabs w rest c \<subseteq> tabs w' rest c \<and> tabs w' rest c \<subseteq> tabs w rest c \<union> F"

lemma below_entryD:
  assumes "below_entry w w' info rest pt c i F"
  shows "sep w (info # rest) pt" "pages (tabs w (info # rest) pt)" "pages F"
    "F \<inter> tabs w (info # rest) pt = {}" "i \<in> kids info" "present (w (entry_addr pt i))"
    "c = baseof (w (entry_addr pt i))" "only_in (tabs w rest c \<union> F) w w'" "sep w' rest c"
    "tabs w rest c \<subseteq> tabs w' rest c" "tabs w' rest c \<subseteq> tabs w rest c \<union> F"
  using assms unfolding below_entry_def by blast+

lemma sep_child:
  assumes "sep w (info # info2 # infos) pt" and "j \<in> kids info" and "present (w (entry_addr pt j))"
  shows "sep w (info2 # infos) (baseof (w (entry_addr pt j)))" "pt \<notin> tabs w (info2 # infos) (baseof (w (entry_addr pt j)))"
  using assms by simp_all

lemma sep_children:
  assumes "sep w (info # info2 # infos) pt" and "j \<in> kids info" and "k \<in> kids info" and "j \<noteq> k"
    and "present (w (entry_addr pt j))" and "present (w (entry_addr pt k))"
  shows "tabs w (info2 # infos) (baseof (w (entry_addr pt j))) \<inter> tabs w (info2 # infos) (baseof (w (entry_addr pt k))) = {}"
  using assms by simp

lemma sep_childrenI:
  assumes "\<And>j. j \<in> kids info \<Longrightarrow> present (w (entry_addr pt j)) \<Longrightarrow> sep w (info2 # infos) (baseof (w (entry_addr pt j)))"
    and "\<And>j. j \<in> kids info \<Longrightarrow> present (w (entry_addr pt j)) \<Longrightarrow> pt \<notin> tabs w (info2 # infos) (baseof (w (entry_addr pt j)))"
    and "\<And>j k. j \<in> kids info \<Longrightarrow> k \<in> kids info \<Longrightarrow> j \<noteq> k \<Longrightarrow> present (w (entry_addr pt j)) \<Longrightarrow> present (w (entry_addr pt k)) \<Longrightarrow>
      tabs w (info2 # infos) (baseof (w (entry_addr pt j))) \<inter> tabs w (info2 # infos) (baseof (w (entry_addr pt k))) = {}"
  shows "sep w (info # info2 # infos) pt"
  unfolding sep.simps using assms by blast

lemma below_pages:
  assumes B: "below_entry w w' info (info2 # infos) pt c i F"
  shows "pages (tabs w (info2 # infos) c \<union> F)" and "pt \<notin> tabs w (info2 # infos) c \<union> F" and "is_page pt"
proof -
  note B = below_entryD [OF B]
  show "pages (tabs w (info2 # infos) c \<union> F)"
    using B(2,3) child_tabs [of i info w pt info2 infos, OF B(5,6)] unfolding pages_def B(7) by blast
  have pt: "pt \<in> tabs w (info # info2 # infos) pt" by simp
  show "pt \<notin> tabs w (info2 # infos) c \<union> F" using pt B(4) sep_child(2) [OF B(1,5,6)] unfolding B(7) by blast
  show "is_page pt" using pt B(2) unfolding pages_def by blast
qed

lemma below_entries:
  "below_entry w w' info (info2 # infos) pt c i F \<Longrightarrow> j < 512 \<Longrightarrow> w' (entry_addr pt j) = w (entry_addr pt j)"
  by (rule only_in_other [OF below_entryD(8) below_pages(1,3,2)])

lemma below_others:
  assumes B: "below_entry w w' info (info2 # infos) pt c i F"
    and j: "j \<in> kids info" "j \<noteq> i" "present (w (entry_addr pt j))"
  shows "agree w w' (tabs w (info2 # infos) (baseof (w (entry_addr pt j))))"
proof -
  let ?T = "tabs w (info2 # infos) (baseof (w (entry_addr pt j)))"
  note D = below_entryD [OF B]
  have sub: "?T \<subseteq> tabs w (info # info2 # infos) pt" using child_tabs [of j info w pt, OF j(1,3)] .
  have "?T \<inter> tabs w (info2 # infos) c = {}" using sep_children [OF D(1) j(1) D(5) j(2,3) D(6)] unfolding D(7) .
  then have "(tabs w (info2 # infos) c \<union> F) \<inter> ?T = {}" using sub D(4) by blast
  moreover have "pages ?T" using sub D(2) unfolding pages_def by blast
  ultimately show ?thesis using only_in_agree [OF D(8) below_pages(1) [OF B]] by blast
qed

lemma below_tabs:
  assumes B: "below_entry w w' info (info2 # infos) pt c i F"
  shows "tabs w' (info # info2 # infos) pt = tabs w (info # info2 # infos) pt \<union> tabs w' (info2 # infos) c"
proof -
  note D = below_entryD [OF B]
  let ?T = "\<lambda>w j. if present (w (entry_addr pt j)) then tabs w (info2 # infos) (baseof (w (entry_addr pt j))) else {}"
  have other: "?T w' j = ?T w j" if "j \<in> kids info - {i}" for j
    using frame_tabs [OF below_others [OF B]] below_entries [OF B] kids_less [of j info] that by simp
  have child: "?T w' i = tabs w' (info2 # infos) c" "?T w i = tabs w (info2 # infos) c"
    using D(6,7) below_entries [OF B kids_less [OF D(5)]] by simp_all
  have split: "(\<Union>j\<in>kids info. f j) = f i \<union> (\<Union>j\<in>kids info - {i}. f j)" for f :: "nat \<Rightarrow> addr set" using D(5) by blast
  have "(\<Union>j\<in>kids info - {i}. ?T w' j) = (\<Union>j\<in>kids info - {i}. ?T w j)" by (rule SUP_cong [OF refl other])
  then show ?thesis unfolding tabs.simps split [of "?T w'"] split [of "?T w"] child using D(10) by blast
qed

lemma disjoint_grown:
  "X \<subseteq> A \<union> F \<Longrightarrow> Y \<subseteq> B \<union> G \<Longrightarrow> A \<inter> B = {} \<Longrightarrow> F \<inter> B = {} \<Longrightarrow> G \<inter> A = {} \<Longrightarrow> F \<inter> G = {} \<Longrightarrow> X \<inter> Y = {}"
  by blast

lemma below_sep:
  assumes B: "below_entry w w' info (info2 # infos) pt c i F"
  shows "sep w' (info # info2 # infos) pt"
proof -
  note D = below_entryD [OF B]
  let ?c = "\<lambda>j. baseof (w (entry_addr pt j))"
  let ?T = "\<lambda>w j. tabs w (info2 # infos) (?c j)"
  have e: "w' (entry_addr pt j) = w (entry_addr pt j)" if "j \<in> kids info" for j
    using below_entries [OF B kids_less [OF that]] .
  have T: "?T w' j \<subseteq> ?T w j \<union> (if j = i then F else {})" if "j \<in> kids info" "present (w (entry_addr pt j))" for j
    using frame_tabs [OF below_others [OF B that(1) _ that(2)]] D(7,11) by auto
  have S: "sep w' (info2 # infos) (?c j)" if "j \<in> kids info" "present (w (entry_addr pt j))" for j
  proof (cases "j = i")
    case True
    then show ?thesis using D(7,9) by simp
  next
    case False
    then show ?thesis using frame_sep [OF below_others [OF B that(1) False that(2)]] sep_child(1) [OF D(1) that] by simp
  qed
  have N: "pt \<notin> ?T w' j" if "j \<in> kids info" "present (w (entry_addr pt j))" for j
    using T [OF that] sep_child(2) [OF D(1) that] below_pages(2) [OF B] by (auto split: if_splits)
  have A: "?T w' j \<inter> ?T w' k = {}"
    if "j \<in> kids info" "k \<in> kids info" "j \<noteq> k" "present (w (entry_addr pt j))" "present (w (entry_addr pt k))" for j k
  proof -
    have "?T w j \<inter> ?T w k = {}" using sep_children [OF D(1) that] .
    moreover have "F \<inter> ?T w j = {}" "F \<inter> ?T w k = {}"
      using D(4) child_tabs [of j info w pt info2 infos] child_tabs [of k info w pt info2 infos] that by blast+
    moreover have "(if j = i then F else {}) \<inter> (if k = i then F else {}) = {}" using that(3) by simp
    ultimately show ?thesis
      by (intro disjoint_grown [OF T [OF that(1,4)] T [OF that(2,5)]]) (simp_all split: if_split del: tabs.simps)
  qed
  show ?thesis
  proof (rule sep_childrenI)
    fix j assume j: "j \<in> kids info" "present (w' (entry_addr pt j))"
    have p: "present (w (entry_addr pt j))" using j(2) unfolding e [OF j(1)] .
    show "sep w' (info2 # infos) (baseof (w' (entry_addr pt j)))" unfolding e [OF j(1)] by (rule S [OF j(1) p])
    show "pt \<notin> tabs w' (info2 # infos) (baseof (w' (entry_addr pt j)))" unfolding e [OF j(1)] by (rule N [OF j(1) p])
    fix k assume k: "k \<in> kids info" "j \<noteq> k" "present (w' (entry_addr pt k))"
    have q: "present (w (entry_addr pt k))" using k(3) unfolding e [OF k(1)] .
    show "tabs w' (info2 # infos) (baseof (w' (entry_addr pt j))) \<inter> tabs w' (info2 # infos) (baseof (w' (entry_addr pt k))) = {}"
      unfolding e [OF j(1)] e [OF k(1)] by (rule A [OF j(1) k(1,2) p q])
  qed
qed

lemma below_look:
  assumes B: "below_entry w w' info (info2 # infos) pt c i F" and b: "covered (info # info2 # infos) b"
  shows "look w' (info # info2 # infos) pt b =
    (if indexof b info = i then look w' (info2 # infos) c b else look w (info # info2 # infos) pt b)"
proof -
  have k: "indexof b info \<in> kids info" "covered (info2 # infos) b" using b by (simp_all add: covered_def)
  then show ?thesis
    using below_entries [OF B kids_less [OF k(1)]] below_entryD(6,7) [OF B] frame_look [OF below_others [OF B k(1)] k(2)]
    by (auto simp: Let_def)
qed

lemma below_path:
  assumes B: "below_entry w w' info (info2 # infos) pt c (indexof a info) F"
  shows "path w' (info # info2 # infos) pt a e = path w' (info2 # infos) c a e"
  using below_entries [OF B kids_less [OF below_entryD(5) [OF B]]] below_entryD(6,7) [OF B] by simp

section \<open>Writing the last entry\<close>

lemma path_in_tabs: "path w infos pt a e \<Longrightarrow> covered infos a \<Longrightarrow> \<exists>q\<in>tabs w infos pt. e \<in> words_of q"
proof (induction w infos pt a e rule: path.induct)
  case (2 w info pt a e)
  then show ?case by (auto simp: covered_def entry_in_words dest: kids_less)
next
  case (3 w info info2 infos pt a e)
  then show ?case using child_tabs [of "indexof a info" info w pt info2 infos] by (fastforce simp: covered_def)
qed auto

lemma write_entry:
  assumes "path w infos pt a e" and "sep w infos pt" and "pages (tabs w infos pt)" and "covered infos a"
  shows "sep (w(e := v)) infos pt \<and> tabs (w(e := v)) infos pt = tabs w infos pt \<and> path (w(e := v)) infos pt a e \<and>
     (\<forall>b. covered infos b \<longrightarrow> look (w(e := v)) infos pt b = (if same_entry infos a b then v else look w infos pt b)) \<and>
     look w infos pt a = w e"
  using assms
proof (induction w infos pt a e rule: path.induct)
  case (2 w info pt a e)
  have pt: "is_page pt" using 2(3) by (simp add: pages_def)
  have "entry_addr pt (indexof b info) = entry_addr pt (indexof a info) \<longleftrightarrow> indexof b info = indexof a info"
    if "indexof b info \<in> kids info" for b
    using entry_addr_eq(2) [OF pt pt kids_less [OF that], of "indexof a info"] kids_less [of "indexof a info" info] 2(4)
    by (auto simp: covered_def)
  then show ?case using 2(1) by (auto simp: same_entry_def covered_def)
next
  case (3 w info info2 infos pt a e)
  let ?i = "indexof a info" and ?w' = "w(e := v)"
  let ?c = "baseof (w (entry_addr pt ?i))"
  have i: "?i \<in> kids info" and cov: "covered (info2 # infos) a" using 3(5) by (simp_all add: covered_def)
  have p: "present (w (entry_addr pt ?i))" "path w (info2 # infos) ?c a e" using 3(2) by simp_all
  have sep: "sep w (info2 # infos) ?c" using 3(3) i p(1) by simp
  have pg: "pages (tabs w (info2 # infos) ?c)" using 3(4) child_tabs [of ?i info w pt, OF i p(1)] unfolding pages_def by blast
  note IH = 3(1) [OF p(2) sep pg cov]
  obtain q where q: "q \<in> tabs w (info2 # infos) ?c" "e \<in> words_of q" using path_in_tabs [OF p(2) cov] by blast
  have "only_in (tabs w (info2 # infos) ?c \<union> {}) w ?w'" using q by (auto simp: only_in_def)
  then have B: "below_entry w ?w' info (info2 # infos) pt ?c ?i {}"
    unfolding below_entry_def using 3(3,4) i p(1) IH by (intro conjI) (simp_all add: pages_def del: fun_upd_apply)
  show ?case
  proof (intro conjI allI impI)
    show "sep ?w' (info # info2 # infos) pt" by (rule below_sep [OF B])
    show "tabs ?w' (info # info2 # infos) pt = tabs w (info # info2 # infos) pt"
      using below_tabs [OF B] IH child_tabs [of ?i info w pt, OF i p(1)] by blast
    show "path ?w' (info # info2 # infos) pt a e" using below_path [OF B] IH by blast
    show "look w (info # info2 # infos) pt a = w e" using p(1) IH by (simp add: Let_def)
    fix b assume b: "covered (info # info2 # infos) b"
    then have "covered (info2 # infos) b" by (simp add: covered_def)
    then have child: "look ?w' (info2 # infos) ?c b = (if same_entry (info2 # infos) a b then v else look w (info2 # infos) ?c b)"
      using IH by blast
    have same: "same_entry (info # info2 # infos) a b \<longleftrightarrow> indexof b info = ?i \<and> same_entry (info2 # infos) a b"
      by (auto simp: same_entry_def)
    have "look w (info # info2 # infos) pt b = look w (info2 # infos) ?c b" if "indexof b info = ?i"
      using p(1) that by (simp add: Let_def)
    then show "look ?w' (info # info2 # infos) pt b =
        (if same_entry (info # info2 # infos) a b then v else look w (info # info2 # infos) pt b)"
      unfolding below_look [OF B b] same child by (cases "indexof b info = ?i") (simp_all del: look.simps)
  qed
qed auto

section \<open>A new table\<close>

lemma empty_tree:
  assumes "\<forall>j\<in>kids (hd infos). w (entry_addr p j) = 0" and "infos \<noteq> []"
  shows "tabs w infos p = {p}" and "sep w infos p" and "covered infos b \<Longrightarrow> look w infos p b = 0"
proof -
  show "tabs w infos p = {p}" using assms by (cases "(w, infos, p)" rule: tabs.cases) (auto simp: present_def)
  show "sep w infos p" using assms by (cases "(w, infos, p)" rule: sep.cases) (auto simp: present_def)
  show "look w infos p b = 0" if "covered infos b"
    using assms that by (cases "(w, infos, p, b)" rule: look.cases) (auto simp: covered_def present_def Let_def)
qed

lemma zero_tree:
  assumes "\<forall>x\<in>words_of p. w x = 0" and "infos \<noteq> []"
  shows "tabs w infos p = {p}" and "sep w infos p" and "covered infos b \<Longrightarrow> look w infos p b = 0"
proof -
  have "\<forall>j\<in>kids (hd infos). w (entry_addr p j) = 0" using assms(1) entry_in_words kids_less by blast
  note empty_tree [OF this assms(2)]
  then show "tabs w infos p = {p}" "sep w infos p" "covered infos b \<Longrightarrow> look w infos p b = 0" by blast+
qed

lemma new_table:
  assumes sep: "sep w (info # info2 # infos) pt" and pg: "pages (tabs w (info # info2 # infos) pt)"
    and i: "i \<in> kids info" and absent: "\<not> present (w (entry_addr pt i))"
    and p: "is_page p" "p \<notin> tabs w (info # info2 # infos) pt"
    and e: "w' (entry_addr pt i) = e" "present e" "baseof e = p"
    and zero: "\<forall>x\<in>words_of p. w' x = 0" and others: "\<forall>x. x \<noteq> entry_addr pt i \<longrightarrow> x \<notin> words_of p \<longrightarrow> w' x = w x"
  shows "sep w' (info # info2 # infos) pt" and "tabs w' (info # info2 # infos) pt = insert p (tabs w (info # info2 # infos) pt)"
    and "covered (info # info2 # infos) b \<Longrightarrow> look w' (info # info2 # infos) pt b = look w (info # info2 # infos) pt b"
    and "only_in (insert p (tabs w (info # info2 # infos) pt)) w w'"
proof -
  let ?T = "\<lambda>w j. tabs w (info2 # infos) (baseof (w (entry_addr pt j)))"
  note zt = zero_tree [of p w' "info2 # infos", OF zero]
  note rest = others [rule_format]
  have pt: "is_page pt" "p \<noteq> pt" using pg p(2) by (auto simp: pages_def)
  have same: "w' (entry_addr pt j) = w (entry_addr pt j)" if "j \<in> kids info" "j \<noteq> i" for j
  proof (rule rest)
    show "entry_addr pt j \<noteq> entry_addr pt i" using entry_addr_eq(2) [OF pt(1) pt(1)] that i kids_less by blast
    show "entry_addr pt j \<notin> words_of p"
      using words_apart [OF pt(1) p(1)] pt(2) entry_in_words [OF kids_less [OF that(1)], of pt] by blast
  qed
  have old: "agree w w' (?T w j)" if "j \<in> kids info" "present (w (entry_addr pt j))" for j
    unfolding agree_def
  proof (intro ballI allI impI)
    fix q k assume q: "q \<in> ?T w j" and k: "(k :: nat) < 512"
    have in_tree: "q \<in> tabs w (info # info2 # infos) pt" using child_tabs [of j info w pt, OF that] q by blast
    then have qp: "is_page q" "q \<noteq> p" "q \<noteq> pt" using pg p(2) sep_child(2) [OF sep that] q unfolding pages_def by blast+
    show "w' (entry_addr q k) = w (entry_addr q k)"
    proof (rule rest)
      show "entry_addr q k \<noteq> entry_addr pt i" using entry_addr_eq(1) [OF qp(1) pt(1) k kids_less [OF i]] qp(3) by blast
      show "entry_addr q k \<notin> words_of p" using words_apart [OF qp(1) p(1) qp(2)] entry_in_words [OF k, of q] by blast
    qed
  qed
  have new: "?T w' i = {p}" using zt(1) e by simp
  have kept: "?T w' j = ?T w j" "sep w' (info2 # infos) (baseof (w' (entry_addr pt j)))"
    if "j \<in> kids info" "j \<noteq> i" "present (w (entry_addr pt j))" for j
    using frame_tabs [OF old [OF that(1,3)]] frame_sep [OF old [OF that(1,3)]] sep_child(1) [OF sep that(1,3)]
    by (simp_all add: same [OF that(1,2)] del: tabs.simps sep.simps)
  have prs: "present (w (entry_addr pt j))" if "j \<in> kids info" "j \<noteq> i" "present (w' (entry_addr pt j))" for j
    using that(3) unfolding same [OF that(1,2)] .
  have out: "p \<notin> ?T w j" "pt \<notin> ?T w j" if "j \<in> kids info" "present (w (entry_addr pt j))" for j
    using child_tabs [of j info w pt, OF that] p(2) sep_child(2) [OF sep that] by blast+
  show "sep w' (info # info2 # infos) pt"
  proof (rule sep_childrenI)
    fix j assume j: "j \<in> kids info" "present (w' (entry_addr pt j))"
    show "sep w' (info2 # infos) (baseof (w' (entry_addr pt j)))"
      using zt(2) e kept(2) [OF j(1)] prs [OF j(1) _ j(2)] by (cases "j = i") simp_all
    show "pt \<notin> ?T w' j"
    proof (cases "j = i")
      case True
      then show ?thesis using new pt(2) by simp
    next
      case False
      show ?thesis unfolding kept(1) [OF j(1) False prs [OF j(1) False j(2)]] by (rule out(2) [OF j(1) prs [OF j(1) False j(2)]])
    qed
    fix k assume k: "k \<in> kids info" "j \<noteq> k" "present (w' (entry_addr pt k))"
    consider "j = i" | "k = i" "j \<noteq> i" | "j \<noteq> i" "k \<noteq> i" by blast
    then show "?T w' j \<inter> ?T w' k = {}"
    proof cases
      case 1
      have ki: "k \<noteq> i" using 1 k(2) by simp
      show ?thesis unfolding 1 new kept(1) [OF k(1) ki prs [OF k(1) ki k(3)]]
        using out(1) [OF k(1) prs [OF k(1) ki k(3)]] by simp
    next
      case 2
      show ?thesis unfolding 2(1) new kept(1) [OF j(1) 2(2) prs [OF j(1) 2(2) j(2)]]
        using out(1) [OF j(1) prs [OF j(1) 2(2) j(2)]] by simp
    next
      case 3
      then show ?thesis
        unfolding kept(1) [OF j(1) 3(1) prs [OF j(1) 3(1) j(2)]] kept(1) [OF k(1) 3(2) prs [OF k(1) 3(2) k(3)]]
        by (intro sep_children [OF sep j(1) k(1,2)] prs j k)
    qed
  qed
  have split: "(\<Union>j\<in>kids info. f j) = f i \<union> (\<Union>j\<in>kids info - {i}. f j)" for f :: "nat \<Rightarrow> addr set" using i by blast
  let ?U = "\<lambda>w j. if present (w (entry_addr pt j)) then ?T w j else {}"
  have "(\<Union>j\<in>kids info - {i}. ?U w' j) = (\<Union>j\<in>kids info - {i}. ?U w j)"
    using kept(1) same by (intro SUP_cong refl) (simp del: tabs.simps)
  moreover have "?U w' i = {p}" "?U w i = {}" using new e absent by simp_all
  ultimately show "tabs w' (info # info2 # infos) pt = insert p (tabs w (info # info2 # infos) pt)"
    unfolding tabs.simps split [of "?U w'"] split [of "?U w"] by blast
  show "look w' (info # info2 # infos) pt b = look w (info # info2 # infos) pt b" if "covered (info # info2 # infos) b"
  proof (cases "indexof b info = i")
    case True
    then show ?thesis using zt(3) [of b] that e absent by (simp add: Let_def covered_def)
  next
    case False
    have k: "indexof b info \<in> kids info" "covered (info2 # infos) b" using that by (simp_all add: covered_def)
    show ?thesis using same [OF k(1) False] frame_look [OF old [OF k(1)] k(2)] by (simp add: Let_def del: tabs.simps)
  qed
  show "only_in (insert p (tabs w (info # info2 # infos) pt)) w w'"
    unfolding only_in_def
  proof (intro allI impI)
    fix x assume x: "x \<notin> (\<Union>q\<in>insert p (tabs w (info # info2 # infos) pt). words_of q)"
    have "pt \<in> tabs w (info # info2 # infos) pt" by simp
    then have "x \<notin> words_of p" "x \<notin> words_of pt" using x by blast+
    then show "w' x = w x" using rest entry_in_words [OF kids_less [OF i], of pt] by metis
  qed
qed

end
