(* ===== verification/Pt_Spec.thy ===== *)
theory Pt_Spec
  imports Pt_Tree Palloc
begin

text \<open>
  What the virtual memory promises (\<open>abstract-machine/am/src/x86/qemu/vme.c\<close>): the page tables of
  an address space implement a map from pages to entries, which \<open>protect\<close> creates empty and
  \<open>map_page\<close> updates at one page; the tables are pages of their own that the memory manager gave.
\<close>

section \<open>Pages of the memory manager\<close>

definition owns :: "(nat \<times> nat) set \<Rightarrow> addr set" where
  "owns X = {p. is_page p \<and> (\<exists>len. 4096 \<le> len \<and> (unat p, len) \<in> X)}"

lemma owns_pages: "P \<subseteq> owns X \<Longrightarrow> pages P"
  unfolding pages_def owns_def by blast

lemma owns_mono: "X \<subseteq> Y \<Longrightarrow> owns X \<subseteq> owns Y"
  unfolding owns_def by blast

lemma held_page:
  assumes "pmm_holds m X" and "(a, len) \<in> X" and "4096 \<le> len"
  shows "4096 dvd a"
proof -
  obtain L F where rel: "slab_rel m L F" and X: "X = live m L F" using assms(1) unfolding pmm_holds_def by blast
  have "(a, len) \<notin> small_live L F" using small_live_small [of "(a, len)" L F] assms(3) by fastforce
  then have "(a, len) \<in> big_live m L" using assms(2) unfolding X live_def by blast
  then obtain k where "(a, k) \<in> owned (sl_bbma m)" unfolding big_live_def by blast
  then have "2 ^ (12 + k) dvd a" by (rule owned_bounds(4) [OF slab_relD(1) [OF rel]])
  moreover have "(4096 :: nat) dvd 2 ^ (12 + k)" by (simp add: power_add)
  ultimately show ?thesis by (rule dvd_trans [rotated])
qed

lemma held_once:
  assumes "pmm_holds m X" and "(a, k) \<in> X" and "(a, l) \<in> X" and "0 < k" and "0 < l"
  shows "k = l"
proof (rule ccontr)
  assume "k \<noteq> l"
  obtain L F where "slab_rel m L F" "X = live m L F" using assms(1) unfolding pmm_holds_def by blast
  then have "range_of (a, k) \<inter> range_of (a, l) = {}" using live_disjoint assms(2,3) \<open>k \<noteq> l\<close> by blast
  then show False using assms(4,5) by (simp add: range_of_def)
qed

lemma pgallocz_cases:
  assumes pmm: "pmm_holds (k_pmm s) X" and i: "i < 8"
  shows "pgallocz i s = Inl (Panic ''cannot allocate page'') \<or>
    (\<exists>p m X'. pgallocz i s = Inr (p, s\<lparr>k_pmm := m, k_words := clear_words 512 p (k_words s)\<rparr>) \<and>
       pmm_holds m X' \<and> X \<subseteq> X' \<and> p \<in> owns X' \<and> p \<notin> owns X)"
proof -
  have id: "set_cpu i (cpu_of s i) (s\<lparr>k_pmm := m\<rparr>) = s\<lparr>k_pmm := m\<rparr>" for m by (simp add: set_cpu_def cpu_of_def)
  obtain p m where r: "palloc i mmu_pgsize s = Inr (p, s\<lparr>k_pmm := m\<rparr>)"
    and p: "p = 0 \<or> p \<noteq> 0 \<and> (\<exists>len. 4096 \<le> len \<and> (unat p, len) \<notin> X \<and> pmm_holds m (insert (unat p, len) X))"
    using palloc_cases [OF pmm i, of mmu_pgsize] unfolding id by (auto simp: mmu_pgsize_def)
  show ?thesis
  proof (cases "p = 0")
    case True
    then show ?thesis using r by (simp add: pgallocz_def)
  next
    case False
    then obtain len where len: "4096 \<le> len" "(unat p, len) \<notin> X" "pmm_holds m (insert (unat p, len) X)" using p by blast
    have pg: "is_page p" using held_page [OF len(3) _ len(1)] by (simp add: is_page_def)
    have "p \<notin> owns X"
    proof
      assume "p \<in> owns X"
      then obtain l where "4096 \<le> l" "(unat p, l) \<in> X" unfolding owns_def by blast
      moreover then have "l = len" using held_once [OF len(3), of "unat p" l len] len(1) by simp
      ultimately show False using len(2) by simp
    qed
    moreover have "p \<in> owns (insert (unat p, len) X)" using pg len(1) unfolding owns_def by blast
    moreover have "pgallocz i s = Inr (p, s\<lparr>k_pmm := m, k_words := clear_words 512 p (k_words s)\<rparr>)"
      using r False by (simp add: pgallocz_def)
    ultimately show ?thesis using len(3) by (intro disjI2 exI [of _ p] exI [of _ m] exI [of _ "insert (unat p, len) X"]) blast
  qed
qed

section \<open>The walk\<close>

text \<open>What a walk may do to the tree below \<open>pt\<close>: add pages, without changing what is looked up.\<close>

definition grown :: "(addr \<Rightarrow> u64) \<Rightarrow> (addr \<Rightarrow> u64) \<Rightarrow> ptinfo list \<Rightarrow> addr \<Rightarrow> addr set \<Rightarrow> bool" where
  "grown w w' infos pt F \<longleftrightarrow> sep w' infos pt \<and> tabs w infos pt \<subseteq> tabs w' infos pt \<and>
     tabs w' infos pt \<subseteq> tabs w infos pt \<union> F \<and> only_in (tabs w infos pt \<union> F) w w' \<and>
     (\<forall>b. covered infos b \<longrightarrow> look w' infos pt b = look w infos pt b)"

lemma grown_refl: "sep w infos pt \<Longrightarrow> grown w w infos pt F"
  by (simp add: grown_def)

lemma grown_below:
  assumes sep: "sep w (info # info2 # infos) pt" and pg: "pages (tabs w (info # info2 # infos) pt)" "pages F"
    and F: "F \<inter> tabs w (info # info2 # infos) pt = {}" and i: "indexof a info \<in> kids info"
    and p: "present (w (entry_addr pt (indexof a info)))" "c = baseof (w (entry_addr pt (indexof a info)))"
    and g: "grown w w' (info2 # infos) c F" and path: "path w' (info2 # infos) c a e"
  shows "grown w w' (info # info2 # infos) pt F \<and> path w' (info # info2 # infos) pt a e"
proof -
  have B: "below_entry w w' info (info2 # infos) pt c (indexof a info) F"
    unfolding below_entry_def using sep pg F i p g unfolding grown_def by blast
  have sub: "tabs w (info2 # infos) c \<subseteq> tabs w (info # info2 # infos) pt"
    using child_tabs [of "indexof a info" info w pt, OF i p(1)] unfolding p(2) .
  have "look w' (info # info2 # infos) pt b = look w (info # info2 # infos) pt b" if b: "covered (info # info2 # infos) b" for b
  proof (cases "indexof b info = indexof a info")
    case True
    have "covered (info2 # infos) b" using b by (simp add: covered_def)
    then have "look w' (info2 # infos) c b = look w (info2 # infos) c b" using g unfolding grown_def by blast
    moreover have "look w (info # info2 # infos) pt b = look w (info2 # infos) c b" using True p by (simp add: Let_def)
    ultimately show ?thesis using below_look [OF B b] True by simp
  qed (simp only: below_look [OF B b] if_False)
  moreover have "only_in (tabs w (info # info2 # infos) pt \<union> F) w w'"
    by (rule only_in_mono [of "tabs w (info2 # infos) c \<union> F"]) (use g sub in \<open>auto simp: grown_def simp del: tabs.simps\<close>)
  moreover have "tabs w' (info # info2 # infos) pt \<subseteq> tabs w (info # info2 # infos) pt \<union> F"
    using g sub unfolding below_tabs [OF B] grown_def by blast
  moreover have "tabs w (info # info2 # infos) pt \<subseteq> tabs w' (info # info2 # infos) pt" unfolding below_tabs [OF B] by blast
  ultimately show ?thesis using below_sep [OF B] below_path [OF B] path unfolding grown_def by blast
qed

lemma present_entry: "present (p OR (PTE_P OR f))"
proof -
  have "bit ((p OR (PTE_P OR f)) AND PTE_P) 0" by (simp add: bit_simps PTE_P_def)
  then show ?thesis unfolding present_def by (metis bit_0_eq bot_apply bot_bool_def)
qed

lemma grown_trans:
  assumes "grown u v infos pt F" and "grown v w infos pt G" and "F \<subseteq> H" and "G \<subseteq> H"
  shows "grown u w infos pt H"
proof -
  have "only_in (tabs u infos pt \<union> H) u v" "only_in (tabs u infos pt \<union> H) v w"
    using assms unfolding grown_def by (blast intro: only_in_mono)+
  then have "only_in (tabs u infos pt \<union> H) u w" by (rule only_in_trans)
  moreover have "tabs w infos pt \<subseteq> tabs u infos pt \<union> H" using assms unfolding grown_def by blast
  ultimately show ?thesis using assms unfolding grown_def by (intro conjI) (blast, blast, blast, blast, simp)
qed

definition walked :: "addr \<Rightarrow> ptinfo list \<Rightarrow> addr \<Rightarrow> kern \<Rightarrow> (nat \<times> nat) set \<Rightarrow> (addr \<times> kern) res \<Rightarrow> bool" where
  "walked a infos pt s X r \<longleftrightarrow> r = Inl (Panic ''cannot allocate page'') \<or>
    (\<exists>e m w X'. r = Inr (e, s\<lparr>k_pmm := m, k_words := w\<rparr>) \<and> pmm_holds m X' \<and> X \<subseteq> X' \<and>
       grown (k_words s) w infos pt (owns X' - owns X) \<and> path w infos pt a e)"

lemma walk_grows:
  assumes "infos \<noteq> []" and "pmm_holds (k_pmm s) X" and "i < 8" and "sep (k_words s) infos pt"
    and "tabs (k_words s) infos pt \<subseteq> owns X" and "covered infos a" and "flags AND NOT (mask 12) = 0"
  shows "walked a infos pt s X (ptwalk_loop i a flags pt infos s)"
  using assms
proof (induction i a flags pt infos s arbitrary: X rule: ptwalk_loop.induct)
  case (2 i a flags cur info s)
  have "s = s\<lparr>k_pmm := k_pmm s, k_words := k_words s\<rparr>" by simp
  then show ?case using 2 grown_refl [of "k_words s" "[info]" cur] unfolding walked_def
    by (metis order_refl path.simps(2) ptwalk_loop.simps(2))
next
  case (3 i a flags cur info info2 infos s)
  let ?i = "indexof a info"
  let ?e = "entry_addr cur ?i" and ?w = "k_words s" and ?infos = "info # info2 # infos"
  have i: "?i \<in> kids info" and cov: "covered (info2 # infos) a" using 3(8) by (simp_all add: covered_def)
  have pgs: "pages (tabs ?w ?infos cur)" by (rule owns_pages [OF 3(7)])
  show ?case
  proof (cases "present (?w ?e)")
    case True
    let ?c = "baseof (?w ?e)"
    have P: "?w ?e AND PTE_P \<noteq> 0" using True by (simp add: present_def)
    have sub: "tabs ?w (info2 # infos) ?c \<subseteq> owns X" using child_tabs [of ?i info ?w cur, OF i True] 3(7) by blast
    have step: "ptwalk_loop i a flags cur ?infos s = ptwalk_loop i a flags ?c (info2 # infos) s" using P by simp
    have "walked a (info2 # infos) ?c s X (ptwalk_loop i a flags ?c (info2 # infos) s)"
      by (rule 3(2) [OF refl P _ 3(4,5) sep_child(1) [OF 3(6) i True] sub cov 3(9)]) simp
    then show ?thesis
      unfolding step walked_def
    proof (elim disjE exE conjE, goal_cases)
      case (2 e m w X')
      have "(owns X' - owns X) \<inter> tabs ?w ?infos cur = {}" using 3(7) by blast
      then have "grown ?w w ?infos cur (owns X' - owns X) \<and> path w ?infos cur a e"
        using grown_below [OF 3(6) pgs _ _ i True refl 2(4,5)] owns_pages [of "owns X' - owns X" X'] by blast
      then show ?case using 2 by blast
    qed simp
  next
    case False
    then have P: "?w ?e AND PTE_P = 0" by (simp add: present_def)
    from pgallocz_cases [OF 3(4,5)] show ?thesis
    proof (elim disjE exE conjE, goal_cases)
      case 1 then show ?case using P by (simp add: walked_def)
    next
      case (2 p m X1)
      let ?w2 = "(clear_words 512 p ?w)(?e := p OR PTE_P OR flags)"
      let ?s2 = "s\<lparr>k_pmm := m, k_words := ?w2\<rparr>"
      have p: "is_page p" "p \<notin> tabs ?w ?infos cur" "is_page cur" "p \<noteq> cur"
        using 2(4,5) 3(7) pgs by (auto simp: owns_def pages_def)
      have ew: "?e \<notin> words_of p" using words_apart [OF p(3,1)] p(4) entry_in_words [OF kids_less [OF i], of cur] by blast
      have fl: "(PTE_P OR flags) AND NOT (mask 12) = 0"
        using 3(9) by (simp add: bit.conj_disj_distrib2 PTE_P_def) (simp add: mask_eq_exp_minus_1)
      have e: "?w2 ?e = p OR (PTE_P OR flags)" "present (p OR (PTE_P OR flags))" "baseof (p OR (PTE_P OR flags)) = p"
        using baseof_entry [OF p(1) fl] present_entry by (simp_all add: or.assoc)
      have zero: "\<forall>x\<in>words_of p. ?w2 x = 0" using ew cleared by auto
      have rest: "\<forall>x. x \<noteq> ?e \<longrightarrow> x \<notin> words_of p \<longrightarrow> ?w2 x = ?w x" using not_cleared by simp
      note nt = new_table [OF 3(6) pgs i False p(1,2) e zero rest]
      note zt = zero_tree [OF zero, of "info2 # infos"]
      have new: "p \<in> owns X1 - owns X" using 2(4,5) by blast
      have g1: "grown ?w ?w2 ?infos cur {p}"
        unfolding grown_def nt(2)
      proof (intro conjI allI impI)
        show "only_in (tabs ?w ?infos cur \<union> {p}) ?w ?w2" using nt(4) by (simp only: Un_insert_right Un_empty_right)
      qed (use nt(1,3) in \<open>blast+\<close>)
      have t2: "tabs ?w2 ?infos cur \<subseteq> owns X1" unfolding nt(2) using 3(7) 2(4) owns_mono [OF 2(3)] by blast
      have step: "ptwalk_loop i a flags cur ?infos s = ptwalk_loop i a flags p (info2 # infos) ?s2" using P 2(1) by simp
      have "walked a (info2 # infos) p ?s2 X1 (ptwalk_loop i a flags p (info2 # infos) ?s2)"
        using 3(1) [OF refl P 2(1) refl, of X1] 2(2,4) 3(5,9) zt(1,2) cov by simp
      then show ?case
        unfolding step walked_def
      proof (elim disjE exE conjE, goal_cases)
        case (2 e' m' w X')
        have F: "(owns X' - owns X1) \<inter> tabs ?w2 ?infos cur = {}" using t2 by blast
        have "grown ?w2 w ?infos cur (owns X' - owns X1) \<and> path w ?infos cur a e'"
          by (rule grown_below [OF nt(1) owns_pages [OF t2] _ F i]) (use e 2(4,5) owns_pages [of "owns X' - owns X1" X'] in \<open>simp_all del: fun_upd_apply\<close>)
        moreover then have "grown ?w w ?infos cur (owns X' - owns X)"
          using grown_trans [OF g1, of w "owns X' - owns X1" "owns X' - owns X"] new owns_mono [of X X1] owns_mono [of X1 X'] \<open>X \<subseteq> X1\<close> 2(3) by blast
        ultimately show ?case using 2(1,2,3) \<open>X \<subseteq> X1\<close> by (intro disjI2 exI [of _ e'] exI [of _ m'] exI [of _ w] exI [of _ X']) auto
      qed simp
    qed
  qed
qed simp

text \<open>A walk along a complete path changes nothing.\<close>

lemma walk_path: "path (k_words s) infos pt a e \<Longrightarrow> ptwalk_loop i a flags pt infos s = Inr (e, s)"
proof (induction "k_words s" infos pt a e rule: path.induct)
  case (3 info info2 infos pt a e)
  then show ?case by (simp add: present_def)
qed simp_all


section \<open>Address spaces\<close>

definition user_addr :: "addr \<Rightarrow> bool" where "user_addr a \<longleftrightarrow> uvm_start \<le> a \<and> a < uvm_end"

definition space_root :: "kern \<Rightarrow> addr \<Rightarrow> addr" where "space_root s asp = baseof (as_ptr (k_as s asp))"

text \<open>The pages of the tables, and the entry the hardware finds for a user address (0: none).\<close>

definition space_tabs :: "kern \<Rightarrow> addr \<Rightarrow> addr set" where
  "space_tabs s asp = tabs (k_words s) (tl mmu_pgtables) (space_root s asp)"

definition pte :: "kern \<Rightarrow> addr \<Rightarrow> addr \<Rightarrow> u64" where
  "pte s asp a = look (k_words s) (tl mmu_pgtables) (space_root s asp) a"

definition space_ok :: "kern \<Rightarrow> addr \<Rightarrow> (nat \<times> nat) set \<Rightarrow> bool" where
  "space_ok s asp X \<longleftrightarrow> present (as_ptr (k_as s asp)) \<and> sep (k_words s) (tl mmu_pgtables) (space_root s asp) \<and>
     space_tabs s asp \<subseteq> owns X"

lemma levels: "tl mmu_pgtables = [\<lparr>pt_mask = push_bit 39 (mask 9), pt_shift = 39, pt_bits = 9\<rparr>,
     \<lparr>pt_mask = push_bit 30 (mask 9), pt_shift = 30, pt_bits = 9\<rparr>, \<lparr>pt_mask = push_bit 21 (mask 9), pt_shift = 21, pt_bits = 9\<rparr>,
     \<lparr>pt_mask = push_bit 12 (mask 9), pt_shift = 12, pt_bits = 9\<rparr>]"
  by (simp add: mmu_pgtables_def mask_eq_exp_minus_1 push_bit_eq_mult)

lemma indexof_level: "sh + 9 \<le> 64 \<Longrightarrow> indexof a \<lparr>pt_mask = push_bit sh (mask 9), pt_shift = sh, pt_bits = n\<rparr> = unat a div 2 ^ sh mod 512"
proof -
  assume sh: "sh + 9 \<le> 64"
  have "drop_bit sh (a AND push_bit sh (mask 9)) = drop_bit sh a AND mask 9"
    using sh by (intro bit_word_eqI) (auto simp: bit_simps)
  then show ?thesis by (simp add: indexof_def unat_and_mask unat_drop_bit)
qed

lemma user_addr_div: "user_addr a \<longleftrightarrow> unat a div 2 ^ 39 = 32"
proof -
  have "user_addr a \<longleftrightarrow> 32 * 2 ^ 39 \<le> unat a \<and> unat a < 33 * 2 ^ 39"
    by (simp add: user_addr_def uvm_start_def uvm_end_def word_le_nat_alt word_less_nat_alt)
  also have "\<dots> \<longleftrightarrow> 32 \<le> unat a div 2 ^ 39 \<and> unat a div 2 ^ 39 < 33"
    by (simp add: less_eq_div_iff_mult_less_eq div_less_iff_less_mult)
  finally show ?thesis by auto
qed

lemma user_covered: "user_addr a \<Longrightarrow> covered (tl mmu_pgtables) a"
  by (simp add: covered_def levels indexof_level kids_def user_addr_div)

lemma digits_eq:
  fixes x y :: nat
  assumes "x div (512 * n) = y div (512 * n)" and "x div n mod 512 = y div n mod 512" and "0 < n"
  shows "x div n = y div n"
proof -
  have "x div n = 512 * (x div n div 512) + x div n mod 512" for x by simp
  moreover have "x div n div 512 = x div (512 * n)" for x by (simp add: div_mult2_eq mult.commute)
  ultimately show ?thesis using assms by metis
qed

lemma same_entry_page:
  assumes "user_addr a" and "user_addr b"
  shows "same_entry (tl mmu_pgtables) a b \<longleftrightarrow> baseof a = baseof b"
proof -
  have base: "baseof a = baseof b \<longleftrightarrow> unat a div 4096 = unat b div 4096"
  proof -
    have u: "unat (baseof x) = unat x div 4096 * 4096" for x
    proof -
      have "baseof x = x AND NOT (mask 12)" by (simp add: baseof_def mmu_pgsize_def mask_eq_exp_minus_1)
      then show ?thesis by (simp add: unat_and_not_mask minus_mod_eq_div_mult)
    qed
    show ?thesis unfolding word_unat_eq_iff u by simp
  qed
  let ?d = "\<lambda>k. unat a div 2 ^ k mod 512 = unat b div 2 ^ k mod 512"
  have same: "same_entry (tl mmu_pgtables) a b \<longleftrightarrow> ?d 39 \<and> ?d 30 \<and> ?d 21 \<and> ?d 12"
    by (simp add: same_entry_def levels indexof_level)
  have top: "unat a div 2 ^ 39 = unat b div 2 ^ 39" using assms by (simp add: user_addr_div)
  show ?thesis
  proof
    assume "same_entry (tl mmu_pgtables) a b"
    then have d: "?d 30" "?d 21" "?d 12" unfolding same by blast+
    have "unat a div 2 ^ 30 = unat b div 2 ^ 30" using digits_eq [of "unat a" "2 ^ 30" "unat b"] top d(1) by simp
    then have "unat a div 2 ^ 21 = unat b div 2 ^ 21" using digits_eq [of "unat a" "2 ^ 21" "unat b"] d(2) by simp
    then have "unat a div 2 ^ 12 = unat b div 2 ^ 12" using digits_eq [of "unat a" "2 ^ 12" "unat b"] d(3) by simp
    then show "baseof a = baseof b" unfolding base by simp
  next
    assume "baseof a = baseof b"
    then have e: "unat a div 4096 = unat b div 4096" unfolding base .
    have "?d (12 + k)" for k by (simp only: power_add div_mult2_eq) (simp add: e)
    from this [of 27] this [of 18] this [of 9] this [of 0] show "same_entry (tl mmu_pgtables) a b"
      unfolding same by simp
  qed
qed

section \<open>Mapping a page\<close>

definition new_entry :: "addr \<Rightarrow> u64 \<Rightarrow> u64" where
  "new_entry pa prot = (if prot = MMAP_NONE then 0
     else pa OR PTE_P OR PTE_U OR (if prot AND MMAP_WRITE \<noteq> 0 then PTE_W else 0))"

lemma rounddown_base: "rounddown a 4096 = baseof a"
  by (simp add: rounddown_def baseof_def mmu_pgsize_def)

lemma table_flags: "(PTE_W OR PTE_U) AND NOT (mask 12) = 0"
  by (simp add: PTE_W_def PTE_U_def mask_eq_exp_minus_1)

lemma ptwalk_present:
  "present (as_ptr (k_as s asp)) \<Longrightarrow> ptwalk i asp a f s = ptwalk_loop i a f (space_root s asp) (tl mmu_pgtables) s"
  by (simp add: ptwalk_def present_def space_root_def)

text \<open>What follows the first walk of \<open>map_page\<close>, in the words: the entry gets its value.\<close>

lemma entry_written:
  assumes sep: "sep w infos pt" and P: "tabs w infos pt \<subseteq> owns X"
    and g: "grown w w1 infos pt (owns X' - owns X)" and path: "path w1 infos pt a e" and a: "covered infos a" and X: "X \<subseteq> X'"
  shows "look w infos pt a = w1 e" and "path (w1(e := v)) infos pt a e" and "sep (w1(e := v)) infos pt"
    and "tabs (w1(e := v)) infos pt \<subseteq> owns X'"
    and "covered infos b \<Longrightarrow> look (w1(e := v)) infos pt b = (if same_entry infos a b then v else look w infos pt b)"
    and "only_in (tabs w infos pt \<union> (owns X' - owns X)) w (w1(e := v))"
proof -
  have t1: "tabs w1 infos pt \<subseteq> tabs w infos pt \<union> (owns X' - owns X)" using g unfolding grown_def by blast
  then have t: "tabs w1 infos pt \<subseteq> owns X'" using P owns_mono [OF X] by blast
  have s1: "sep w1 infos pt" using g unfolding grown_def by blast
  note W = write_entry [OF path s1 owns_pages [OF t] a, of v]
  show "path (w1(e := v)) infos pt a e" "sep (w1(e := v)) infos pt" "tabs (w1(e := v)) infos pt \<subseteq> owns X'" using W t by blast+
  show "look w infos pt a = w1 e" using W g a unfolding grown_def by metis
  show "look (w1(e := v)) infos pt b = (if same_entry infos a b then v else look w infos pt b)" if "covered infos b"
    using W g that unfolding grown_def by metis
  obtain q where q: "q \<in> tabs w1 infos pt" "e \<in> words_of q" using path_in_tabs [OF path a] by blast
  then have "only_in (tabs w infos pt \<union> (owns X' - owns X)) w1 (w1(e := v))" using t1 by (auto simp: only_in_def)
  moreover have "only_in (tabs w infos pt \<union> (owns X' - owns X)) w w1" using g unfolding grown_def by blast
  ultimately show "only_in (tabs w infos pt \<union> (owns X' - owns X)) w (w1(e := v))" by (rule only_in_trans [rotated])
qed

text \<open>Another space is not touched by a change within the pages of this one and new pages.\<close>

lemma other_space:
  assumes only: "only_in (space_tabs s asp \<union> (owns X' - owns X)) (k_words s) w" and ok: "space_ok s asp X"
    and oth: "space_ok s other X" and apart: "space_tabs s other \<inter> space_tabs s asp = {}" and X: "X \<subseteq> X'"
    and s': "s' = s\<lparr>k_pmm := m, k_words := w\<rparr>"
  shows "space_ok s' other X' \<and> space_tabs s' other = space_tabs s other \<and> (\<forall>b. user_addr b \<longrightarrow> pte s' other b = pte s other b)"
proof -
  have o: "space_tabs s other \<subseteq> owns X" and t: "space_tabs s asp \<subseteq> owns X" using ok oth by (simp_all add: space_ok_def)
  have "pages (space_tabs s asp \<union> (owns X' - owns X))"
    by (rule owns_pages [of _ X']) (use t owns_mono [OF X] in blast)
  moreover have "(space_tabs s asp \<union> (owns X' - owns X)) \<inter> space_tabs s other = {}" using apart o by blast
  ultimately have "agree (k_words s) w (space_tabs s other)" using only_in_agree [OF only _ owns_pages [OF o]] by blast
  then have ag: "agree (k_words s) w (tabs (k_words s) (tl mmu_pgtables) (space_root s other))" by (simp add: space_tabs_def)
  have root: "space_root s' other = space_root s other" "k_words s' = w" "k_as s' = k_as s" by (simp_all add: s' space_root_def)
  have T: "space_tabs s' other = space_tabs s other" unfolding space_tabs_def root by (rule frame_tabs [OF ag])
  moreover have "space_ok s' other X'"
    using oth frame_sep [OF ag] T o owns_mono [OF X] unfolding space_ok_def root by blast
  moreover have "pte s' other b = pte s other b" if "user_addr b" for b
    unfolding pte_def root by (rule frame_look [OF ag user_covered [OF that]])
  ultimately show ?thesis by blast
qed

lemma map_page_effect:
  assumes pmm: "pmm_holds (k_pmm s) X" and i: "i < 8" and ok: "space_ok s asp X"
  shows "if \<not> user_addr va then map_page i asp va pa prot s = Inl (Panic ''mapping an invalid address'')
    else if baseof va \<noteq> va \<or> baseof pa \<noteq> pa then map_page i asp va pa prot s = Inl (Panic ''non-page-boundary address'')
    else map_page i asp va pa prot s = Inl (Panic ''cannot allocate page'') \<or>
      (if prot = MMAP_NONE \<and> \<not> present (pte s asp va) then map_page i asp va pa prot s = Inl (Panic ''unmapping a non-mapped page'')
       else if prot \<noteq> MMAP_NONE \<and> present (pte s asp va) then map_page i asp va pa prot s = Inl (Panic ''remapping a mapped page'')
       else \<exists>m w X'. let s' = s\<lparr>k_pmm := m, k_words := w\<rparr> in
         map_page i asp va pa prot s = Inr s' \<and> pmm_holds m X' \<and> X \<subseteq> X' \<and> space_ok s' asp X' \<and>
         (\<forall>b. user_addr b \<longrightarrow> pte s' asp b = (if baseof b = va then new_entry pa prot else pte s asp b)) \<and>
         (\<forall>other. space_ok s other X \<and> space_tabs s other \<inter> space_tabs s asp = {} \<longrightarrow>
            space_ok s' other X' \<and> space_tabs s' other = space_tabs s other \<and>
            (\<forall>b. user_addr b \<longrightarrow> pte s' other b = pte s other b)))"
proof (cases "user_addr va \<and> baseof va = va \<and> baseof pa = pa")
  case False
  then show ?thesis by (auto simp: map_page_def user_addr_def rounddown_base)
next
  case True
  let ?L = "tl mmu_pgtables" and ?pt = "space_root s asp" and ?f = "PTE_W OR PTE_U" and ?w = "k_words s"
  have prs: "present (as_ptr (k_as s asp))" and sep: "sep ?w ?L ?pt" and T: "tabs ?w ?L ?pt \<subseteq> owns X"
    using ok by (simp_all add: space_ok_def space_tabs_def)
  have cov: "covered ?L va" using user_covered True by blast
  have map: "map_page i asp va pa prot s = res_bind (ptwalk i asp va ?f s) (\<lambda>(e, s1).
       res_bind
         (if prot = MMAP_NONE then
            (if k_words s1 e AND PTE_P = 0 then Inl (Panic ''unmapping a non-mapped page'')
             else Inr (s1\<lparr>k_words := (k_words s1)(e := 0)\<rparr>))
          else
            (if k_words s1 e AND PTE_P \<noteq> 0 then Inl (Panic ''remapping a mapped page'')
             else Inr (s1\<lparr>k_words := (k_words s1)(e := pa OR PTE_P OR PTE_U OR (if prot AND MMAP_WRITE \<noteq> 0 then PTE_W else 0))\<rparr>)))
         (\<lambda>s2. res_bind (ptwalk i asp va ?f s2) (\<lambda>(_, s3). Inr s3)))"
    using True by (simp add: map_page_def user_addr_def rounddown_base)
  have "walked va ?L ?pt s X (ptwalk i asp va ?f s)"
    unfolding ptwalk_present [OF prs] by (rule walk_grows [OF _ pmm i sep T cov table_flags]) (simp add: mmu_pgtables_def)
  then consider (mem) "ptwalk i asp va ?f s = Inl (Panic ''cannot allocate page'')"
    | (ok) e m w X' where "ptwalk i asp va ?f s = Inr (e, s\<lparr>k_pmm := m, k_words := w\<rparr>)" "pmm_holds m X'" "X \<subseteq> X'"
        "grown ?w w ?L ?pt (owns X' - owns X)" "path w ?L ?pt va e"
    unfolding walked_def by blast
  then show ?thesis
  proof cases
    case mem
    then show ?thesis using True by (simp add: map)
  next
    case ok
    note W = entry_written [OF sep T ok(4,5) cov ok(3)]
    have old: "pte s asp va = w e" using W(1) by (simp add: pte_def)
    let ?v = "new_entry pa prot"
    let ?s' = "s\<lparr>k_pmm := m, k_words := w(e := ?v)\<rparr>"
    have root: "space_root ?s' asp = ?pt" "k_as ?s' = k_as s" by (simp_all add: space_root_def)
    have again: "ptwalk i asp va ?f ?s' = Inr (e, ?s')"
      using prs walk_path [of ?s' ?L ?pt va e] W(2) by (simp add: ptwalk_present root)
    show ?thesis
    proof (cases "prot = MMAP_NONE \<longleftrightarrow> present (pte s asp va)")
      case False
      then show ?thesis using True ok(1) old by (auto simp: map present_def)
    next
      case match: True
      have res: "map_page i asp va pa prot s = Inr ?s'"
        using match ok(1) old again by (auto simp: map present_def new_entry_def)
      have "space_ok ?s' asp X'" using prs W(3,4) by (simp add: space_ok_def space_tabs_def root)
      moreover have "pte ?s' asp b = (if baseof b = va then ?v else pte s asp b)" if "user_addr b" for b
        using W(5) [OF user_covered [OF that], of ?v] same_entry_page [of va b] True that by (auto simp: pte_def root)
      moreover have only: "only_in (space_tabs s asp \<union> (owns X' - owns X)) ?w (w(e := ?v))" using W(6) by (simp add: space_tabs_def)
      moreover have "space_ok ?s' other X' \<and> space_tabs ?s' other = space_tabs s other \<and> (\<forall>b. user_addr b \<longrightarrow> pte ?s' other b = pte s other b)"
        if "space_ok s other X" "space_tabs s other \<inter> space_tabs s asp = {}" for other
        by (rule other_space [OF only assms(3) that ok(3) refl])
      ultimately have "\<exists>m w X'. let s' = s\<lparr>k_pmm := m, k_words := w\<rparr> in
         map_page i asp va pa prot s = Inr s' \<and> pmm_holds m X' \<and> X \<subseteq> X' \<and> space_ok s' asp X' \<and>
         (\<forall>b. user_addr b \<longrightarrow> pte s' asp b = (if baseof b = va then ?v else pte s asp b)) \<and>
         (\<forall>other. space_ok s other X \<and> space_tabs s other \<inter> space_tabs s asp = {} \<longrightarrow>
            space_ok s' other X' \<and> space_tabs s' other = space_tabs s other \<and>
            (\<forall>b. user_addr b \<longrightarrow> pte s' other b = pte s other b))"
        using res ok(2,3) unfolding Let_def by blast
      then show ?thesis using True match by (simp add: Let_def)
    qed
  qed
qed

text \<open>A page that is not mapped, mapped.\<close>

lemma map_page_maps:
  assumes "pmm_holds (k_pmm s) X" and "i < 8" and "space_ok s asp X"
    and "user_addr va" and "baseof va = va" and "baseof pa = pa" and "prot \<noteq> MMAP_NONE" and "\<not> present (pte s asp va)"
  shows "map_page i asp va pa prot s = Inl (Panic ''cannot allocate page'') \<or>
    (\<exists>m w X'. map_page i asp va pa prot s = Inr (s\<lparr>k_pmm := m, k_words := w\<rparr>) \<and> pmm_holds m X' \<and> X \<subseteq> X' \<and>
       space_ok (s\<lparr>k_pmm := m, k_words := w\<rparr>) asp X' \<and>
       (\<forall>b. user_addr b \<longrightarrow> pte (s\<lparr>k_pmm := m, k_words := w\<rparr>) asp b = (if baseof b = va then new_entry pa prot else pte s asp b)))"
  using map_page_effect [OF assms(1-3), of va pa prot] assms(4-8) unfolding Let_def by (simp split del: if_split) blast

text \<open>The state of the page tables depends on the memory and the address spaces only.\<close>

lemma space_cong:
  assumes "k_words s' = k_words s" and "k_as s' = k_as s"
  shows "space_ok s' asp X = space_ok s asp X" "pte s' asp b = pte s asp b"
  using assms by (simp_all add: space_ok_def space_tabs_def pte_def space_root_def)

lemma space_more: "space_ok s asp X \<Longrightarrow> X \<subseteq> Y \<Longrightarrow> space_ok s asp Y"
  unfolding space_ok_def using owns_mono by blast

text \<open>
  C8: the page tables of a process are a map from pages to entries, and \<open>map_page\<close> (\<open>map\<close> of
  \<open>vme.c\<close>) updates it at one page: it makes the tables it needs from new pages of the memory manager,
  after which the hardware finds the new entry for every address of the page, and what it found
  before for every other address. No table of another address space changes. It panics for an
  address that is not the user's, for one that is not a page's, without memory, and when a mapped
  page is mapped or an unmapped one unmapped.
\<close>

theorem map_page_updates_map:
  assumes pmm: "pmm_holds (k_pmm s) X" and i: "i < 8" and ok: "space_ok s asp X"
  shows "if \<not> user_addr va then map_page i asp va pa prot s = Inl (Panic ''mapping an invalid address'')
    else if baseof va \<noteq> va \<or> baseof pa \<noteq> pa then map_page i asp va pa prot s = Inl (Panic ''non-page-boundary address'')
    else map_page i asp va pa prot s = Inl (Panic ''cannot allocate page'') \<or>
      (if prot = MMAP_NONE \<and> \<not> present (pte s asp va) then map_page i asp va pa prot s = Inl (Panic ''unmapping a non-mapped page'')
       else if prot \<noteq> MMAP_NONE \<and> present (pte s asp va) then map_page i asp va pa prot s = Inl (Panic ''remapping a mapped page'')
       else \<exists>m w X'. let s' = s\<lparr>k_pmm := m, k_words := w\<rparr> in
         map_page i asp va pa prot s = Inr s' \<and> pmm_holds m X' \<and> X \<subseteq> X' \<and> space_ok s' asp X' \<and>
         (\<forall>b. user_addr b \<longrightarrow> pte s' asp b = (if baseof b = va then new_entry pa prot else pte s asp b)) \<and>
         (\<forall>other. space_ok s other X \<and> space_tabs s other \<inter> space_tabs s asp = {} \<longrightarrow>
            space_ok s' other X' \<and> space_tabs s' other = space_tabs s other \<and>
            (\<forall>b. user_addr b \<longrightarrow> pte s' other b = pte s other b)))"
  by (rule map_page_effect [OF assms])

text \<open>A machine with an address space whose root is a page of the memory manager, without entries.\<close>

lemma space_example_in:
  "\<exists>m p X. let s = (k :: kern)\<lparr>k_pmm := m, k_as := (\<lambda>_. \<lparr>as_pgsize = 4096, as_start = uvm_start, as_end = uvm_end,
     as_ptr = p\<rparr>), k_words := \<lambda>_. 0\<rparr> in
     pmm_holds m X \<and> space_ok s 0x7000 X \<and> (\<forall>b. user_addr b \<longrightarrow> pte s 0x7000 b = 0)"
proof -
  obtain m and p q :: addr where m: "pmm_holds m {(unat p, 2 ^ 24), (unat q, 2 ^ 24)}" using two_held_example by blast
  let ?s = "k\<lparr>k_pmm := m, k_as := (\<lambda>_. \<lparr>as_pgsize = 4096, as_start = uvm_start, as_end = uvm_end,
     as_ptr = p OR (PTE_P OR PTE_U)\<rparr>), k_words := \<lambda>_. 0\<rparr>"
  have p: "is_page p" using held_page [OF m, of "unat p" "2 ^ 24"] by (simp add: is_page_def)
  have "(PTE_P OR PTE_U) AND NOT (mask 12) = 0" by (simp add: PTE_P_def PTE_U_def mask_eq_exp_minus_1)
  then have root: "space_root ?s 0x7000 = p" using baseof_entry [OF p] by (simp add: space_root_def)
  have ne: "tl mmu_pgtables \<noteq> []" by (simp add: mmu_pgtables_def)
  have z: "\<forall>x\<in>words_of p. (\<lambda>_. 0 :: u64) x = 0" by simp
  note zt = zero_tree [where w = "\<lambda>_. 0", OF z ne]
  have "p \<in> owns {(unat p, 2 ^ 24), (unat q, 2 ^ 24)}" unfolding owns_def using p by (auto intro: exI [of _ 16777216])
  then have "space_ok ?s 0x7000 {(unat p, 2 ^ 24), (unat q, 2 ^ 24)}"
    using zt(1,2) present_entry [of p PTE_U] by (simp add: space_ok_def space_tabs_def root)
  moreover have "pte ?s 0x7000 b = 0" if "user_addr b" for b
    using zt(3) [OF user_covered [OF that]] by (simp add: pte_def root)
  moreover have "pmm_holds (k_pmm ?s) {(unat p, 2 ^ 24), (unat q, 2 ^ 24)}" using m by simp
  ultimately show ?thesis unfolding Let_def by auto
qed

lemma space_example:
  "\<exists>s X. pmm_holds (k_pmm s) X \<and> space_ok s 0x7000 X \<and> (\<forall>b. user_addr b \<longrightarrow> pte s 0x7000 b = 0)"
proof -
  obtain m p X where "let s = (undefined :: kern)\<lparr>k_pmm := m, k_as := (\<lambda>_. \<lparr>as_pgsize = 4096, as_start = uvm_start, as_end = uvm_end,
     as_ptr = p\<rparr>), k_words := \<lambda>_. 0\<rparr> in
     pmm_holds m X \<and> space_ok s 0x7000 X \<and> (\<forall>b. user_addr b \<longrightarrow> pte s 0x7000 b = 0)"
    using space_example_in by blast
  moreover define s where "s = (undefined :: kern)\<lparr>k_pmm := m, k_as := (\<lambda>_. \<lparr>as_pgsize = 4096, as_start = uvm_start, as_end = uvm_end,
     as_ptr = p\<rparr>), k_words := \<lambda>_. 0\<rparr>"
  ultimately have "pmm_holds (k_pmm s) X" "space_ok s 0x7000 X" "\<forall>b. user_addr b \<longrightarrow> pte s 0x7000 b = 0"
    unfolding Let_def by (auto simp: s_def)
  then show ?thesis by blast
qed

theorem map_page_updates_map_witness:
  "\<exists>s X. pmm_holds (k_pmm s) X \<and> space_ok s 0x7000 X \<and>
     (map_page 0 0x7000 0x100000000000 0x5000 MMAP_READ s = Inl (Panic ''cannot allocate page'') \<or>
      (\<exists>s'. map_page 0 0x7000 0x100000000000 0x5000 MMAP_READ s = Inr s' \<and>
         pte s' 0x7000 0x100000000123 = 0x5005 \<and> pte s' 0x7000 0x100000001123 = 0))"
proof -
  obtain s X where s: "pmm_holds (k_pmm s) X" "space_ok s 0x7000 X" "\<forall>b. user_addr b \<longrightarrow> pte s 0x7000 b = 0"
    using space_example by blast
  have u: "user_addr 0x100000000000" "user_addr 0x100000000123" "user_addr 0x100000001123"
    by (simp_all add: user_addr_def uvm_start_def uvm_end_def)
  have b: "baseof 0x100000000000 = 0x100000000000" "baseof 0x5000 = 0x5000" "baseof 0x100000000123 = 0x100000000000"
    "baseof 0x100000001123 = 0x100000001000" by (simp_all add: baseof_def mmu_pgsize_def)
  have r: "MMAP_READ \<noteq> MMAP_NONE" by (simp add: MMAP_READ_def MMAP_NONE_def)
  have n: "\<not> present (pte s 0x7000 0x100000000000)" using s(3) u(1) by (simp add: present_def)
  have e: "new_entry 0x5000 MMAP_READ = 0x5005"
    using r by (simp add: new_entry_def PTE_P_def PTE_U_def MMAP_READ_def MMAP_WRITE_def)
  note M = map_page_updates_map [OF s(1) _ s(2), of 0 "0x100000000000" "0x5000" MMAP_READ]
  have "map_page 0 0x7000 0x100000000000 0x5000 MMAP_READ s = Inl (Panic ''cannot allocate page'') \<or>
      (\<exists>s'. map_page 0 0x7000 0x100000000000 0x5000 MMAP_READ s = Inr s' \<and>
         (\<forall>b. user_addr b \<longrightarrow> pte s' 0x7000 b = (if baseof b = 0x100000000000 then 0x5005 else pte s 0x7000 b)))"
    using M u(1) b(1,2) r n unfolding Let_def e by (simp split del: if_split) blast
  moreover have "pte s' 0x7000 0x100000000123 = 0x5005 \<and> pte s' 0x7000 0x100000001123 = 0"
    if "\<forall>b. user_addr b \<longrightarrow> pte s' 0x7000 b = (if baseof b = 0x100000000000 then 0x5005 else pte s 0x7000 b)" for s'
    using that [rule_format, OF u(2)] that [rule_format, OF u(3)] s(3) [rule_format, OF u(3)] b(3,4) by simp
  ultimately show ?thesis using s(1,2) by blast
qed

section \<open>A new address space\<close>

lemma copy_kernel_one:
  "copy_kernel kpt pt (mmu_pgtables ! 1) kvm_start w 512 = w(entry_addr pt 0 := w (entry_addr kpt 0))"
proof -
  have "(512 :: nat) = Suc (Suc 510)" by simp
  then show ?thesis
    by (simp only: copy_kernel.simps) (simp add: kvm_start_def kvm_end_def indexof_def mmu_pgtables_def push_bit_eq_mult Let_def)
qed

text \<open>
  C38: \<open>protect\<close> makes a new address space: it panics without memory, and otherwise its tables are one
  new page, the entry of the kernel's area is the kernel's own, no user address is mapped, and the
  tables of every other space are as before.
\<close>

theorem protect_makes_empty_space:
  assumes pmm: "pmm_holds (k_pmm s) X" and i: "i < 8"
  shows "protect i asp s = Inl (Panic ''cannot allocate page'') \<or>
    (\<exists>s' X'. protect i asp s = Inr s' \<and> pmm_holds (k_pmm s') X' \<and> X \<subseteq> X' \<and> space_ok s' asp X' \<and>
       space_tabs s' asp \<inter> owns X = {} \<and> (\<forall>b. user_addr b \<longrightarrow> pte s' asp b = 0) \<and>
       (space_root s' asp \<noteq> PML4_ADDR \<longrightarrow> k_words s' (entry_addr (space_root s' asp) 0) = k_words s (entry_addr PML4_ADDR 0)) \<and>
       (\<forall>other b. other \<noteq> asp \<longrightarrow> space_ok s other X \<longrightarrow> space_ok s' other X' \<and> (user_addr b \<longrightarrow> pte s' other b = pte s other b)))"
  using pgallocz_cases [OF pmm i]
proof (elim disjE exE conjE, goal_cases)
  case 1
  then show ?case by (simp add: protect_def)
next
  case (2 p m X')
  let ?w = "(clear_words 512 p (k_words s))(entry_addr p 0 := clear_words 512 p (k_words s) (entry_addr PML4_ADDR 0))"
  let ?s = "s\<lparr>k_pmm := m, k_words := ?w, k_as := (k_as s)(asp := \<lparr>as_pgsize = word_of_int mmu_pgsize, as_start = uvm_start,
     as_end = uvm_end, as_ptr = p OR (PTE_P OR PTE_U)\<rparr>)\<rparr>"
  have res: "protect i asp s = Inr ?s"
    using 2(1) by (simp add: protect_def copy_kernel_one [unfolded One_nat_def] Let_def or.assoc)
  have p: "is_page p" using 2(4) by (simp add: owns_def)
  have fl: "(PTE_P OR PTE_U) AND NOT (mask 12) = 0" by (simp add: PTE_P_def PTE_U_def mask_eq_exp_minus_1)
  have root: "space_root ?s asp = p" using baseof_entry [OF p fl] by (simp add: space_root_def)
  have e: "?w (entry_addr p j) = 0" if "j < 512" "j \<noteq> 0" for j
    using cleared [OF entry_in_words [OF that(1)], of p] entry_addr_eq(2) [OF p p that(1), of 0] that(2) by auto
  have "\<forall>j\<in>kids (hd (tl mmu_pgtables)). ?w (entry_addr p j) = 0" using e by (auto simp: kids_def levels)
  note et = empty_tree [OF this]
  have ne: "tl mmu_pgtables \<noteq> []" by (simp add: mmu_pgtables_def)
  have tabs: "space_tabs ?s asp = {p}" using et(1) [OF ne] by (simp add: space_tabs_def root del: fun_upd_apply)
  have ok: "space_ok ?s asp X'" using et(2) [OF ne] 2(4) tabs present_entry [of p PTE_U] by (simp add: space_ok_def root fun_upd_same del: fun_upd_apply)
  have free: "pte ?s asp b = 0" if "user_addr b" for b using et(3) [OF ne user_covered [OF that]] by (simp add: pte_def root del: fun_upd_apply)
  have kern: "?w (entry_addr p 0) = k_words s (entry_addr PML4_ADDR 0)" if "p \<noteq> PML4_ADDR"
  proof -
    have "is_page PML4_ADDR" by (simp add: is_page_def PML4_ADDR_def)
    then have "entry_addr PML4_ADDR 0 \<notin> words_of p"
      using words_apart [OF _ p, of PML4_ADDR] that entry_in_words [of 0 PML4_ADDR] by auto
    then show ?thesis using not_cleared by simp
  qed
  have only: "only_in {p} (k_words s) ?w" using not_cleared entry_in_words [of 0 p] by (auto simp: only_in_def)
  have other: "space_ok ?s other X' \<and> (user_addr b \<longrightarrow> pte ?s other b = pte s other b)"
    if o: "other \<noteq> asp" "space_ok s other X" for other b
  proof -
    have r: "space_root ?s other = space_root s other" "k_as ?s other = k_as s other" using o(1) by (simp_all add: space_root_def)
    have t: "space_tabs s other \<subseteq> owns X" using o(2) by (simp add: space_ok_def)
    then have "{p} \<inter> space_tabs s other = {}" using 2(5) by blast
    then have "agree (k_words s) ?w (space_tabs s other)"
      using only_in_agree [OF only _ owns_pages [OF t]] p by (simp add: pages_def)
    then have ag: "agree (k_words s) ?w (tabs (k_words s) (tl mmu_pgtables) (space_root s other))" by (simp add: space_tabs_def)
    have kw: "k_words ?s = ?w" by simp
    have "space_tabs ?s other = space_tabs s other" unfolding space_tabs_def r kw by (rule frame_tabs [OF ag])
    then have "space_ok ?s other X'"
      using o(2) frame_sep [OF ag] t owns_mono [OF 2(3)] unfolding space_ok_def r kw by blast
    moreover have "pte ?s other b = pte s other b" if "user_addr b"
      unfolding pte_def r kw by (rule frame_look [OF ag user_covered [OF that]])
    ultimately show ?thesis by blast
  qed
  have "k_pmm ?s = m" and kw: "k_words ?s = ?w" by simp_all
  have "space_root ?s asp \<noteq> PML4_ADDR \<longrightarrow> k_words ?s (entry_addr (space_root ?s asp) 0) = k_words s (entry_addr PML4_ADDR 0)"
    unfolding root kw using kern by blast
  then show ?case using res 2(2,3,5) ok tabs free other \<open>k_pmm ?s = m\<close>
    by (intro disjI2 exI [of _ ?s] exI [of _ X'] conjI allI impI) (simp_all del: fun_upd_apply)
qed

theorem protect_makes_empty_space_witness:
  "\<exists>s X. pmm_holds (k_pmm s) X \<and> (protect 0 0x9000 s = Inl (Panic ''cannot allocate page'') \<or>
     (\<exists>s'. protect 0 0x9000 s = Inr s' \<and> pte s' 0x9000 0x100000000000 = 0))"
proof -
  obtain s :: kern and X where s: "pmm_holds (k_pmm s) X" using space_example by blast
  have "user_addr 0x100000000000" by (simp add: user_addr_def uvm_start_def uvm_end_def)
  then show ?thesis using protect_makes_empty_space [OF s, of 0 "0x9000"] s by auto
qed

end
