(* ===== verification/Pf_Props.thy ===== *)
theory Pf_Props
  imports Vm_Props Pt_Spec
begin

text \<open>
  Demand paging (\<open>page_fault\<close> of \<open>kernel/src/uproc.c\<close>): a fault at an address of an area whose page is not
  mapped yet takes a page of the memory manager and enters it in the page tables.
\<close>

lemma kern_fields [simp]:
  "k_words (set_cpu i c s) = k_words s" "k_as (set_cpu i c s) = k_as s" "k_pmm (set_cpu i c s) = k_pmm s"
  "k_words (upd_task t f s) = k_words s" "k_as (upd_task t f s) = k_as s" "k_pmm (upd_task t f s) = k_pmm s"
  by (simp_all add: set_cpu_def upd_task_def)

lemma cpu_of_pmm [simp]: "cpu_of (s\<lparr>k_pmm := m\<rparr>) i = cpu_of s i" "cpu_of (s\<lparr>k_pmm := m, k_words := w\<rparr>) i = cpu_of s i"
  by (simp_all add: cpu_of_def)

lemma unlock_mp_held:
  assumes "i < length (k_cpus s)" and "cpu_ok c" and "same_cpu (push_off c) (cpu_of s i)"
    and "lock_word (mp_lock (k_tasks s t)) \<noteq> 0" and "lock_cpu (mp_lock (k_tasks s t)) = int i"
  shows "\<exists>d. unlock_mp i t s = Inr (upd_task t (\<lambda>tk. tk\<lparr>mp_lock := (mp_lock tk)\<lparr>lock_word := 0, lock_cpu := -1\<rparr>\<rparr>) (set_cpu i d s)) \<and>
     same_cpu c d"
proof -
  obtain d where "kmt_spin_unlock i (cpu_of s i) (mp_lock (k_tasks s t)) =
      Inr (d, (mp_lock (k_tasks s t))\<lparr>lock_word := 0, lock_cpu := -1\<rparr>)" "same_cpu c d"
    using kmt_spin_unlock_held [OF assms(2-5)] by blast
  then show ?thesis by (auto simp: unlock_mp_def release_def upd_task_def)
qed

text \<open>A page of the memory manager, or none.\<close>

lemma palloc_page:
  assumes "pmm_holds (k_pmm s) X" and "i < 8" and "i < length (k_cpus s)"
  obtains p m X' where "palloc i 4096 s = Inr (p, s\<lparr>k_pmm := m\<rparr>)" "pmm_holds m X'" "X \<subseteq> X'" "baseof p = p"
    "p = 0 \<or> p \<in> owns X' \<and> p \<notin> owns X"
proof -
  obtain p m where r: "palloc i 4096 s = Inr (p, s\<lparr>k_pmm := m\<rparr>)"
    and p: "p = 0 \<and> pmm_holds m X \<or> p \<noteq> 0 \<and> (\<exists>len. 4096 \<le> len \<and> (unat p, len) \<notin> X \<and> pmm_holds m (insert (unat p, len) X))"
    using palloc_cases [OF assms(1,2), of 4096] set_cpu_same [OF assms(3)] by auto
  show ?thesis
  proof (cases "p = 0")
    case True
    then show ?thesis using that [OF r, of X] p by (simp add: baseof_def)
  next
    case False
    then obtain len where len: "4096 \<le> len" "(unat p, len) \<notin> X" "pmm_holds m (insert (unat p, len) X)" using p by blast
    have pg: "is_page p" using held_page [OF len(3) _ len(1)] by (simp add: is_page_def)
    then have "p \<in> owns (insert (unat p, len) X)" using len(1) unfolding owns_def by blast
    moreover have "p \<notin> owns X"
    proof
      assume "p \<in> owns X"
      then obtain l where l: "4096 \<le> l" "(unat p, l) \<in> X" unfolding owns_def by blast
      then have "l = len" using held_once [OF len(3), of "unat p" l len] len(1) by auto
      then show False using l(2) len(2) by simp
    qed
    moreover have "baseof p = p" using pg by (simp add: baseof_page)
    ultimately show ?thesis using that [OF r len(3)] by blast
  qed
qed

text \<open>A page entered in the list and in the tables of the current process.\<close>

lemma pgmap_maps:
  assumes pmm: "pmm_holds (k_pmm s) X" and i: "i < 8" "i < length (k_cpus s)" and ok: "space_ok s (t_as (k_tasks s t)) X"
    and va: "user_addr va" "baseof va = va" "\<not> present (pte s (t_as (k_tasks s t)) va)" and pa: "baseof pa = pa"
    and prot: "convert_mmap_prot_to_vm_prot prot \<noteq> MMAP_NONE"
  shows "pgmap i t va pa prot False s \<in> {Inl Undefined, Inl (Panic ''cannot allocate page'')} \<or>
    (\<exists>node m w X'. let s' = (upd_task t (mapped_pages_update (\<lambda>l. (node, \<lparr>mp_as = t_as (k_tasks s t), mp_va = va, mp_pa = pa\<rparr>) # l)) s)
         \<lparr>k_pmm := m, k_words := w\<rparr> in
       pgmap i t va pa prot False s = Inr s' \<and> pmm_holds m X' \<and> X \<subseteq> X' \<and> space_ok s' (t_as (k_tasks s t)) X' \<and>
       (\<forall>b. user_addr b \<longrightarrow> pte s' (t_as (k_tasks s t)) b =
          (if baseof b = va then new_entry pa (convert_mmap_prot_to_vm_prot prot) else pte s (t_as (k_tasks s t)) b)))"
proof -
  let ?asp = "t_as (k_tasks s t)"
  obtain node m X1 where r: "palloc i M_PAGE_SIZE s = Inr (node, s\<lparr>k_pmm := m\<rparr>)" and X1: "pmm_holds m X1" "X \<subseteq> X1"
    using palloc_cases [OF pmm i(1), of M_PAGE_SIZE] set_cpu_same [OF i(2)] by (metis subset_insertI subset_refl)
  show ?thesis
  proof (cases "node = 0")
    case True
    then show ?thesis using r by (simp add: pgmap_def new_mapped_page_def)
  next
    case False
    let ?add = "upd_task t (mapped_pages_update (\<lambda>l. (node, \<lparr>mp_as = ?asp, mp_va = va, mp_pa = pa\<rparr>) # l))"
    let ?s3 = "?add (s\<lparr>k_pmm := m\<rparr>)"
    have pg: "pgmap i t va pa prot False s = map_page i ?asp va pa (convert_mmap_prot_to_vm_prot prot) ?s3"
      using r False by (simp add: pgmap_def new_mapped_page_def insert_map_page_def Let_def)
    have same: "space_ok ?s3 ?asp X = space_ok s ?asp X" "pte ?s3 ?asp b = pte s ?asp b" for b
      by (rule space_cong; simp)+
    have ok3: "space_ok ?s3 ?asp X1" by (rule space_more [OF _ X1(2)]) (simp add: same ok)
    have "pmm_holds (k_pmm ?s3) X1" using X1(1) by simp
    then consider "map_page i ?asp va pa (convert_mmap_prot_to_vm_prot prot) ?s3 = Inl (Panic ''cannot allocate page'')"
      | m2 w X2 where "map_page i ?asp va pa (convert_mmap_prot_to_vm_prot prot) ?s3 = Inr (?s3\<lparr>k_pmm := m2, k_words := w\<rparr>)"
        "pmm_holds m2 X2" "X1 \<subseteq> X2" "space_ok (?s3\<lparr>k_pmm := m2, k_words := w\<rparr>) ?asp X2"
        "\<forall>b. user_addr b \<longrightarrow> pte (?s3\<lparr>k_pmm := m2, k_words := w\<rparr>) ?asp b =
           (if baseof b = va then new_entry pa (convert_mmap_prot_to_vm_prot prot) else pte ?s3 ?asp b)"
      using map_page_maps [of ?s3 X1 i ?asp va pa "convert_mmap_prot_to_vm_prot prot"] i(1) ok3 va pa prot by (auto simp: same)
    then show ?thesis
    proof cases
      case 1
      then show ?thesis using pg by simp
    next
      case 2
      have eq: "?s3\<lparr>k_pmm := m2, k_words := w\<rparr> = (?add s)\<lparr>k_pmm := m2, k_words := w\<rparr>" by (simp add: upd_task_def)
      show ?thesis
        using 2 X1(2) unfolding pg eq Let_def same
        by (intro disjI2 exI [of _ node] exI [of _ m2] exI [of _ w] exI [of _ X2]) auto
    qed
  qed
qed

section \<open>The handler\<close>

text \<open>
  What a fault leaves behind: the page \<open>pa\<close> is entered for \<open>va\<close> and nothing else changes for the process,
  the other tasks or the locks.
\<close>

definition paged_in :: "nat \<Rightarrow> addr \<Rightarrow> addr \<Rightarrow> addr \<Rightarrow> u64 \<Rightarrow> kern \<Rightarrow> kern \<Rightarrow> bool" where
  "paged_in i t va pa prot s s' \<longleftrightarrow>
     (\<exists>node. mapped_pages (k_tasks s' t) = (node, \<lparr>mp_as = t_as (k_tasks s t), mp_va = va, mp_pa = pa\<rparr>) # mapped_pages (k_tasks s t)) \<and>
     vm_areas (k_tasks s' t) = vm_areas (k_tasks s t) \<and> lock_free (vme_lock (k_tasks s' t)) \<and> lock_free (mp_lock (k_tasks s' t)) \<and>
     same_cpu (cpu_of s i) (cpu_of s' i) \<and> (\<forall>u. u \<noteq> t \<longrightarrow> k_tasks s' u = k_tasks s u) \<and>
     (\<forall>b. user_addr b \<longrightarrow> pte s' (t_as (k_tasks s t)) b = (if baseof b = va then new_entry pa prot else pte s (t_as (k_tasks s t)) b))"


text \<open>A process with one writable area of a page, none of which is mapped.\<close>

definition fault_kern :: kern where
  "fault_kern = one_running\<lparr>k_tasks := (k_tasks one_running)(12288 := (ready_task 3 1)\<lparr>t_as := 0x7000, vm_areas :=
     [(0x9000, \<lparr>vm_start = 0x100000001000, vm_end = 0x100000002000, vm_as = 0x7000, vm_prot = 6, vm_flags = 2\<rparr>)]\<rparr>)\<rparr>"


end
