(* ===== verification/Ring.thy ===== *)
theory Ring
  imports JYY_Prelude
begin

text \<open>
  Queues. The devices keep theirs in an array with a front and a rear index that wrap around; here
  are the contents of such an array as a list, what writing and advancing an index do to it, and
  the contract of a queue of which the drivers' queues and the kernel's list of free process
  numbers are instances.
\<close>

section \<open>Circular arrays\<close>

definition ring :: "'a list \<Rightarrow> nat \<Rightarrow> nat \<Rightarrow> 'a list" where
  "ring xs f r = map (\<lambda>k. xs ! ((f + k) mod length xs)) [0..<(r + length xs - f) mod length xs]"

definition ring_len :: "nat \<Rightarrow> nat \<Rightarrow> nat \<Rightarrow> nat" where
  "ring_len n f r = (r + n - f) mod n"

lemma ring_len_eq: "f < n \<Longrightarrow> r < n \<Longrightarrow> ring_len n f r = (if f \<le> r then r - f else r + n - f)"
  by (auto simp: ring_len_def mod_if)

lemma length_ring: "length (ring xs f r) = ring_len (length xs) f r"
  by (simp add: ring_def ring_len_def)

lemma ring_empty_iff: "f < length xs \<Longrightarrow> r < length xs \<Longrightarrow> ring xs f r = [] \<longleftrightarrow> f = r"
  by (auto simp: length_ring ring_len_eq simp flip: length_0_conv)

lemma ring_nth: "k < ring_len (length xs) f r \<Longrightarrow> ring xs f r ! k = xs ! ((f + k) mod length xs)"
  by (simp add: ring_def ring_len_def)

lemma ring_step: "(if Suc r = n then 0 else Suc r) = Suc r mod n" if "r < n"
  using that by auto

lemma ring_index:
  assumes "f < n" "r < n" "k < ring_len n f r"
  shows "(f + k) mod n \<noteq> r" "(f + k) mod n < n"
proof -
  have "f + k < 2 * n" using assms by (auto simp: ring_len_eq split: if_splits)
  then have "(f + k) mod n = (if f + k < n then f + k else f + k - n)" by (auto simp: mod_if)
  then show "(f + k) mod n \<noteq> r" using assms by (auto simp: ring_len_eq split: if_splits)
  show "(f + k) mod n < n" using assms(1) by simp
qed

lemma ring_other:
  "f < length xs \<Longrightarrow> r < length xs \<Longrightarrow> k < ring_len (length xs) f r \<Longrightarrow>
   xs[r := v] ! ((f + k) mod length xs) = xs ! ((f + k) mod length xs)"
  by (metis ring_index(1) nth_list_update_neq)

lemma ring_update_rear: "f < length xs \<Longrightarrow> r < length xs \<Longrightarrow> ring (xs[r := v]) f r = ring xs f r"
  by (rule nth_equalityI) (simp_all add: length_ring ring_nth ring_other)

lemma ring_len_suc:
  assumes "f < n" "r < n" "Suc r mod n \<noteq> f"
  shows "ring_len n f (Suc r mod n) = Suc (ring_len n f r)"
proof -
  have "Suc r mod n = (if Suc r = n then 0 else Suc r)" using assms(2) by simp
  then show ?thesis using assms by (auto simp: ring_len_eq split: if_splits)
qed

lemma ring_push:
  assumes "f < length xs" "r < length xs" "Suc r mod length xs \<noteq> f"
  shows "ring (xs[r := v]) f (Suc r mod length xs) = ring xs f r @ [v]"
proof (rule nth_equalityI)
  show len: "length (ring (xs[r := v]) f (Suc r mod length xs)) = length (ring xs f r @ [v])"
    by (simp add: length_ring ring_len_suc [OF assms])
  fix k assume "k < length (ring (xs[r := v]) f (Suc r mod length xs))"
  then have k: "k < Suc (ring_len (length xs) f r)" by (simp add: length_ring ring_len_suc [OF assms])
  have at_r: "(f + ring_len (length xs) f r) mod length xs = r"
    using assms by (auto simp: ring_len_eq)
  show "ring (xs[r := v]) f (Suc r mod length xs) ! k = (ring xs f r @ [v]) ! k"
  proof (cases "k = ring_len (length xs) f r")
    case True
    then show ?thesis using assms k at_r by (simp add: ring_nth ring_len_suc nth_append length_ring)
  next
    case False
    then have "k < ring_len (length xs) f r" using k by simp
    then show ?thesis using assms
      by (simp add: ring_other ring_nth ring_len_suc nth_append length_ring)
  qed
qed

lemma ring_pop:
  assumes "f < length xs" "r < length xs" "f \<noteq> r"
  shows "ring xs f r = xs ! f # ring xs (Suc f mod length xs) r"
proof -
  have s: "Suc f mod length xs = (if Suc f = length xs then 0 else Suc f)" using assms(1) by simp
  have l: "ring_len (length xs) f r = Suc (ring_len (length xs) (Suc f mod length xs) r)"
    unfolding s using assms by (simp add: ring_len_eq) (auto simp: ring_len_def)
  show ?thesis
  proof (rule nth_equalityI)
    show "length (ring xs f r) = length (xs ! f # ring xs (Suc f mod length xs) r)" using l by (simp add: length_ring)
    fix k assume k: "k < length (ring xs f r)"
    show "ring xs f r ! k = (xs ! f # ring xs (Suc f mod length xs) r) ! k"
    proof (cases k)
      case 0
      then show ?thesis using k assms(1) by (simp add: ring_nth length_ring)
    next
      case (Suc j)
      then have "(f + k) mod length xs = (Suc f mod length xs + j) mod length xs" by (simp add: mod_simps)
      then show ?thesis using k l Suc by (simp add: ring_nth length_ring)
    qed
  qed
qed

text \<open>The index before \<open>r\<close>.\<close>

definition ring_pred :: "nat \<Rightarrow> nat \<Rightarrow> nat" where
  "ring_pred n r = (if r = 0 then n else r) - 1"

lemma ring_pred_suc: "r < n \<Longrightarrow> Suc (ring_pred n r) mod n = r" "r < n \<Longrightarrow> ring_pred n r < n"
  by (auto simp: ring_pred_def)

lemma ring_unpush:
  assumes "f < length xs" "r < length xs" "f \<noteq> r"
  shows "ring xs f r = ring xs f (ring_pred (length xs) r) @ [xs ! ring_pred (length xs) r]"
proof -
  let ?p = "ring_pred (length xs) r"
  have "ring (xs[?p := xs ! ?p]) f (Suc ?p mod length xs) = ring xs f ?p @ [xs ! ?p]"
    using assms by (intro ring_push) (simp_all add: ring_pred_suc)
  then show ?thesis using assms(2) by (simp add: ring_pred_suc)
qed

section \<open>The contract of a queue\<close>

fun put_all :: "('q \<Rightarrow> 'e \<Rightarrow> 'q res) \<Rightarrow> 'q \<Rightarrow> 'e list \<Rightarrow> 'q res" where
  "put_all put q [] = Inr q"
| "put_all put q (x # xs) = res_bind (put q x) (\<lambda>q'. put_all put q' xs)"

fun get_all :: "('q \<Rightarrow> ('e \<times> 'q) res) \<Rightarrow> 'q \<Rightarrow> nat \<Rightarrow> ('e list \<times> 'q) res" where
  "get_all get q 0 = Inr ([], q)"
| "get_all get q (Suc n) = res_bind (get q) (\<lambda>(x, q'). res_bind (get_all get q' n) (\<lambda>(xs, q''). Inr (x # xs, q'')))"

text \<open>A queue takes at most \<open>room\<close> elements; without a bound \<open>room\<close> is \<open>None\<close>.\<close>

definition fits :: "nat option \<Rightarrow> nat \<Rightarrow> bool" where
  "fits room n \<longleftrightarrow> (case room of None \<Rightarrow> True | Some m \<Rightarrow> n \<le> m)"

lemma fits_mono: "fits room n \<Longrightarrow> m \<le> n \<Longrightarrow> fits room m"
  by (auto simp: fits_def split: option.splits)

locale fifo =
  fixes inv :: "'q \<Rightarrow> bool" and items :: "'q \<Rightarrow> 'e list" and room :: "nat option" and good :: "'e \<Rightarrow> bool"
    and put :: "'q \<Rightarrow> 'e \<Rightarrow> 'q res" and get :: "'q \<Rightarrow> ('e \<times> 'q) res"
  assumes put_law: "inv q \<Longrightarrow> good x \<Longrightarrow> fits room (Suc (length (items q))) \<Longrightarrow>
      \<exists>q'. put q x = Inr q' \<and> inv q' \<and> items q' = items q @ [x]"
    and get_law: "inv q \<Longrightarrow> items q = x # xs \<Longrightarrow> \<exists>q'. get q = Inr (x, q') \<and> inv q' \<and> items q' = xs"
begin

lemma put_all_items:
  "inv q \<Longrightarrow> \<forall>x \<in> set xs. good x \<Longrightarrow> fits room (length (items q) + length xs) \<Longrightarrow>
   \<exists>q'. put_all put q xs = Inr q' \<and> inv q' \<and> items q' = items q @ xs"
proof (induction xs arbitrary: q)
  case (Cons x xs)
  have "fits room (Suc (length (items q)))" using Cons.prems(3) by (rule fits_mono) simp
  then obtain q1 where q1: "put q x = Inr q1" "inv q1" "items q1 = items q @ [x]"
    using put_law [OF Cons.prems(1)] Cons.prems(2) by auto
  then show ?case using Cons.IH [OF q1(2)] Cons.prems(2,3) by auto
qed simp

lemma get_all_items:
  "inv q \<Longrightarrow> items q = xs @ ys \<Longrightarrow> \<exists>q'. get_all get q (length xs) = Inr (xs, q') \<and> inv q' \<and> items q' = ys"
proof (induction xs arbitrary: q)
  case (Cons x xs)
  obtain q1 where q1: "get q = Inr (x, q1)" "inv q1" "items q1 = xs @ ys"
    using get_law [OF Cons.prems(1)] Cons.prems(2) by auto
  then show ?case using Cons.IH [OF q1(2,3)] by auto
qed simp

text \<open>What is put in comes out, in the order in which it was put in.\<close>

lemma first_in_first_out:
  assumes "inv q" and "\<forall>x \<in> set xs. good x" and "fits room (length (items q) + length xs)"
  shows "\<exists>q1 q2. put_all put q xs = Inr q1 \<and> get_all get q1 (length (items q) + length xs) = Inr (items q @ xs, q2) \<and>
     inv q2 \<and> items q2 = []"
proof -
  obtain q1 where q1: "put_all put q xs = Inr q1" "inv q1" "items q1 = items q @ xs"
    using put_all_items [OF assms] by blast
  then show ?thesis using get_all_items [of q1 "items q @ xs" "[]"] by auto
qed

end

end
