(* ===== verification/Dev_Input.thy ===== *)
theory Dev_Input
  imports Trap Kmt_Sem Ring
begin

text \<open>
  The keyboard driver (\<open>kernel/src/dev/dev_input.c\<close>): a ring of 128 events under a lock with a
  semaphore that counts them, the translation of key presses to events, and the driver's task. Where
  a routine waits on a semaphore that is not available the thread gives up the CPU there; the
  result then is \<open>None\<close>, and the rest of the routine is a definition of its own.
\<close>

section \<open>Data\<close>

record input_event =
  ev_ctrl :: bool
  ev_alt :: bool
  ev_data :: u16

record input_t =
  in_lock :: spinlock
  event_sem :: sem
  events :: "input_event list"
  in_front :: int
  in_rear :: int
  capslock :: int
  shift_down :: "int list"
  ctrl_down :: "int list"
  alt_down :: "int list"

definition NEVENTS :: nat where "NEVENTS = 128"
definition EVENT_SIZE :: int where "EVENT_SIZE = 4"

text \<open>The flags are bit fields of width 1 and 1, the data of width 16.\<close>

definition mk_event :: "int \<Rightarrow> int \<Rightarrow> int \<Rightarrow> input_event" where
  "mk_event ctrl alt dat = \<lparr>ev_ctrl = odd ctrl, ev_alt = odd alt, ev_data = word_of_int dat\<rparr>"

definition is_empty :: "input_t \<Rightarrow> bool" where
  "is_empty inp \<longleftrightarrow> in_rear inp = in_front inp"

section \<open>The ring of events\<close>

definition in_acquire :: "nat \<Rightarrow> input_t \<Rightarrow> kern \<Rightarrow> (input_t \<times> kern) res" where
  "in_acquire i inp s = res_bind (kmt_spin_lock i (cpu_of s i) (in_lock inp)) (\<lambda>(c, lk).
     Inr (inp\<lparr>in_lock := lk\<rparr>, set_cpu i c s))"

definition in_release :: "nat \<Rightarrow> input_t \<Rightarrow> kern \<Rightarrow> (input_t \<times> kern) res" where
  "in_release i inp s = res_bind (kmt_spin_unlock i (cpu_of s i) (in_lock inp)) (\<lambda>(c, lk).
     Inr (inp\<lparr>in_lock := lk\<rparr>, set_cpu i c s))"

definition push_event :: "nat \<Rightarrow> input_t \<Rightarrow> input_event \<Rightarrow> kern \<Rightarrow> (input_t \<times> kern) res" where
  "push_event i inp ev s =
    res_bind (in_acquire i inp s) (\<lambda>(in1, s1).
      if in_rear in1 < 0 \<or> int (length (events in1)) \<le> in_rear in1 then Inl Undefined
      else
        let in2 = in1\<lparr>events := (events in1)[nat (in_rear in1) := ev], in_rear := (in_rear in1 + 1) mod int NEVENTS\<rparr> in
        if is_empty in2 then Inl (Panic ''input queue full'')
        else res_bind (in_release i in2 s1) (\<lambda>(in3, s2).
          res_bind (kmt_sem_signal i (event_sem in3) s2) (\<lambda>(sm, s3). Inr (in3\<lparr>event_sem := sm\<rparr>, s3))))"

text \<open>\<open>pop_event\<close> after the wait on the semaphore.\<close>

definition pop_event_taken :: "nat \<Rightarrow> input_t \<Rightarrow> kern \<Rightarrow> (input_event \<times> input_t \<times> kern) res" where
  "pop_event_taken i inp s =
    res_bind (in_acquire i inp s) (\<lambda>(in1, s1).
      if is_empty in1 then Inl (Panic ''input queue empty'')
      else
        let idx = in_front in1; in2 = in1\<lparr>in_front := (in_front in1 + 1) mod int NEVENTS\<rparr> in
        if idx < 0 \<or> int (length (events in2)) \<le> idx then Inl Undefined
        else let ret = events in2 ! nat idx in
          res_bind (in_release i in2 s1) (\<lambda>(in3, s2). Inr (ret, in3, s2)))"

definition pop_event :: "nat \<Rightarrow> input_t \<Rightarrow> kern \<Rightarrow> (input_event option \<times> input_t \<times> kern) res" where
  "pop_event i inp s =
    res_bind (kmt_sem_wait i (event_sem inp) s) (\<lambda>(yields, sm, s1).
      let in1 = inp\<lparr>event_sem := sm\<rparr> in
      if yields then Inr (None, in1, s1)
      else res_bind (pop_event_taken i in1 s1) (\<lambda>(ev, in2, s2). Inr (Some ev, in2, s2)))"

section \<open>Keys\<close>

text \<open>
  The key codes of \<open>abstract-machine/am/include/amdev.h\<close>, numbered from 1 in the order of the
  enumeration there; the code 0 is no key.
\<close>

definition AM_KEY_CAPSLOCK :: int where "AM_KEY_CAPSLOCK = 42"
definition AM_KEY_LSHIFT :: int where "AM_KEY_LSHIFT = 55"
definition AM_KEY_RSHIFT :: int where "AM_KEY_RSHIFT = 66"
definition AM_KEY_LCTRL :: int where "AM_KEY_LCTRL = 67"
definition AM_KEY_LALT :: int where "AM_KEY_LALT = 69"
definition AM_KEY_RALT :: int where "AM_KEY_RALT = 71"
definition AM_KEY_RCTRL :: int where "AM_KEY_RCTRL = 72"

lemmas key_codes = AM_KEY_CAPSLOCK_def AM_KEY_LSHIFT_def AM_KEY_RSHIFT_def AM_KEY_LCTRL_def AM_KEY_LALT_def AM_KEY_RALT_def AM_KEY_RCTRL_def

text \<open>The two characters of a key, without and with shift; the other entries of the table are 0.
  The order is the source's: 0 to 9, A to M, N to Z, then grave, minus, equals, the two brackets, backslash,
  semicolon, apostrophe, return, comma, period, slash, space and backspace.
\<close>

definition keymap :: "(int \<times> int \<times> int) list" where
  "keymap = [
     (24, 48, 41), (15, 49, 33), (16, 50, 64), (17, 51, 35), (18, 52, 36), (19, 53, 37), (20, 54, 94),
     (21, 55, 38), (22, 56, 42), (23, 57, 40),
     (43, 97, 65), (60, 98, 66), (58, 99, 67), (45, 100, 68), (31, 101, 69), (46, 102, 70), (47, 103, 71),
     (48, 104, 72), (36, 105, 73), (49, 106, 74), (50, 107, 75), (51, 108, 76), (62, 109, 77),
     (61, 110, 78), (37, 111, 79), (38, 112, 80), (29, 113, 81), (32, 114, 82), (44, 115, 83), (33, 116, 84),
     (35, 117, 85), (59, 118, 86), (30, 119, 87), (57, 120, 88), (34, 121, 89), (56, 122, 90),
     (14, 96, 126), (25, 45, 95), (26, 61, 43), (39, 91, 123), (40, 93, 125), (41, 92, 124), (52, 59, 58),
     (53, 39, 34), (54, 10, 10), (63, 44, 60), (64, 46, 62), (65, 47, 63), (70, 32, 32), (27, 8, 8)]"

definition key_entry :: "int \<Rightarrow> (int \<times> int) res" where
  "key_entry code =
    (if code < 0 \<or> 256 \<le> code then Inl Undefined
     else case find (\<lambda>(k, _). k = code) keymap of None \<Rightarrow> Inr (0, 0) | Some (_, a, b) \<Rightarrow> Inr (a, b))"

definition down :: "int list \<Rightarrow> int" where
  "down xs = (if xs ! 0 \<noteq> 0 \<or> xs ! 1 \<noteq> 0 then 1 else 0)"

text \<open>The character of a key that is pressed goes to the ring, if it has one.\<close>

definition key_char :: "nat \<Rightarrow> input_t \<Rightarrow> int \<Rightarrow> kern \<Rightarrow> (input_t \<times> kern) res" where
  "key_char i inp code s =
    res_bind (key_entry code) (\<lambda>(ch, shifted).
      if ch \<noteq> 0 then
        let shift = down (shift_down inp); ctrl = down (ctrl_down inp); alt = down (alt_down inp) in
        if ctrl \<noteq> 0 \<or> alt \<noteq> 0 then push_event i inp (mk_event ctrl alt ch) s
        else
          let shift' = (if 97 \<le> ch \<and> ch \<le> 122 then shift XOR capslock inp else shift) in
          if shift' \<noteq> 0 then push_event i inp (mk_event 0 0 shifted) s
          else push_event i inp (mk_event 0 0 ch) s
      else Inr (inp, s))"

definition input_keydown :: "nat \<Rightarrow> input_t \<Rightarrow> bool \<Rightarrow> int \<Rightarrow> kern \<Rightarrow> (input_t \<times> kern) res" where
  "input_keydown i inp keydown code s =
    (if keydown then
       (if code = AM_KEY_CAPSLOCK then Inr (inp\<lparr>capslock := capslock inp XOR 1\<rparr>, s)
        else if code = AM_KEY_LCTRL then Inr (inp\<lparr>ctrl_down := (ctrl_down inp)[0 := 1]\<rparr>, s)
        else if code = AM_KEY_RCTRL then Inr (inp\<lparr>ctrl_down := (ctrl_down inp)[1 := 1]\<rparr>, s)
        else if code = AM_KEY_LALT then Inr (inp\<lparr>alt_down := (alt_down inp)[0 := 1]\<rparr>, s)
        else if code = AM_KEY_RALT then Inr (inp\<lparr>alt_down := (alt_down inp)[1 := 1]\<rparr>, s)
        else if code = AM_KEY_LSHIFT then Inr (inp\<lparr>shift_down := (shift_down inp)[0 := 1]\<rparr>, s)
        else if code = AM_KEY_RSHIFT then Inr (inp\<lparr>shift_down := (shift_down inp)[1 := 1]\<rparr>, s)
        else key_char i inp code s)
     else
       (if code = AM_KEY_LCTRL then Inr (inp\<lparr>ctrl_down := (ctrl_down inp)[0 := 0]\<rparr>, s)
        else if code = AM_KEY_RCTRL then Inr (inp\<lparr>ctrl_down := (ctrl_down inp)[1 := 0]\<rparr>, s)
        else if code = AM_KEY_LALT then Inr (inp\<lparr>alt_down := (alt_down inp)[0 := 0]\<rparr>, s)
        else if code = AM_KEY_RALT then Inr (inp\<lparr>alt_down := (alt_down inp)[1 := 0]\<rparr>, s)
        else if code = AM_KEY_LSHIFT then Inr (inp\<lparr>shift_down := (shift_down inp)[0 := 0]\<rparr>, s)
        else if code = AM_KEY_RSHIFT then Inr (inp\<lparr>shift_down := (shift_down inp)[1 := 0]\<rparr>, s)
        else Inr (inp, s)))"

section \<open>The device\<close>

text \<open>The handler of both interrupts; \<open>sem_kbdirq\<close> is \<open>k_kbd\<close> of the kernel's state.\<close>

definition input_notify :: handler where
  "input_notify i ev c s = res_bind (kmt_sem_signal i (k_kbd s) s) (\<lambda>(sm, s1). Inr (0, s1\<lparr>k_kbd := sm\<rparr>))"

text \<open>\<open>mem\<close> is what the allocated array holds.\<close>

definition input_zero :: input_t where
  "input_zero = \<lparr>in_lock = \<lparr>lock_word = 0, lock_name = [], lock_cpu = 0\<rparr>,
     event_sem = \<lparr>sem_name = [], resource = 0, sem_cnt = 0, sem_lock = \<lparr>lock_word = 0, lock_name = [], lock_cpu = 0\<rparr>,
       sem_list = replicate K_MAX_TASK 0\<rparr>,
     events = [], in_front = 0, in_rear = 0, capslock = 0, shift_down = [0, 0], ctrl_down = [0, 0], alt_down = [0, 0]\<rparr>"

definition input_init :: "nat \<Rightarrow> (nat \<Rightarrow> input_event) \<Rightarrow> irq list \<Rightarrow> kern \<Rightarrow> (input_t \<times> irq list \<times> kern) res" where
  "input_init i mem irqs s =
    res_bind (palloc i (EVENT_SIZE * int NEVENTS) s) (\<lambda>(p, s1).
      let in1 = input_zero\<lparr>events := (if p = 0 then [] else map mem [0..<NEVENTS])\<rparr> in
      res_bind (kmt_spin_init (in_lock in1) ''/dev/input lock'') (\<lambda>lk.
      res_bind (kmt_sem_init i (event_sem in1) ''events in queue'' 0 s1) (\<lambda>(sm, s2).
      res_bind (kmt_sem_init i (k_kbd s2) ''keyboard-interrupt'' 0 s2) (\<lambda>(kb, s3).
      res_bind (os_on_irq i 0 EVENT_IRQ_IODEV input_notify irqs (s3\<lparr>k_kbd := kb\<rparr>)) (\<lambda>(irqs1, s4).
      res_bind (os_on_irq i 0 EVENT_IRQ_TIMER input_notify irqs1 s4) (\<lambda>(irqs2, s5).
        Inr (in1\<lparr>in_lock := lk, event_sem := sm\<rparr>, irqs2, s5)))))))"

text \<open>The event that is copied to the caller's buffer, and the value returned; \<open>None\<close> on a wait.\<close>

definition input_read :: "nat \<Rightarrow> input_t \<Rightarrow> int \<Rightarrow> kern \<Rightarrow> ((input_event list \<times> int) option \<times> input_t \<times> kern) res" where
  "input_read i inp cnt s =
    res_bind (pop_event i inp s) (\<lambda>(ev, in1, s1).
      case ev of None \<Rightarrow> Inr (None, in1, s1)
      | Some e \<Rightarrow> (if (word_of_int cnt :: u64) \<ge> word_of_int EVENT_SIZE then Inr (Some ([e], EVENT_SIZE), in1, s1)
                  else Inr (Some ([], 0), in1, s1)))"

definition input_write :: "int \<Rightarrow> u8 list \<Rightarrow> int \<Rightarrow> int" where
  "input_write offset buf cnt = 0"

text \<open>The keys the keyboard controller has ready, up to the first with code 0.\<close>

fun input_poll :: "nat \<Rightarrow> (bool \<times> int) list \<Rightarrow> input_t \<Rightarrow> kern \<Rightarrow> (input_t \<times> kern) res" where
  "input_poll i [] inp s = Inr (inp, s)"
| "input_poll i ((keydown, code) # keys) inp s =
    (if code = 0 then Inr (inp, s)
     else res_bind (input_keydown i inp keydown code s) (\<lambda>(in1, s1). input_poll i keys in1 s1))"

text \<open>
  One round of the driver's task up to and including its wait; \<open>time\<close> is the clock when it is
  read. The result has the new \<open>known_time\<close> and whether the task gives up the CPU.
\<close>

definition input_round :: "nat \<Rightarrow> (bool \<times> int) list \<Rightarrow> u32 \<Rightarrow> u32 \<Rightarrow> input_t \<Rightarrow> kern \<Rightarrow> (bool \<times> u32 \<times> input_t \<times> kern) res" where
  "input_round i keys time known inp s =
    res_bind (input_poll i keys inp s) (\<lambda>(in1, s1).
    res_bind (if (time - known) div 1000 > 100 \<and> is_empty in1
              then res_bind (push_event i in1 (mk_event 0 0 0) s1) (\<lambda>(in2, s2). Inr (time, in2, s2))
              else Inr (known, in1, s1)) (\<lambda>(known1, in2, s2).
    res_bind (kmt_sem_wait i (k_kbd s2) s2) (\<lambda>(yields, sm, s3).
      Inr (yields, known1, in2, s3\<lparr>k_kbd := sm\<rparr>))))"


section \<open>The ring is a queue\<close>

definition queued :: "input_t \<Rightarrow> input_event list" where
  "queued inp = ring (events inp) (nat (in_front inp)) (nat (in_rear inp))"

text \<open>
  The driver at rest: its lock is free, the indices are in the array, and the value of the semaphore
  is the number of events.
\<close>

definition input_ok :: "nat \<Rightarrow> input_t \<times> kern \<Rightarrow> bool" where
  "input_ok i q \<longleftrightarrow> (case q of (inp, s) \<Rightarrow> cpu_ready i s \<and> current_task (cpu_of s i) \<noteq> 0 \<and> lock_free (in_lock inp) \<and>
     length (events inp) = NEVENTS \<and> 0 \<le> in_front inp \<and> in_front inp < int NEVENTS \<and>
     0 \<le> in_rear inp \<and> in_rear inp < int NEVENTS \<and> sem_ok (event_sem inp) \<and> resource (event_sem inp) = int (length (queued inp)))"

definition in_held :: "nat \<Rightarrow> input_t \<Rightarrow> input_t" where
  "in_held i inp = inp\<lparr>in_lock := (in_lock inp)\<lparr>lock_word := 1, lock_cpu := int i\<rparr>\<rparr>"

definition in_freed :: "input_t \<Rightarrow> input_t" where
  "in_freed inp = inp\<lparr>in_lock := (in_lock inp)\<lparr>lock_word := 0, lock_cpu := -1\<rparr>\<rparr>"

lemma in_held_fields [simp]:
  "events (in_held i inp) = events inp" "in_front (in_held i inp) = in_front inp" "in_rear (in_held i inp) = in_rear inp"
  "event_sem (in_held i inp) = event_sem inp" "events (in_freed inp) = events inp" "in_front (in_freed inp) = in_front inp"
  "in_rear (in_freed inp) = in_rear inp" "event_sem (in_freed inp) = event_sem inp" "lock_free (in_lock (in_freed inp))"
  by (simp_all add: in_held_def in_freed_def lock_free_def)

lemma queued_fields [simp]:
  "queued (in_held i inp) = queued inp" "queued (in_freed inp) = queued inp" "queued (inp\<lparr>event_sem := m\<rparr>) = queued inp"
  by (simp_all add: queued_def)

lemma in_acquire_free:
  "lock_free (in_lock inp) \<Longrightarrow> in_acquire i inp s = Inr (in_held i inp, set_cpu i (push_off (cpu_of s i)) s)"
  by (simp add: in_acquire_def kmt_spin_lock_free in_held_def)

lemma in_release_held:
  assumes "cpu_ready i s" and "in_lock inp = in_lock (in_held i inp0)"
  shows "\<exists>s'. in_release i inp (set_cpu i (push_off (cpu_of s i)) s) = Inr (in_freed inp, s') \<and> like s s'"
proof -
  have i: "i < length (k_cpus s)" "cpu_ok (cpu_of s i)" using assms(1) by (simp_all add: cpu_ready_def)
  have "lock_word (in_lock inp) \<noteq> 0" "lock_cpu (in_lock inp) = int i"
    using assms(2) by (simp_all add: in_held_def)
  then obtain d where "kmt_spin_unlock i (push_off (cpu_of s i)) (in_lock inp) =
      Inr (d, (in_lock inp)\<lparr>lock_word := 0, lock_cpu := -1\<rparr>)" "same_cpu (cpu_of s i) d"
    using kmt_spin_unlock_held [OF i(2) same_cpu_refl] by blast
  then show ?thesis using i(1)
    by (intro exI [of _ "set_cpu i d s"]) (auto simp: in_release_def in_freed_def set_cpu_twice like_def)
qed

lemma nat_ring_step: "0 \<le> r \<Longrightarrow> nat ((r + 1) mod int n) = Suc (nat r) mod n" if "n > 0"
  by (metis add.commute nat_int nat_mod_distrib of_nat_0_le_iff of_nat_Suc zero_le_imp_eq_int)

lemma push_event_room:
  assumes ok: "input_ok i (inp, s)" and room: "Suc (length (queued inp)) < NEVENTS"
  shows "\<exists>in1 s1. push_event i inp ev s = Inr (in1, s1) \<and> input_ok i (in1, s1) \<and> queued in1 = queued inp @ [ev] \<and> like s s1"
proof -
  let ?n = NEVENTS and ?f = "nat (in_front inp)" and ?r = "nat (in_rear inp)"
  have o: "cpu_ready i s" "current_task (cpu_of s i) \<noteq> 0" "lock_free (in_lock inp)" "length (events inp) = ?n" "?f < ?n" "?r < ?n"
    "0 \<le> in_front inp" "0 \<le> in_rear inp" "sem_ok (event_sem inp)" "resource (event_sem inp) = int (length (queued inp))"
    using ok by (auto simp: input_ok_def)
  let ?in2 = "(in_held i inp)\<lparr>events := (events inp)[?r := ev], in_rear := (in_rear inp + 1) mod int ?n\<rparr>"
  have n: "?n > 0" by (simp add: NEVENTS_def)
  have next_r: "Suc ?r mod ?n \<noteq> ?f"
  proof
    assume "Suc ?r mod ?n = ?f"
    then have "Suc (ring_len ?n ?f ?r) = ?n" using o(5,6) by (auto simp: ring_len_eq mod_if split: if_splits)
    then show False using room o(4) by (simp add: queued_def length_ring)
  qed
  have q2: "queued ?in2 = queued inp @ [ev]"
    using ring_push [of ?f "events inp" ?r ev] o next_r by (simp add: queued_def nat_ring_step [OF n])
  have ne: "\<not> is_empty ?in2" using next_r o(7,8) nat_ring_step [OF n, of "in_rear inp"] by (auto simp: is_empty_def)
  obtain s2 where s2: "in_release i ?in2 (set_cpu i (push_off (cpu_of s i)) s) = Inr (in_freed ?in2, s2)" "like s s2"
    using in_release_held [OF o(1), of ?in2 inp] by auto
  obtain sm s3 where s3: "kmt_sem_signal i (event_sem inp) s2 = Inr (sm, s3)" "sem_ok sm"
    "resource sm = resource (event_sem inp) + 1" "like s2 s3"
    using sem_signal_returns [OF like_ready [OF s2(2) o(1)] o(9)] waiters_length [OF o(9)] o(10) by auto
  have "\<not> int ?n \<le> in_rear inp" using o(6,8) by linarith
  then have "push_event i inp ev s = Inr ((in_freed ?in2)\<lparr>event_sem := sm\<rparr>, s3)"
    using o(4,8) ne s2(1) s3(1) by (simp add: push_event_def in_acquire_free [OF o(3)] Let_def)
  moreover have "like s s3" using like_trans [OF s2(2) s3(4)] .
  moreover have "input_ok i ((in_freed ?in2)\<lparr>event_sem := sm\<rparr>, s3)"
    using o s3 q2 n like_ready [OF \<open>like s s3\<close> o(1)] like_fields(4) [OF \<open>like s s3\<close>, of i]
    by (simp add: input_ok_def)
  ultimately show ?thesis using q2 by auto
qed

lemma push_event_full:
  assumes ok: "input_ok i (inp, s)" and full: "Suc (length (queued inp)) = NEVENTS"
  shows "push_event i inp ev s = Inl (Panic ''input queue full'')"
proof -
  let ?n = NEVENTS and ?f = "nat (in_front inp)" and ?r = "nat (in_rear inp)"
  have o: "lock_free (in_lock inp)" "length (events inp) = ?n" "?f < ?n" "?r < ?n" "0 \<le> in_front inp" "0 \<le> in_rear inp"
    using ok by (auto simp: input_ok_def)
  have n: "?n > 0" by (simp add: NEVENTS_def)
  have "Suc (ring_len ?n ?f ?r) = ?n" using full o(2) by (simp add: queued_def length_ring)
  then have "Suc ?r mod ?n = ?f" using o(3,4) by (auto simp: ring_len_eq mod_if split: if_splits)
  then have "(in_rear inp + 1) mod int ?n = in_front inp"
    using nat_ring_step [OF n o(6)] o(5) n by (metis nat_0_le of_nat_0_less_iff pos_mod_sign)
  moreover have "\<not> int ?n \<le> in_rear inp" using o(4,6) by linarith
  ultimately show ?thesis using o by (simp add: push_event_def in_acquire_free is_empty_def Let_def)
qed

lemma pop_event_some:
  assumes ok: "input_ok i (inp, s)" and some: "queued inp = ev # rest"
  shows "\<exists>in1 s1. pop_event i inp s = Inr (Some ev, in1, s1) \<and> input_ok i (in1, s1) \<and> queued in1 = rest"
proof -
  let ?n = NEVENTS and ?f = "nat (in_front inp)" and ?r = "nat (in_rear inp)"
  have o: "cpu_ready i s" "current_task (cpu_of s i) \<noteq> 0" "lock_free (in_lock inp)" "length (events inp) = ?n" "?f < ?n" "?r < ?n"
    "0 \<le> in_front inp" "0 \<le> in_rear inp" "sem_ok (event_sem inp)" "resource (event_sem inp) = int (length (queued inp))"
    using ok by (auto simp: input_ok_def)
  have n: "?n > 0" by (simp add: NEVENTS_def)
  have pos: "resource (event_sem inp) > 0" using o(10) some by simp
  obtain sm s1 where s1: "kmt_sem_wait i (event_sem inp) s = Inr (False, sm, s1)" "sem_ok sm"
    "resource sm = resource (event_sem inp) - 1" "like s s1"
    using sem_wait_returns [OF o(1,2,9)] pos by (auto simp: K_MAX_TASK_def)
  let ?in1 = "inp\<lparr>event_sem := sm\<rparr>"
  let ?in2 = "(in_held i ?in1)\<lparr>in_front := (in_front inp + 1) mod int ?n\<rparr>"
  have fr: "?f \<noteq> ?r" using some ring_empty_iff [of ?f "events inp" ?r] o(4-6) by (auto simp: queued_def)
  have split: "ring (events inp) ?f ?r = events inp ! ?f # ring (events inp) (Suc ?f mod ?n) ?r"
    using ring_pop [OF _ _ fr, of "events inp"] o(4-6) by simp
  then have ev: "events inp ! ?f = ev" "queued ?in2 = rest"
    using some o(7) by (simp_all add: queued_def nat_ring_step [OF n])
  have ready1: "cpu_ready i s1" using like_ready [OF s1(4) o(1)] .
  obtain s2 where s2: "in_release i ?in2 (set_cpu i (push_off (cpu_of s1 i)) s1) = Inr (in_freed ?in2, s2)" "like s1 s2"
    using in_release_held [OF ready1, of ?in2 ?in1] by auto
  have "in_acquire i ?in1 s1 = Inr (in_held i ?in1, set_cpu i (push_off (cpu_of s1 i)) s1)"
    using o(3) by (intro in_acquire_free) simp
  moreover have "\<not> is_empty (in_held i ?in1)" using fr by (auto simp: is_empty_def)
  moreover have "\<not> int ?n \<le> in_front inp" using o(5,7) by linarith
  ultimately have "pop_event i inp s = Inr (Some ev, in_freed ?in2, s2)"
    using s1(1) s2(1) o(4,7) ev(1) by (simp add: pop_event_def pop_event_taken_def Let_def)
  moreover have "like s s2" using like_trans [OF s1(4) s2(2)] .
  moreover have "input_ok i (in_freed ?in2, s2)"
    using o s1 ev(2) n some like_ready [OF \<open>like s s2\<close> o(1)] like_fields(4) [OF \<open>like s s2\<close>, of i]
    by (simp add: input_ok_def)
  ultimately show ?thesis using ev(2) by auto
qed

text \<open>An empty ring makes the reader wait.\<close>

lemma pop_event_none:
  assumes ok: "input_ok i (inp, s)" and none: "queued inp = []"
  shows "\<exists>in1 s1. pop_event i inp s = Inr (None, in1, s1) \<and> block (k_tasks s1 (current_task (cpu_of s i)))"
proof -
  have o: "cpu_ready i s" "current_task (cpu_of s i) \<noteq> 0" "sem_ok (event_sem inp)" "resource (event_sem inp) = 0"
    using ok none by (auto simp: input_ok_def)
  obtain sm s1 where s1: "kmt_sem_wait i (event_sem inp) s = Inr (True, sm, s1)"
    "like (upd_task (current_task (cpu_of s i)) (block_update (\<lambda>_. True)) s) s1"
    using sem_wait_returns [OF o(1-3)] o(4) by (auto simp: K_MAX_TASK_def)
  then show ?thesis by (auto simp: pop_event_def like_fields [OF s1(2)])
qed


text \<open>The two operations on the driver and the kernel's state together; waiting is no answer.\<close>

definition input_put :: "nat \<Rightarrow> input_t \<times> kern \<Rightarrow> input_event \<Rightarrow> (input_t \<times> kern) res" where
  "input_put i q ev = push_event i (fst q) ev (snd q)"

definition input_get :: "nat \<Rightarrow> input_t \<times> kern \<Rightarrow> (input_event \<times> (input_t \<times> kern)) res" where
  "input_get i q = res_bind (pop_event i (fst q) (snd q)) (\<lambda>(ev, q'). case ev of None \<Rightarrow> Inl Hang | Some e \<Rightarrow> Inr (e, q'))"

interpretation input_queue: fifo "input_ok i" "\<lambda>q. queued (fst q)" "Some 127" "\<lambda>_. True" "input_put i" "input_get i" for i
proof
  fix q x assume q: "input_ok i q" "fits (Some 127) (Suc (length (queued (fst q))))"
  obtain inp s where [simp]: "q = (inp, s)" by (cases q)
  show "\<exists>q'. input_put i q x = Inr q' \<and> input_ok i q' \<and> queued (fst q') = queued (fst q) @ [x]"
    using push_event_room [of i inp s x] q by (fastforce simp: input_put_def fits_def NEVENTS_def)
next
  fix q x xs assume q: "input_ok i q" "queued (fst q) = x # xs"
  obtain inp s where [simp]: "q = (inp, s)" by (cases q)
  obtain in1 s1 where "pop_event i inp s = Inr (Some x, in1, s1)" "input_ok i (in1, s1)" "queued in1 = xs"
    using pop_event_some [of i inp s x xs] q by auto
  then show "\<exists>q'. input_get i q = Inr (x, q') \<and> input_ok i q' \<and> queued (fst q') = xs"
    by (intro exI [of _ "(in1, s1)"]) (simp add: input_get_def)
qed

section \<open>Letters\<close>

text \<open>The codes of the keys A to Z.\<close>

definition letter_codes :: "int list" where
  "letter_codes = [43, 60, 58, 45, 31, 46, 47, 48, 36, 49, 50, 51, 62,
     61, 37, 38, 29, 32, 44, 33, 35, 59, 30, 57, 34, 56]"

definition letter_code :: "nat \<Rightarrow> int" where
  "letter_code n = letter_codes ! n"

lemma letter_entries: "\<forall>n \<in> set [0..<26]. key_entry (letter_code n) = Inr (97 + int n, 65 + int n)"
  by (simp add: upt_rec letter_code_def letter_codes_def key_entry_def keymap_def)

lemma letter_no_modifier: "\<forall>n \<in> set [0..<26]. letter_code n \<notin> {AM_KEY_CAPSLOCK, AM_KEY_LCTRL, AM_KEY_RCTRL,
     AM_KEY_LALT, AM_KEY_RALT, AM_KEY_LSHIFT, AM_KEY_RSHIFT}"
  by (simp add: upt_rec letter_code_def letter_codes_def key_codes)

lemma letter_keydown:
  assumes "n < 26" and "down (ctrl_down inp) = 0" and "down (alt_down inp) = 0" and "capslock inp \<in> {0, 1}"
  shows "input_keydown i inp True (letter_code n) s =
     push_event i inp (mk_event 0 0 (if (down (shift_down inp) = 1) \<noteq> (capslock inp = 1) then 65 + int n else 97 + int n)) s"
proof -
  have n: "n \<in> set [0..<26]" using assms(1) by simp
  have e: "key_entry (letter_code n) = Inr (97 + int n, 65 + int n)" using letter_entries n by blast
  have sh: "down (shift_down inp) \<in> {0, 1}" by (simp add: down_def)
  have "input_keydown i inp True (letter_code n) s = key_char i inp (letter_code n) s"
    using letter_no_modifier n by (auto simp: input_keydown_def)
  then show ?thesis using assms sh by (auto simp: key_char_def e Let_def)
qed

section \<open>Properties\<close>

definition idle_input :: input_t where
  "idle_input = input_zero\<lparr>events := replicate 128 (mk_event 0 0 0), event_sem := zero_sem\<rparr>"

lemma idle_input_ok: "input_ok 0 (idle_input, one_running)" "queued idle_input = []"
  using one_running_ready zero_sem_ok
  by (simp_all add: input_ok_def idle_input_def input_zero_def NEVENTS_def queued_def ring_def lock_free_def)

text \<open>
  C25: the ring of the keyboard driver is a queue: up to 127 events put in by the driver's task come
  out of \<open>pop_event\<close> in the order in which they were put in, after those that were there, wherever the
  indices are in the array; the reader is made to wait exactly when there is none, and one event
  more than fits halts the machine.
\<close>

theorem input_ring_fifo:
  assumes "input_ok i (inp, s)" and "length (queued inp) + length evs \<le> 127"
  shows "\<exists>q1 q2. put_all (input_put i) (inp, s) evs = Inr q1 \<and>
     (length (queued inp) + length evs = 127 \<longrightarrow> (\<forall>ev. push_event i (fst q1) ev (snd q1) = Inl (Panic ''input queue full''))) \<and>
     get_all (input_get i) q1 (length (queued inp) + length evs) = Inr (queued inp @ evs, q2) \<and>
     (\<exists>in3 s3. pop_event i (fst q2) (snd q2) = Inr (None, in3, s3) \<and> block (k_tasks s3 (current_task (cpu_of (snd q2) i))))"
proof -
  have fit: "fits (Some 127) (length (queued (fst (inp, s))) + length evs)" using assms(2) by (simp add: fits_def)
  obtain in1 s1 where q1: "put_all (input_put i) (inp, s) evs = Inr (in1, s1)" "input_ok i (in1, s1)" "queued in1 = queued inp @ evs"
    using input_queue.put_all_items [OF assms(1) _ fit] by auto
  obtain in2 s2 where q2: "get_all (input_get i) (in1, s1) (length (queued inp @ evs)) = Inr (queued inp @ evs, (in2, s2))"
      "input_ok i (in2, s2)" "queued in2 = []"
    using input_queue.get_all_items [OF q1(2), of "queued inp @ evs" "[]"] q1(3) by auto
  have "push_event i in1 ev s1 = Inl (Panic ''input queue full'')" if "length (queued inp) + length evs = 127" for ev
    using that q1(3) by (intro push_event_full [OF q1(2)]) (simp add: NEVENTS_def)
  then show ?thesis using q1(1) q2(1) pop_event_none [OF q2(2,3)] by fastforce
qed

theorem input_ring_fifo_witness:
  "\<exists>q1 q2. put_all (input_put 0) (idle_input, one_running) [mk_event 0 0 97, mk_event 0 0 98] = Inr q1 \<and>
     get_all (input_get 0) q1 2 = Inr ([mk_event 0 0 97, mk_event 0 0 98], q2)"
  using input_ring_fifo [OF idle_input_ok(1), of "[mk_event 0 0 97, mk_event 0 0 98]"] idle_input_ok(2) by (auto simp: numeral_2_eq_2)

text \<open>
  A letter key: with neither control nor alt held the event has the capital letter exactly when
  one of shift and caps lock is on and the small letter otherwise, and it is put at the end of the
  ring; the driver's state else is as before.
\<close>

theorem input_letter_event:
  assumes "input_ok i (inp, s)" and "length (queued inp) < 127" and "n < 26"
    and "down (ctrl_down inp) = 0" and "down (alt_down inp) = 0" and "capslock inp \<in> {0, 1}"
  shows "\<exists>in1 s1. input_keydown i inp True (letter_code n) s = Inr (in1, s1) \<and> input_ok i (in1, s1) \<and>
     queued in1 = queued inp @ [\<lparr>ev_ctrl = False, ev_alt = False,
       ev_data = (if (down (shift_down inp) = 1) \<noteq> (capslock inp = 1) then 65 + of_nat n else 97 + of_nat n)\<rparr>]"
proof -
  let ?e = "mk_event 0 0 (if (down (shift_down inp) = 1) \<noteq> (capslock inp = 1) then 65 + int n else 97 + int n)"
  obtain in1 s1 where "push_event i inp ?e s = Inr (in1, s1)" "input_ok i (in1, s1)" "queued in1 = queued inp @ [?e]"
    using push_event_room [OF assms(1), of ?e] assms(2) by (auto simp: NEVENTS_def)
  moreover have "?e = \<lparr>ev_ctrl = False, ev_alt = False,
       ev_data = (if (down (shift_down inp) = 1) \<noteq> (capslock inp = 1) then 65 + of_nat n else 97 + of_nat n)\<rparr>"
    by (simp add: mk_event_def)
  ultimately show ?thesis using letter_keydown [OF assms(3-6), of i s] by auto
qed

theorem input_letter_event_witness:
  "\<exists>in1 s1. input_keydown 0 (idle_input\<lparr>shift_down := [0, 1]\<rparr>) True (letter_code 2) one_running = Inr (in1, s1) \<and>
     queued in1 = [mk_event 0 0 67]"
proof -
  let ?i = "idle_input\<lparr>shift_down := [0, 1]\<rparr>"
  have q: "queued ?i = []" using idle_input_ok(2) by (simp add: queued_def)
  have "input_ok 0 (?i, one_running)" using idle_input_ok q by (simp add: input_ok_def)
  then show ?thesis using input_letter_event [of 0 ?i one_running 2] q
    by (auto simp: down_def idle_input_def input_zero_def mk_event_def)
qed

end
