(* ===== verification/Dev_Video.thy ===== *)
theory Dev_Video
  imports Kmt_Sem
begin

text \<open>
  The frame buffer device (\<open>kernel/src/dev/dev_video.c\<close>) and the drawing routine of the machine
  layer below it (\<open>gpu_fbdraw\<close> of \<open>abstract-machine/am/src/x86/qemu/ioe.c\<close>). The textures are bytes
  in memory, 256 of them for each texture of 8 by 8 pixels; the screen is an array of pixels. The font
  is a parameter, a table of 16 bytes for each character.
\<close>

section \<open>Data\<close>

record display_info =
  width :: int
  height :: int
  num_displays :: int
  current :: int
  num_textures :: int
  num_sprites :: int

record sprite =
  sp_texture :: u16
  sp_x :: u16
  sp_y :: u16
  sp_display :: u16
  sp_z :: u16

record pixel =
  px_b :: u8
  px_g :: u8
  px_r :: u8

definition TEXTURE_W :: int where "TEXTURE_W = 8"
definition TEXTURE_H :: int where "TEXTURE_H = 8"
definition TEXTURE_SIZE :: nat where "TEXTURE_SIZE = 256"
definition SPRITE_BRK :: int where "SPRITE_BRK = 0x1000000"
definition NTEXTURE :: nat where "NTEXTURE = 16384"
definition NSPRITE :: nat where "NSPRITE = 16384"
definition INFO_SIZE :: nat where "INFO_SIZE = 24"
definition SPRITE_SIZE :: nat where "SPRITE_SIZE = 8"

text \<open>The screen of the machine: its width and height, and its pixels in rows.\<close>

record gpu =
  gpu_w :: int
  gpu_h :: int
  gpu_fb :: "pixel list"

record fb =
  fb_info :: display_info
  textures :: "u8 list"
  fb_sem :: sem

section \<open>Bytes\<close>

definition le16 :: "u8 list \<Rightarrow> nat \<Rightarrow> u16" where
  "le16 b k = ucast (b ! k) OR push_bit 8 (ucast (b ! (k + 1)))"

definition le32 :: "u8 list \<Rightarrow> nat \<Rightarrow> u32" where
  "le32 b k = ucast (b ! k) OR push_bit 8 (ucast (b ! (k + 1))) OR push_bit 16 (ucast (b ! (k + 2))) OR push_bit 24 (ucast (b ! (k + 3)))"

definition bytes16 :: "u16 \<Rightarrow> u8 list" where
  "bytes16 w = [ucast w, ucast (drop_bit 8 w)]"

definition bytes32 :: "u32 \<Rightarrow> u8 list" where
  "bytes32 w = [ucast w, ucast (drop_bit 8 w), ucast (drop_bit 16 w), ucast (drop_bit 24 w)]"

definition put_bytes :: "nat \<Rightarrow> u8 list \<Rightarrow> u8 list \<Rightarrow> u8 list res" where
  "put_bytes k new b = (if length b < k + length new then Inl Undefined else Inr (take k b @ new @ drop (k + length new) b))"

text \<open>A sprite is 8 bytes: three 16-bit fields, then 4 bits and 12 bits.\<close>

definition sprite_at :: "u8 list \<Rightarrow> nat \<Rightarrow> sprite" where
  "sprite_at b k = \<lparr>sp_texture = le16 b k, sp_x = le16 b (k + 2), sp_y = le16 b (k + 4),
     sp_display = le16 b (k + 6) AND 0xF, sp_z = drop_bit 4 (le16 b (k + 6))\<rparr>"

definition sprite_bytes :: "sprite \<Rightarrow> u8 list" where
  "sprite_bytes sp = bytes16 (sp_texture sp) @ bytes16 (sp_x sp) @ bytes16 (sp_y sp) @
     bytes16 ((sp_display sp AND 0xF) OR push_bit 4 (sp_z sp))"

section \<open>Drawing\<close>

definition mk_pixel :: "u32 \<Rightarrow> pixel" where
  "mk_pixel p = \<lparr>px_b = ucast p, px_g = ucast (drop_bit 8 p), px_r = ucast (drop_bit 16 p)\<rparr>"

text \<open>\<open>n\<close> pixels left of a row; \<open>k\<close> is the index in the screen, \<open>ps\<close> the pixels to draw.\<close>

fun draw_row :: "nat \<Rightarrow> int \<Rightarrow> u32 list \<Rightarrow> pixel list \<Rightarrow> pixel list res" where
  "draw_row 0 k ps scr = Inr scr"
| "draw_row (Suc n) k [] scr = Inl Undefined"
| "draw_row (Suc n) k (p # ps) scr =
    (if k < 0 \<or> int (length scr) \<le> k then Inl Undefined
     else draw_row n (k + 1) ps (scr[nat k := mk_pixel p]))"

text \<open>\<open>n\<close> rows left; \<open>j\<close> is the number of the row, the pixels advance by \<open>w\<close> with each.\<close>

fun draw_rows :: "nat \<Rightarrow> int \<Rightarrow> int \<Rightarrow> int \<Rightarrow> int \<Rightarrow> int \<Rightarrow> u32 list \<Rightarrow> gpu \<Rightarrow> gpu res" where
  "draw_rows 0 j x y w len ps g = Inr g"
| "draw_rows (Suc n) j x y w len ps g =
    (if y + j < gpu_h g then
       res_bind (draw_row (nat len) (x + (j + y) * gpu_w g) ps (gpu_fb g)) (\<lambda>scr.
         draw_rows n (j + 1) x y w len (drop (nat w) ps) (g\<lparr>gpu_fb := scr\<rparr>))
     else draw_rows n (j + 1) x y w len (drop (nat w) ps) g)"

definition gpu_fbdraw :: "int \<Rightarrow> int \<Rightarrow> u32 list \<Rightarrow> int \<Rightarrow> int \<Rightarrow> gpu \<Rightarrow> gpu res" where
  "gpu_fbdraw x y pixels w h g =
    (let len = (if x + w \<ge> gpu_w g then gpu_w g - x else w) in
     draw_rows (nat h) 0 x y w len pixels g)"

section \<open>Textures\<close>

text \<open>The pixel \<open>x\<close> of a row of 8 whose bits are \<open>bitmask\<close>.\<close>

definition glyph_pixel :: "u8 \<Rightarrow> u32 \<Rightarrow> u32 \<Rightarrow> nat \<Rightarrow> u32" where
  "glyph_pixel bitmask fg bg x = (if drop_bit (7 - x) bitmask AND 1 \<noteq> 0 then fg else bg)"

definition texture_fill :: "nat \<Rightarrow> bool \<Rightarrow> u8 list \<Rightarrow> u32 \<Rightarrow> u32 \<Rightarrow> u8 list \<Rightarrow> u8 list res" where
  "texture_fill tx lower bits fg bg mem =
    (if length bits < (if lower then 16 else 8) then Inl Undefined
     else put_bytes (tx * TEXTURE_SIZE)
       (concat (map (\<lambda>y. concat (map (\<lambda>x. bytes32 (glyph_pixel (if lower then bits ! (y + nat TEXTURE_H) else bits ! y) fg bg x))
          [0..<nat TEXTURE_W])) [0..<nat TEXTURE_H])) mem)"

fun font_load_from :: "nat \<Rightarrow> nat \<Rightarrow> u8 list \<Rightarrow> u8 list \<Rightarrow> u8 list res" where
  "font_load_from 0 ch font mem = Inr mem"
| "font_load_from (Suc n) ch font mem =
    res_bind (texture_fill (ch * 2 + 1) False (drop (16 * ch) font) 0xeeeeee 0 mem) (\<lambda>mem1.
    res_bind (texture_fill (ch * 2 + 2) True (drop (16 * ch) font) 0xeeeeee 0 mem1) (\<lambda>mem2.
      font_load_from n (ch + 1) font mem2))"

definition font_load :: "u8 list \<Rightarrow> u8 list \<Rightarrow> u8 list res" where
  "font_load font mem = font_load_from 256 0 font mem"

section \<open>The device\<close>

text \<open>\<open>mem\<close> is what the allocated textures hold; the sprites are allocated and not used.\<close>

definition fb_init :: "nat \<Rightarrow> string \<Rightarrow> gpu \<Rightarrow> u8 list \<Rightarrow> (nat \<Rightarrow> u8) \<Rightarrow> sem \<Rightarrow> kern \<Rightarrow> (fb \<times> kern) res" where
  "fb_init i name g font mem sm s =
    res_bind (palloc i (int INFO_SIZE) s) (\<lambda>(p, s1).
    res_bind (palloc i (int (TEXTURE_SIZE * NTEXTURE)) s1) (\<lambda>(q, s2).
    res_bind (palloc i (int (SPRITE_SIZE * NSPRITE)) s2) (\<lambda>(_, s3).
      if p = 0 then Inl Undefined
      else
        let info = \<lparr>width = gpu_w g, height = gpu_h g, num_displays = 8, current = 0,
              num_textures = int NTEXTURE, num_sprites = int NSPRITE\<rparr> in
        res_bind (kmt_sem_init i sm name 1 s3) (\<lambda>(sm1, s4).
        if q = 0 then Inl Undefined
        else res_bind (font_load font (map mem [0..<TEXTURE_SIZE * NTEXTURE])) (\<lambda>tex.
          Inr (\<lparr>fb_info = info, textures = tex, fb_sem = sm1\<rparr>, s4))))))"

text \<open>The value returned and the information copied to the caller, if any.\<close>

definition fb_read :: "fb \<Rightarrow> int \<Rightarrow> int \<Rightarrow> int \<times> display_info option" where
  "fb_read f offset cnt =
    (if offset \<noteq> 0 then (0, None) else if cnt \<noteq> int INFO_SIZE then (0, None) else (0, Some (fb_info f)))"

definition texture_pixels :: "u8 list \<Rightarrow> nat \<Rightarrow> u32 list" where
  "texture_pixels mem tx = map (\<lambda>k. le32 mem (tx * TEXTURE_SIZE + 4 * k)) [0..<64]"

text \<open>The sprites of the buffer from byte \<open>k\<close> on are drawn if they are on the current display.\<close>

function draw_sprites :: "fb \<Rightarrow> u8 list \<Rightarrow> nat \<Rightarrow> nat \<Rightarrow> gpu \<Rightarrow> gpu res" where
  "draw_sprites f buf cnt k g =
    (if cnt \<le> k then Inr g
     else if length buf < k + SPRITE_SIZE then Inl Undefined
     else
       let sp = sprite_at buf k in
       res_bind
         (if sp_texture sp > 0 \<and> uint (sp_display sp) = current (fb_info f) then
            (if length (textures f) < (unat (sp_texture sp) + 1) * TEXTURE_SIZE then Inl Undefined
             else gpu_fbdraw (uint (sp_x sp)) (uint (sp_y sp)) (texture_pixels (textures f) (unat (sp_texture sp))) TEXTURE_W TEXTURE_H g)
          else Inr g)
         (\<lambda>g1. draw_sprites f buf cnt (k + SPRITE_SIZE) g1))"
  by pat_completeness auto
termination by (relation "measure (\<lambda>(f, buf, cnt, k, g). cnt - k)") (auto simp: SPRITE_SIZE_def)

declare draw_sprites.simps [simp del]

text \<open>\<open>fb_write\<close> after its wait; \<open>buf\<close> is the memory at the caller's pointer.\<close>

definition fb_write_body :: "fb \<Rightarrow> int \<Rightarrow> u8 list \<Rightarrow> int \<Rightarrow> gpu \<Rightarrow> (fb \<times> gpu) res" where
  "fb_write_body f offset buf cnt g =
    (if offset = 0 then
       (if length buf < INFO_SIZE then Inl Undefined
        else let cur = uint (le32 buf 12) in
          Inr (if current (fb_info f) \<noteq> cur then f\<lparr>fb_info := (fb_info f)\<lparr>current := cur\<rparr>\<rparr> else f, g))
     else if offset < SPRITE_BRK then
       (if offset < 0 \<or> cnt < 0 \<or> int (length buf) < cnt then Inl Undefined
        else res_bind (put_bytes (nat offset) (take (nat cnt) buf) (textures f)) (\<lambda>mem. Inr (f\<lparr>textures := mem\<rparr>, g)))
     else res_bind (draw_sprites f buf (nat cnt) 0 g) (\<lambda>g1. Inr (f, g1)))"

definition fb_write_taken :: "nat \<Rightarrow> fb \<Rightarrow> int \<Rightarrow> u8 list \<Rightarrow> int \<Rightarrow> gpu \<Rightarrow> kern \<Rightarrow> (int \<times> fb \<times> gpu \<times> kern) res" where
  "fb_write_taken i f offset buf cnt g s =
    res_bind (fb_write_body f offset buf cnt g) (\<lambda>(f1, g1).
    res_bind (kmt_sem_signal i (fb_sem f1) s) (\<lambda>(sm, s1). Inr (cnt, f1\<lparr>fb_sem := sm\<rparr>, g1, s1)))"

definition fb_write :: "nat \<Rightarrow> fb \<Rightarrow> int \<Rightarrow> u8 list \<Rightarrow> int \<Rightarrow> gpu \<Rightarrow> kern \<Rightarrow> (int option \<times> fb \<times> gpu \<times> kern) res" where
  "fb_write i f offset buf cnt g s =
    res_bind (kmt_sem_wait i (fb_sem f) s) (\<lambda>(yields, sm, s1).
      let f1 = f\<lparr>fb_sem := sm\<rparr> in
      if yields then Inr (None, f1, g, s1)
      else res_bind (fb_write_taken i f1 offset buf cnt g s1) (\<lambda>(r, f2, g1, s2). Inr (Some r, f2, g1, s2)))"


section \<open>A rectangle on the screen\<close>

lemma draw_row_list:
  "k + n \<le> length scr \<Longrightarrow> n \<le> length ps \<Longrightarrow>
   draw_row n (int k) ps scr = Inr (take k scr @ map mk_pixel (take n ps) @ drop (k + n) scr)"
proof (induction n arbitrary: k ps scr)
  case (Suc n)
  obtain p qs where ps: "ps = p # qs" using Suc.prems(2) by (cases ps) auto
  have "draw_row n (int (Suc k)) qs (scr[k := mk_pixel p]) =
      Inr (take (Suc k) (scr[k := mk_pixel p]) @ map mk_pixel (take n qs) @ drop (Suc k + n) (scr[k := mk_pixel p]))"
    using Suc.prems ps by (intro Suc.IH) auto
  moreover have "take (Suc k) (scr[k := mk_pixel p]) = take k scr @ [mk_pixel p]"
    using Suc.prems(1) by (simp add: take_Suc_conv_app_nth)
  ultimately show ?case using Suc.prems(1) ps by (simp add: algebra_simps)
qed simp

lemma row_index:
  fixes W :: int
  assumes "0 \<le> px" "px < W" "0 \<le> a" "a + L \<le> W" "0 \<le> L"
  shows "q * W + a \<le> py * W + px \<and> py * W + px < q * W + a + L \<longleftrightarrow> py = q \<and> a \<le> px \<and> px < a + L"
proof -
  have W: "0 < W" using assms(1,2) by linarith
  have "py * W + px < q * W" if "py < q"
  proof -
    have "(py + 1) * W \<le> q * W" using that W by (intro mult_right_mono) auto
    then show ?thesis using assms(2) by (simp add: algebra_simps)
  qed
  moreover have "q * W + a + L \<le> py * W + px" if "q < py"
  proof -
    have "(q + 1) * W \<le> py * W" using that W by (intro mult_right_mono) auto
    then show ?thesis using assms(1,4) by (simp add: algebra_simps)
  qed
  ultimately show ?thesis using assms(3,5) by (cases py q rule: linorder_cases) auto
qed

text \<open>The pixel in column \<open>px\<close> and row \<open>py\<close>.\<close>

definition pixel_at :: "gpu \<Rightarrow> int \<Rightarrow> int \<Rightarrow> pixel" where
  "pixel_at g px py = gpu_fb g ! nat (py * gpu_w g + px)"

definition screen_ok :: "gpu \<Rightarrow> bool" where
  "screen_ok g \<longleftrightarrow> 0 \<le> gpu_w g \<and> 0 \<le> gpu_h g \<and> int (length (gpu_fb g)) = gpu_w g * gpu_h g"

definition on_screen :: "gpu \<Rightarrow> int \<Rightarrow> int \<Rightarrow> bool" where
  "on_screen g px py \<longleftrightarrow> 0 \<le> px \<and> px < gpu_w g \<and> 0 \<le> py \<and> py < gpu_h g"

lemma draw_one_row:
  assumes ok: "screen_ok g" and pos: "0 \<le> x" "0 \<le> q" "q < gpu_h g" and len: "0 \<le> len \<Longrightarrow> x + len \<le> gpu_w g"
    and ps: "nat len \<le> length ps"
  shows "\<exists>scr. draw_row (nat len) (x + q * gpu_w g) ps (gpu_fb g) = Inr scr \<and> length scr = length (gpu_fb g) \<and>
     (\<forall>px py. on_screen g px py \<longrightarrow> scr ! nat (py * gpu_w g + px) =
        (if py = q \<and> x \<le> px \<and> px < x + len then mk_pixel (ps ! nat (px - x)) else pixel_at g px py))"
proof (cases "0 < len")
  case False
  then have "draw_row (nat len) (x + q * gpu_w g) ps (gpu_fb g) = Inr (gpu_fb g)" by simp
  then show ?thesis using False by (auto simp: pixel_at_def)
next
  case True
  let ?W = "gpu_w g" and ?k = "nat (x + q * gpu_w g)" and ?n = "nat len"
  have W: "0 < ?W" "x + len \<le> ?W" using True pos(1) len by linarith+
  have k: "int ?k = x + q * ?W" using pos(1,2) W by simp
  have "(q + 1) * ?W \<le> gpu_h g * ?W" using pos(3) W by (intro mult_right_mono) auto
  then have "x + q * ?W + len \<le> int (length (gpu_fb g))"
    using ok W(2) by (simp add: screen_ok_def algebra_simps)
  then have fit: "?k + ?n \<le> length (gpu_fb g)" using k True by linarith
  let ?scr = "take ?k (gpu_fb g) @ map mk_pixel (take ?n ps) @ drop (?k + ?n) (gpu_fb g)"
  have run: "draw_row ?n (x + q * ?W) ps (gpu_fb g) = Inr ?scr" using draw_row_list [OF fit ps] k by simp
  have at: "?scr ! nat (py * ?W + px) = (if py = q \<and> x \<le> px \<and> px < x + len then mk_pixel (ps ! nat (px - x)) else pixel_at g px py)"
    if "on_screen g px py" for px py
  proof -
    let ?m = "nat (py * ?W + px)"
    have "py * ?W + px < (py + 1) * ?W" using that by (simp add: on_screen_def algebra_simps)
    also have "\<dots> \<le> gpu_h g * ?W" using that W by (intro mult_right_mono) (auto simp: on_screen_def)
    finally have below: "py * ?W + px < int (length (gpu_fb g))" using ok by (simp add: screen_ok_def algebra_simps)
    have m: "int ?m = py * ?W + px" using that W by (simp add: on_screen_def)
    have "?m < length (gpu_fb g)" using below m by linarith
    have i: "q * ?W + x \<le> py * ?W + px \<and> py * ?W + px < q * ?W + x + len \<longleftrightarrow> py = q \<and> x \<le> px \<and> px < x + len"
      using that True pos W by (intro row_index) (auto simp: on_screen_def)
    have r: "?k \<le> ?m \<and> ?m < ?k + ?n \<longleftrightarrow> py = q \<and> x \<le> px \<and> px < x + len"
      unfolding i [symmetric] using m k True by linarith
    show ?thesis
    proof (cases "?k \<le> ?m \<and> ?m < ?k + ?n")
      case True
      then have pq: "py = q" "x \<le> px" using r by simp_all
      have "int ?m - int ?k = px - x" unfolding m k by (simp add: pq(1))
      then have "?m - ?k = nat (px - x)" using pq(2) by linarith
      then show ?thesis using True r fit ps by (simp add: nth_append)
    next
      case False
      then have "?m < ?k \<or> ?k + ?n \<le> ?m" by linarith
      then have "?scr ! ?m = gpu_fb g ! ?m" using fit ps \<open>?m < length (gpu_fb g)\<close> by (auto simp: nth_append)
      moreover have "\<not> (py = q \<and> x \<le> px \<and> px < x + len)" using False r by simp
      ultimately show ?thesis by (simp only: if_False pixel_at_def)
    qed
  qed
  have "length ?scr = length (gpu_fb g)" using fit ps by simp
  then show ?thesis using run at by blast
qed

lemma draw_rows_pixels:
  "screen_ok g \<Longrightarrow> 0 \<le> x \<Longrightarrow> 0 \<le> y \<Longrightarrow> 0 \<le> j \<Longrightarrow> (0 \<le> len \<Longrightarrow> x + len \<le> gpu_w g) \<Longrightarrow> len \<le> w \<Longrightarrow> 0 \<le> w \<Longrightarrow>
   n * nat w \<le> length ps \<Longrightarrow>
   \<exists>g'. draw_rows n j x y w len ps g = Inr g' \<and> screen_ok g' \<and> gpu_w g' = gpu_w g \<and> gpu_h g' = gpu_h g \<and>
     (\<forall>px py. on_screen g px py \<longrightarrow> pixel_at g' px py =
        (if x \<le> px \<and> px < x + len \<and> y + j \<le> py \<and> py < y + j + int n
         then mk_pixel (ps ! nat ((py - y - j) * w + (px - x))) else pixel_at g px py))"
proof (induction n arbitrary: j ps g)
  case 0
  then show ?case by auto
next
  case (Suc n)
  have ps: "nat len \<le> length ps" "n * nat w \<le> length (drop (nat w) ps)"
    using Suc.prems(6-8) nat_mono [OF Suc.prems(6)] by (simp_all add: algebra_simps)
  show ?case
  proof (cases "y + j < gpu_h g")
    case True
    obtain scr where scr: "draw_row (nat len) (x + (j + y) * gpu_w g) ps (gpu_fb g) = Inr scr" "length scr = length (gpu_fb g)"
      "\<forall>px py. on_screen g px py \<longrightarrow> scr ! nat (py * gpu_w g + px) =
        (if py = j + y \<and> x \<le> px \<and> px < x + len then mk_pixel (ps ! nat (px - x)) else pixel_at g px py)"
      using draw_one_row [OF Suc.prems(1,2) _ _ Suc.prems(5) ps(1), of "j + y"] True Suc.prems(3,4) by auto
    let ?g = "g\<lparr>gpu_fb := scr\<rparr>"
    have ok: "screen_ok ?g" using Suc.prems(1) scr(2) by (simp add: screen_ok_def)
    obtain g' where g': "draw_rows n (j + 1) x y w len (drop (nat w) ps) ?g = Inr g'" "screen_ok g'"
      "gpu_w g' = gpu_w g" "gpu_h g' = gpu_h g"
      "\<forall>px py. on_screen ?g px py \<longrightarrow> pixel_at g' px py =
        (if x \<le> px \<and> px < x + len \<and> y + (j + 1) \<le> py \<and> py < y + (j + 1) + int n
         then mk_pixel (drop (nat w) ps ! nat ((py - y - (j + 1)) * w + (px - x))) else pixel_at ?g px py)"
      using Suc.IH [OF ok Suc.prems(2,3) _ _ Suc.prems(6,7) ps(2), of "j + 1"] Suc.prems(4,5) by auto
    have "pixel_at g' px py = (if x \<le> px \<and> px < x + len \<and> y + j \<le> py \<and> py < y + j + int (Suc n)
         then mk_pixel (ps ! nat ((py - y - j) * w + (px - x))) else pixel_at g px py)" if on: "on_screen g px py" for px py
    proof -
      have on': "on_screen ?g px py" using on by (simp add: on_screen_def)
      have old: "pixel_at ?g px py = (if py = j + y \<and> x \<le> px \<and> px < x + len then mk_pixel (ps ! nat (px - x)) else pixel_at g px py)"
        using scr(3) on by (simp add: pixel_at_def)
      have "drop (nat w) ps ! nat ((py - y - (j + 1)) * w + (px - x)) = ps ! nat ((py - y - j) * w + (px - x))"
        if "y + (j + 1) \<le> py" "x \<le> px"
      proof -
        have "0 \<le> (py - y - (j + 1)) * w + (px - x)" using that Suc.prems(7) by simp
        then have "nat w + nat ((py - y - (j + 1)) * w + (px - x)) = nat ((py - y - j) * w + (px - x))"
          using Suc.prems(7) by (simp add: nat_add_distrib [symmetric] algebra_simps)
        moreover have "nat w \<le> length ps" using Suc.prems(8) by simp
        ultimately show ?thesis by simp
      qed
      then show ?thesis using g'(5) on' old by auto
    qed
    then show ?thesis using True scr(1) g'(1-4) by auto
  next
    case False
    obtain g' where g': "draw_rows n (j + 1) x y w len (drop (nat w) ps) g = Inr g'" "screen_ok g'"
      "gpu_w g' = gpu_w g" "gpu_h g' = gpu_h g"
      "\<forall>px py. on_screen g px py \<longrightarrow> pixel_at g' px py =
        (if x \<le> px \<and> px < x + len \<and> y + (j + 1) \<le> py \<and> py < y + (j + 1) + int n
         then mk_pixel (drop (nat w) ps ! nat ((py - y - (j + 1)) * w + (px - x))) else pixel_at g px py)"
      using Suc.IH [OF Suc.prems(1-3) _ Suc.prems(5-7) ps(2), of "j + 1"] Suc.prems(4) by auto
    have "pixel_at g' px py = pixel_at g px py" if "on_screen g px py" for px py
      using g'(5) that False by (auto simp: on_screen_def)
    then show ?thesis using False g'(1-4) by (auto simp: on_screen_def)
  qed
qed


lemma fbdraw_pixels:
  assumes "screen_ok g" and "0 \<le> x" and "0 \<le> y" and "0 \<le> w" and "nat h * nat w \<le> length ps"
  shows "\<exists>g'. gpu_fbdraw x y ps w h g = Inr g' \<and> screen_ok g' \<and> gpu_w g' = gpu_w g \<and> gpu_h g' = gpu_h g \<and>
     (\<forall>px py. on_screen g px py \<longrightarrow> pixel_at g' px py =
        (if x \<le> px \<and> px < x + w \<and> y \<le> py \<and> py < y + h
         then mk_pixel (ps ! nat ((py - y) * w + (px - x))) else pixel_at g px py))"
proof -
  let ?len = "if x + w \<ge> gpu_w g then gpu_w g - x else w"
  have len: "0 \<le> ?len \<Longrightarrow> x + ?len \<le> gpu_w g" "?len \<le> w" by auto
  obtain g' where g': "draw_rows (nat h) 0 x y w ?len ps g = Inr g'" "screen_ok g'" "gpu_w g' = gpu_w g" "gpu_h g' = gpu_h g"
    "\<forall>px py. on_screen g px py \<longrightarrow> pixel_at g' px py =
        (if x \<le> px \<and> px < x + ?len \<and> y + 0 \<le> py \<and> py < y + 0 + int (nat h)
         then mk_pixel (ps ! nat ((py - y - 0) * w + (px - x))) else pixel_at g px py)"
    using draw_rows_pixels [OF assms(1-3) _ len assms(4,5), of 0] by auto
  then have "gpu_fbdraw x y ps w h g = Inr g'" by (simp add: gpu_fbdraw_def)
  moreover have "\<forall>px py. on_screen g px py \<longrightarrow> pixel_at g' px py =
        (if x \<le> px \<and> px < x + w \<and> y \<le> py \<and> py < y + h
         then mk_pixel (ps ! nat ((py - y) * w + (px - x))) else pixel_at g px py)"
    using g'(5) by (auto simp: on_screen_def)
  ultimately show ?thesis using g'(2-4) by blast
qed

section \<open>Sprites in memory\<close>

lemma le16_bytes16: "le16 (xs @ bytes16 w @ ys) (length xs) = w"
  by (rule bit_word_eqI) (auto simp: le16_def bytes16_def nth_append bit_simps)

lemma bytes16_length [simp]: "length (bytes16 w) = 2"
  by (simp add: bytes16_def)

lemma sprite_bytes_length [simp]: "length (sprite_bytes sp) = SPRITE_SIZE"
  by (simp add: sprite_bytes_def bytes16_def SPRITE_SIZE_def)

definition sprite_ok :: "sprite \<Rightarrow> bool" where
  "sprite_ok sp \<longleftrightarrow> sp_display sp < 16 \<and> sp_z sp < 4096"

lemma small_word_bits:
  assumes "(w :: u16) < 2 ^ k" and "k < 16"
  shows "bit w n \<longleftrightarrow> n < k \<and> bit w n"
proof -
  have "unat w < 2 ^ k" using assms unat_two_power [of k, where 'a = 16] by (simp add: word_less_nat_alt)
  then have "unat (take_bit k w) = unat w" by (simp add: unsigned_take_bit_eq take_bit_nat_eq_self)
  then have "take_bit k w = w" by (simp only: word_unat_eq_iff)
  then show ?thesis by (metis bit_take_bit_iff)
qed

lemma sprite_fields:
  assumes "sprite_ok sp"
  shows "((sp_display sp AND 0xF) OR push_bit 4 (sp_z sp)) AND 0xF = sp_display sp"
    "drop_bit 4 ((sp_display sp AND 0xF) OR push_bit 4 (sp_z sp)) = sp_z sp"
proof -
  have f: "(0xF :: u16) = mask 4" by (simp add: mask_eq_exp_minus_1)
  have d: "bit (sp_display sp) n \<Longrightarrow> n < 4" and z: "bit (sp_z sp) n \<Longrightarrow> n < 12" for n
    using assms small_word_bits [of "sp_display sp" 4 n] small_word_bits [of "sp_z sp" 12 n] by (auto simp: sprite_ok_def)
  show "((sp_display sp AND 0xF) OR push_bit 4 (sp_z sp)) AND 0xF = sp_display sp"
    unfolding f by (rule bit_word_eqI) (auto simp: bit_simps dest: d)
  show "drop_bit 4 ((sp_display sp AND 0xF) OR push_bit 4 (sp_z sp)) = sp_z sp"
    unfolding f by (rule bit_word_eqI) (auto simp: bit_simps dest: z)
qed

lemma sprite_roundtrip:
  assumes "sprite_ok sp"
  shows "sprite_at (xs @ sprite_bytes sp @ ys) (length xs) = sp"
proof -
  let ?d = "(sp_display sp AND 0xF) OR push_bit 4 (sp_z sp)"
  let ?t = "bytes16 (sp_texture sp)" and ?x = "bytes16 (sp_x sp)" and ?y = "bytes16 (sp_y sp)"
  have b: "xs @ sprite_bytes sp @ ys = xs @ ?t @ ?x @ ?y @ bytes16 ?d @ ys" by (simp add: sprite_bytes_def)
  show ?thesis
    using sprite_fields [OF assms] le16_bytes16 [of xs "sp_texture sp"] le16_bytes16 [of "xs @ ?t" "sp_x sp"]
      le16_bytes16 [of "xs @ ?t @ ?x" "sp_y sp"] le16_bytes16 [of "xs @ ?t @ ?x @ ?y" ?d]
    by (simp add: sprite_at_def b)
qed


text \<open>The sprites on the current display, drawn one after the other.\<close>

fun paint :: "fb \<Rightarrow> sprite list \<Rightarrow> gpu \<Rightarrow> gpu res" where
  "paint f [] g = Inr g"
| "paint f (sp # sps) g =
    (if sp_texture sp > 0 \<and> uint (sp_display sp) = current (fb_info f) then
       (if length (textures f) < (unat (sp_texture sp) + 1) * TEXTURE_SIZE then Inl Undefined
        else res_bind (gpu_fbdraw (uint (sp_x sp)) (uint (sp_y sp)) (texture_pixels (textures f) (unat (sp_texture sp))) TEXTURE_W TEXTURE_H g)
               (paint f sps))
     else paint f sps g)"

lemma sprites_length [simp]: "length (concat (map sprite_bytes sps)) = SPRITE_SIZE * length sps"
  by (induction sps) simp_all

lemma draw_sprites_paint:
  assumes "\<forall>sp \<in> set sps. sprite_ok sp"
  shows "draw_sprites f (xs @ concat (map sprite_bytes sps)) (length xs + SPRITE_SIZE * length sps) (length xs) g = paint f sps g"
  using assms
proof (induction sps arbitrary: xs g)
  case Nil
  show ?case by (subst draw_sprites.simps) simp
next
  case (Cons sp sps)
  let ?b = "xs @ concat (map sprite_bytes (sp # sps))" and ?n = "length xs + SPRITE_SIZE * length (sp # sps)"
  have at: "sprite_at ?b (length xs) = sp" using sprite_roundtrip [of sp xs] Cons.prems by simp
  have rest: "draw_sprites f ?b ?n (length xs + SPRITE_SIZE) g1 = paint f sps g1" for g1
    using Cons.IH [of "xs @ sprite_bytes sp" g1] Cons.prems by (simp add: add.assoc)
  have len: "\<not> length ?b < length xs + SPRITE_SIZE" "\<not> ?n \<le> length xs" by (simp_all add: SPRITE_SIZE_def)
  have "draw_sprites f ?b ?n (length xs) g =
      res_bind (if sp_texture sp > 0 \<and> uint (sp_display sp) = current (fb_info f) then
            (if length (textures f) < (unat (sp_texture sp) + 1) * TEXTURE_SIZE then Inl Undefined
             else gpu_fbdraw (uint (sp_x sp)) (uint (sp_y sp)) (texture_pixels (textures f) (unat (sp_texture sp))) TEXTURE_W TEXTURE_H g)
          else Inr g) (\<lambda>g1. draw_sprites f ?b ?n (length xs + SPRITE_SIZE) g1)"
    by (subst draw_sprites.simps) (simp only: len at Let_def if_False)
  then show ?case unfolding rest by simp
qed

section \<open>Properties\<close>

text \<open>
  C26: drawing a rectangle at a position on or beyond the screen changes exactly the pixels of the
  screen that the rectangle covers, each to the colour of its place in the rectangle, whatever part
  of it lies to the right of the screen or below it; nothing outside the screen is written.
\<close>

theorem gpu_fbdraw_rectangle:
  assumes "screen_ok g" and "0 \<le> x" and "0 \<le> y" and "0 \<le> w" and "nat h * nat w \<le> length ps"
  shows "\<exists>g'. gpu_fbdraw x y ps w h g = Inr g' \<and> length (gpu_fb g') = length (gpu_fb g) \<and>
     (\<forall>px py. on_screen g px py \<longrightarrow> pixel_at g' px py =
        (if x \<le> px \<and> px < x + w \<and> y \<le> py \<and> py < y + h
         then mk_pixel (ps ! nat ((py - y) * w + (px - x))) else pixel_at g px py))"
proof -
  obtain g' where g': "gpu_fbdraw x y ps w h g = Inr g'" "screen_ok g'" "gpu_w g' = gpu_w g" "gpu_h g' = gpu_h g"
    "\<forall>px py. on_screen g px py \<longrightarrow> pixel_at g' px py =
        (if x \<le> px \<and> px < x + w \<and> y \<le> py \<and> py < y + h
         then mk_pixel (ps ! nat ((py - y) * w + (px - x))) else pixel_at g px py)"
    using fbdraw_pixels [OF assms] by blast
  then have "length (gpu_fb g') = length (gpu_fb g)" using assms(1) by (simp add: screen_ok_def flip: of_nat_eq_iff [where 'a = int])
  then show ?thesis using g'(1,5) by blast
qed

definition small_screen :: gpu where
  "small_screen = \<lparr>gpu_w = 3, gpu_h = 2, gpu_fb = replicate 6 (mk_pixel 0)\<rparr>"

theorem gpu_fbdraw_rectangle_witness:
  "\<exists>g'. gpu_fbdraw 2 1 [1, 2, 3, 4] 2 2 small_screen = Inr g' \<and> pixel_at g' 2 1 = mk_pixel 1 \<and> pixel_at g' 1 1 = mk_pixel 0"
proof -
  have "screen_ok small_screen" by (simp add: screen_ok_def small_screen_def)
  then obtain g' where "gpu_fbdraw 2 1 [1, 2, 3, 4] 2 2 small_screen = Inr g'"
    "\<forall>px py. on_screen small_screen px py \<longrightarrow> pixel_at g' px py =
        (if 2 \<le> px \<and> px < 2 + 2 \<and> 1 \<le> py \<and> py < 1 + 2
         then mk_pixel ([1, 2, 3, 4] ! nat ((py - 1) * 2 + (px - 2))) else pixel_at small_screen px py)"
    using gpu_fbdraw_rectangle [of small_screen 2 1 2 2 "[1, 2, 3, 4]"] by auto
  moreover have "on_screen small_screen 2 1" "on_screen small_screen 1 1" "pixel_at small_screen 1 1 = mk_pixel 0"
    by (simp_all add: on_screen_def small_screen_def pixel_at_def)
  ultimately show ?thesis by auto
qed

text \<open>
  C27: a list of sprites in their packed encoding, written to the device at the sprites' offset, is
  decoded to the same sprites and those on the current display are drawn in their order; the
  decoding of a sprite at any place of the buffer gives back its fields.
\<close>

theorem fb_write_sprites:
  assumes "\<forall>sp \<in> set sps. sprite_ok sp"
  shows "fb_write_body f SPRITE_BRK (concat (map sprite_bytes sps)) (int (SPRITE_SIZE * length sps)) g =
       res_bind (paint f sps g) (\<lambda>g1. Inr (f, g1)) \<and>
     (\<forall>k < length sps. sprite_at (concat (map sprite_bytes sps)) (SPRITE_SIZE * k) = sps ! k)"
proof
  show "fb_write_body f SPRITE_BRK (concat (map sprite_bytes sps)) (int (SPRITE_SIZE * length sps)) g =
       res_bind (paint f sps g) (\<lambda>g1. Inr (f, g1))"
    using draw_sprites_paint [OF assms, of f "[]" g] by (simp add: fb_write_body_def SPRITE_BRK_def nat_mult_distrib)
  show "\<forall>k < length sps. sprite_at (concat (map sprite_bytes sps)) (SPRITE_SIZE * k) = sps ! k"
  proof (intro allI impI)
    fix k assume k: "k < length sps"
    have "sps = take k sps @ sps ! k # drop (Suc k) sps" using k by (rule id_take_nth_drop)
    then have "concat (map sprite_bytes sps) =
        concat (map sprite_bytes (take k sps)) @ sprite_bytes (sps ! k) @ concat (map sprite_bytes (drop (Suc k) sps))"
      by (metis concat.simps(2) concat_append list.simps(9) map_append)
    then show "sprite_at (concat (map sprite_bytes sps)) (SPRITE_SIZE * k) = sps ! k"
      using sprite_roundtrip [of "sps ! k" "concat (map sprite_bytes (take k sps))"] assms k by (simp add: min_def)
  qed
qed

theorem fb_write_sprites_witness:
  "sprite_at (sprite_bytes \<lparr>sp_texture = 131, sp_x = 16, sp_y = 32, sp_display = 1, sp_z = 5\<rparr>) 0 =
     \<lparr>sp_texture = 131, sp_x = 16, sp_y = 32, sp_display = 1, sp_z = 5\<rparr>"
  using fb_write_sprites [of "[\<lparr>sp_texture = 131, sp_x = 16, sp_y = 32, sp_display = 1, sp_z = 5\<rparr>]"]
  by (simp add: sprite_ok_def)

end
