(* ===== verification/Dev_Tty.thy ===== *)
theory Dev_Tty
  imports Dev_Input Dev_Video
begin

text \<open>
  The virtual consoles (\<open>kernel/src/dev/dev_tty.c\<close>): the queue that collects the characters of a
  line, the screen with its cursor, and the two of them as a device. Pointers into an array are
  indices here, and the pointer to its end is its length. A routine that waits on a semaphore that is
  not available ends there with \<open>None\<close>.
\<close>

section \<open>Data\<close>

record character =
  ch_metadata :: u32
  ch_ch :: u8

record tty_queue =
  q_buf :: "u8 list"
  q_front :: int
  q_rear :: int

record tty =
  tty_lock :: sem
  cooked :: sem
  tty_display :: int
  lines :: int
  columns :: int
  tty_size :: int
  tty_buf :: "character list"
  cursor :: int
  queue :: tty_queue
  dirty :: "u8 list"

definition TTY_COOK_BUF_SZ :: nat where "TTY_COOK_BUF_SZ = 1024"

definition tty_defaultch :: character where
  "tty_defaultch = \<lparr>ch_metadata = 0, ch_ch = 0\<rparr>"

section \<open>The queue\<close>

definition tty_enqueue :: "tty_queue \<Rightarrow> u8 \<Rightarrow> tty_queue res" where
  "tty_enqueue q ch =
    (let n = int (length (q_buf q)) in
     if q_rear q < 0 \<or> n \<le> q_rear q then Inl Undefined
     else
       let b = (q_buf q)[nat (q_rear q) := ch];
           r = q_rear q + 1;
           r' = (if r = n then 0 else r) in
       if r' = q_front q then Inl (Panic ''tty queue full'')
       else Inr (q\<lparr>q_buf := b[nat r' := 0], q_rear := r'\<rparr>))"

definition tty_pop_back :: "tty_queue \<Rightarrow> (int \<times> tty_queue) res" where
  "tty_pop_back q =
    (let n = int (length (q_buf q)) in
     if q_front q \<noteq> n then
       let pos = (if q_rear q = 0 then n else q_rear q) in
       if pos - 1 < 0 \<or> n \<le> pos - 1 then Inl Undefined
       else if q_buf q ! nat (pos - 1) \<noteq> 0 then
         Inr (0, q\<lparr>q_rear := pos - 1, q_buf := (q_buf q)[nat (pos - 1) := 0]\<rparr>)
       else Inr (1, q)
     else Inr (1, q))"

text \<open>The part of \<open>tty_cook\<close> under the lock; the flag says whether a line has been completed.\<close>

definition tty_cook_key :: "tty_queue \<Rightarrow> u8 \<Rightarrow> (int \<times> bool \<times> tty_queue) res" where
  "tty_cook_key q ch =
    (if ch = 10 then
       res_bind (tty_enqueue q ch) (\<lambda>q1. res_bind (tty_enqueue q1 0) (\<lambda>q2. Inr (0, True, q2)))
     else if ch = 8 then res_bind (tty_pop_back q) (\<lambda>(r, q1). Inr (r, False, q1))
     else res_bind (tty_enqueue q ch) (\<lambda>q1. Inr (0, False, q1)))"

definition tty_next_char :: "tty_queue \<Rightarrow> (u8 \<times> tty_queue) res" where
  "tty_next_char q =
    (let n = int (length (q_buf q)) in
     if q_front q < 0 \<or> n \<le> q_front q then Inl Undefined
     else Inr (q_buf q ! nat (q_front q), q\<lparr>q_front := (if q_front q + 1 = n then 0 else q_front q + 1)\<rparr>))"

text \<open>
  The loop of \<open>tty_read\<close>, \<open>k\<close> characters left to look at: without a 0 in the whole array it does not end.
\<close>

fun tty_read_loop :: "nat \<Rightarrow> tty_queue \<Rightarrow> int \<Rightarrow> u8 list \<Rightarrow> (u8 list \<times> tty_queue) res" where
  "tty_read_loop 0 q cnt acc = Inl Hang"
| "tty_read_loop (Suc k) q cnt acc =
    res_bind (tty_next_char q) (\<lambda>(ch, q1).
      let acc1 = (if int (length acc) < cnt \<and> ch \<noteq> 0 then acc @ [ch] else acc) in
      if ch = 0 then Inr (acc1, q1) else tty_read_loop k q1 cnt acc1)"

section \<open>The screen\<close>

text \<open>\<open>memmove\<close> of \<open>n\<close> elements from index \<open>k\<close> to the beginning.\<close>

definition move_down :: "int \<Rightarrow> int \<Rightarrow> 'a list \<Rightarrow> 'a list res" where
  "move_down k n xs =
    (if k < 0 \<or> n < 0 \<or> int (length xs) < k + n then Inl Undefined
     else Inr (take (nat n) (drop (nat k) xs) @ drop (nat n) xs))"

fun clear_cells :: "nat \<Rightarrow> int \<Rightarrow> character list \<Rightarrow> character list res" where
  "clear_cells 0 c b = Inr b"
| "clear_cells (Suc n) c b =
    (if c < 0 \<or> int (length b) \<le> c then Inl Undefined else clear_cells n (c + 1) (b[nat c := tty_defaultch]))"

definition tty_upd_scrollup :: "tty \<Rightarrow> tty res" where
  "tty_upd_scrollup t =
    (let move_sz = columns t * (lines t - 1) in
     res_bind (move_down (columns t) move_sz (tty_buf t)) (\<lambda>b.
     res_bind (move_down (columns t) move_sz (dirty t)) (\<lambda>d.
     let c = cursor t - columns t in
     res_bind (clear_cells (nat (columns t)) c b) (\<lambda>b1.
       Inr (t\<lparr>tty_buf := b1, dirty := d, cursor := c\<rparr>)))))"

definition tty_upd_cr :: "tty \<Rightarrow> tty res" where
  "tty_upd_cr t = (if columns t = 0 then Inl Undefined else Inr (t\<lparr>cursor := cursor t - cursor t mod columns t\<rparr>))"

definition tty_upd_lf :: "tty \<Rightarrow> tty" where
  "tty_upd_lf t = t\<lparr>cursor := cursor t + columns t\<rparr>"

definition put_cell :: "int \<Rightarrow> u8 \<Rightarrow> tty \<Rightarrow> tty res" where
  "put_cell c ch t =
    (if c < 0 \<or> int (length (tty_buf t)) \<le> c then Inl Undefined
     else Inr (t\<lparr>tty_buf := (tty_buf t)[nat c := (tty_buf t ! nat c)\<lparr>ch_ch := ch\<rparr>]\<rparr>))"

definition tty_upd_backsp :: "tty \<Rightarrow> tty res" where
  "tty_upd_backsp t = (if cursor t > 0 then put_cell (cursor t - 1) 0 (t\<lparr>cursor := cursor t - 1\<rparr>) else Inr t)"

definition tty_upd_putc :: "u8 \<Rightarrow> tty \<Rightarrow> tty res" where
  "tty_upd_putc ch t = res_bind (put_cell (cursor t) ch t) (\<lambda>t1. Inr (t1\<lparr>cursor := cursor t1 + 1\<rparr>))"

definition tty_mark :: "int \<Rightarrow> tty \<Rightarrow> tty res" where
  "tty_mark c t = (if c < 0 \<or> int (length (dirty t)) \<le> c then Inl Undefined else Inr (t\<lparr>dirty := (dirty t)[nat c := 1]\<rparr>))"

text \<open>The loops of \<open>tty_mark_line\<close> and \<open>tty_mark_all\<close>: \<open>n\<close> cells from \<open>c\<close> on.\<close>

fun tty_mark_from :: "nat \<Rightarrow> int \<Rightarrow> tty \<Rightarrow> tty res" where
  "tty_mark_from 0 c t = Inr t"
| "tty_mark_from (Suc n) c t = res_bind (tty_mark c t) (\<lambda>t1. tty_mark_from n (c + 1) t1)"

definition tty_mark_line :: "int \<Rightarrow> tty \<Rightarrow> tty res" where
  "tty_mark_line c t =
    (if columns t = 0 then Inl Undefined
     else let x = c mod columns t in tty_mark_from (nat (columns t)) (c - x) t)"

definition tty_mark_all :: "tty \<Rightarrow> tty res" where
  "tty_mark_all t = tty_mark_from (nat (tty_size t)) 0 t"

definition tty_putc :: "u8 \<Rightarrow> tty \<Rightarrow> tty res" where
  "tty_putc ch t =
    (if ch = 13 then res_bind (tty_upd_cr t) (\<lambda>t1. tty_mark_line (cursor t1) t1)
     else if ch = 8 then
       res_bind (tty_upd_backsp t) (\<lambda>t1. res_bind (tty_mark (cursor t1) t1) (\<lambda>t2. tty_mark (cursor t2 + 1) t2))
     else if ch = 10 then
       res_bind (tty_upd_cr t) (\<lambda>t1.
       let t2 = tty_upd_lf t1 in
       if cursor t2 = tty_size t2 then res_bind (tty_upd_scrollup t2) tty_mark_all
       else res_bind (tty_mark_line (cursor t2 - columns t2) t2) (\<lambda>t3. tty_mark_line (cursor t3) t3))
     else
       res_bind (tty_upd_putc ch t) (\<lambda>t1.
       if cursor t1 = tty_size t1 then res_bind (tty_upd_scrollup t1) tty_mark_all
       else res_bind (tty_mark (cursor t1 - 1) t1) (\<lambda>t2. tty_mark (cursor t2) t2)))"

fun tty_puts :: "u8 list \<Rightarrow> tty \<Rightarrow> tty res" where
  "tty_puts [] t = Inr t"
| "tty_puts (c # s) t = res_bind (tty_putc c t) (tty_puts s)"

text \<open>
  The sprites of the cells that are dirty, row by row: two for each character, the upper and the
  lower half. \<open>k\<close> is the index of the cell, \<open>n\<close> the number of cells left.
\<close>

definition cell_sprites :: "bool \<Rightarrow> tty \<Rightarrow> int \<Rightarrow> sprite list" where
  "cell_sprites show_cursor t k =
    (let x = k mod columns t; y = k div columns t;
         draw = (if k = cursor t \<and> show_cursor then 0xdb else uint (ch_ch (tty_buf t ! nat k))) in
     [\<lparr>sp_texture = word_of_int (draw * 2 + 1), sp_x = word_of_int (x * 8), sp_y = word_of_int (y * 16),
        sp_display = word_of_int (tty_display t) AND 0xF, sp_z = 0\<rparr>,
      \<lparr>sp_texture = word_of_int (draw * 2 + 2), sp_x = word_of_int (x * 8), sp_y = word_of_int (y * 16 + 8),
        sp_display = word_of_int (tty_display t) AND 0xF, sp_z = 0\<rparr>])"

fun render_from :: "nat \<Rightarrow> int \<Rightarrow> bool \<Rightarrow> tty \<Rightarrow> sprite list res" where
  "render_from 0 k show_cursor t = Inr []"
| "render_from (Suc n) k show_cursor t =
    (if k < 0 \<or> int (length (dirty t)) \<le> k \<or> int (length (tty_buf t)) \<le> k then Inl Undefined
     else res_bind (render_from n (k + 1) show_cursor t) (\<lambda>sps.
       Inr ((if dirty t ! nat k \<noteq> 0 then cell_sprites show_cursor t k else []) @ sps)))"


section \<open>The device\<close>

text \<open>
  The consoles with what they share: the frame buffer, the screen of the machine, the flag
  \<open>show_cursor\<close>, the text of the welcome message, and the kernel.
\<close>

record console =
  con_ttys :: "tty list"
  con_fb :: fb
  con_gpu :: gpu
  con_show :: bool
  con_text :: "u8 list"
  con_kern :: kern

definition get_tty :: "nat \<Rightarrow> console \<Rightarrow> tty" where
  "get_tty n c = con_ttys c ! n"

definition put_tty :: "nat \<Rightarrow> tty \<Rightarrow> console \<Rightarrow> console" where
  "put_tty n t c = c\<lparr>con_ttys := (con_ttys c)[n := t]\<rparr>"

type_synonym 'a turn = "('a option \<times> console) res"

text \<open>What follows a routine that may have given up the CPU.\<close>

definition turn_bind :: "'a turn \<Rightarrow> ('a \<Rightarrow> console \<Rightarrow> 'b turn) \<Rightarrow> 'b turn" where
  "turn_bind m f = res_bind m (\<lambda>(r, c). case r of None \<Rightarrow> Inr (None, c) | Some x \<Rightarrow> f x c)"

definition lock_wait :: "nat \<Rightarrow> nat \<Rightarrow> console \<Rightarrow> unit turn" where
  "lock_wait i n c = res_bind (kmt_sem_wait i (tty_lock (get_tty n c)) (con_kern c)) (\<lambda>(yields, sm, s).
     Inr (if yields then None else Some (), put_tty n ((get_tty n c)\<lparr>tty_lock := sm\<rparr>) (c\<lparr>con_kern := s\<rparr>)))"

definition lock_signal :: "nat \<Rightarrow> nat \<Rightarrow> console \<Rightarrow> console res" where
  "lock_signal i n c = res_bind (kmt_sem_signal i (tty_lock (get_tty n c)) (con_kern c)) (\<lambda>(sm, s).
     Inr (put_tty n ((get_tty n c)\<lparr>tty_lock := sm\<rparr>) (c\<lparr>con_kern := s\<rparr>)))"

definition cooked_wait :: "nat \<Rightarrow> nat \<Rightarrow> console \<Rightarrow> unit turn" where
  "cooked_wait i n c = res_bind (kmt_sem_wait i (cooked (get_tty n c)) (con_kern c)) (\<lambda>(yields, sm, s).
     Inr (if yields then None else Some (), put_tty n ((get_tty n c)\<lparr>cooked := sm\<rparr>) (c\<lparr>con_kern := s\<rparr>)))"

definition cooked_signal :: "nat \<Rightarrow> nat \<Rightarrow> console \<Rightarrow> console res" where
  "cooked_signal i n c = res_bind (kmt_sem_signal i (cooked (get_tty n c)) (con_kern c)) (\<lambda>(sm, s).
     Inr (put_tty n ((get_tty n c)\<lparr>cooked := sm\<rparr>) (c\<lparr>con_kern := s\<rparr>)))"

definition con_fb_write :: "nat \<Rightarrow> int \<Rightarrow> u8 list \<Rightarrow> int \<Rightarrow> console \<Rightarrow> int turn" where
  "con_fb_write i offset buf cnt c = res_bind (fb_write i (con_fb c) offset buf cnt (con_gpu c) (con_kern c)) (\<lambda>(r, f, g, s).
     Inr (r, c\<lparr>con_fb := f, con_gpu := g, con_kern := s\<rparr>))"

definition tty_cook :: "nat \<Rightarrow> nat \<Rightarrow> u8 \<Rightarrow> console \<Rightarrow> int turn" where
  "tty_cook i n ch c =
    turn_bind (lock_wait i n c) (\<lambda>_ c1.
    res_bind (tty_cook_key (queue (get_tty n c1)) ch) (\<lambda>(ret, complete, q).
    let c2 = put_tty n ((get_tty n c1)\<lparr>queue := q\<rparr>) c1 in
    res_bind (if complete then cooked_signal i n c2 else Inr c2) (\<lambda>c3.
    res_bind (lock_signal i n c3) (\<lambda>c4. Inr (Some ret, c4)))))"

definition tty_render :: "nat \<Rightarrow> nat \<Rightarrow> console \<Rightarrow> unit turn" where
  "tty_render i n c =
    turn_bind (lock_wait i n c) (\<lambda>_ c1.
    let t = get_tty n c1 in
    res_bind (render_from (nat (lines t * columns t)) 0 (con_show c1) t) (\<lambda>sps.
    turn_bind (con_fb_write i SPRITE_BRK (concat (map sprite_bytes sps)) (int (SPRITE_SIZE * length sps)) c1) (\<lambda>_ c2.
    let t2 = get_tty n c2 in
    if int (length (dirty t2)) < tty_size t2 \<or> tty_size t2 < 0 then Inl Undefined
    else
      let d = replicate (nat (tty_size t2)) 0 @ drop (nat (tty_size t2)) (dirty t2) in
      res_bind (lock_signal i n (put_tty n (t2\<lparr>dirty := d\<rparr>) c2)) (\<lambda>c3. Inr (Some (), c3)))))"

text \<open>\<open>count\<close> characters are written; fewer in the buffer is a read outside it.\<close>

definition tty_write :: "nat \<Rightarrow> nat \<Rightarrow> u8 list \<Rightarrow> int \<Rightarrow> console \<Rightarrow> int turn" where
  "tty_write i n buf cnt c =
    turn_bind (lock_wait i n c) (\<lambda>_ c1.
    if int (length buf) < cnt then Inl Undefined
    else res_bind (tty_puts (take (nat cnt) buf) (get_tty n c1)) (\<lambda>t.
    res_bind (lock_signal i n (put_tty n t c1)) (\<lambda>c2.
    turn_bind (tty_render i n c2) (\<lambda>_ c3. Inr (Some cnt, c3)))))"

text \<open>The bytes stored in the caller's buffer; the value returned is their number.\<close>

definition tty_read :: "nat \<Rightarrow> nat \<Rightarrow> int \<Rightarrow> console \<Rightarrow> u8 list turn" where
  "tty_read i n cnt c =
    turn_bind (cooked_wait i n c) (\<lambda>_ c1.
    turn_bind (lock_wait i n c1) (\<lambda>_ c2.
    let t = get_tty n c2 in
    res_bind (tty_read_loop (length (q_buf (queue t))) (queue t) cnt []) (\<lambda>(out, q).
    res_bind (lock_signal i n (put_tty n (t\<lparr>queue := q\<rparr>) c2)) (\<lambda>c3. Inr (Some out, c3)))))"

section \<open>Start-up\<close>

definition welcome_text :: "u8 list" where
  "welcome_text = map (\<lambda>ch. if ch = CHR ''$'' then 10 else of_char ch)
    ('' 1111112 11111112112      111112 1111112 $'' @
     ''11533311211533336114     1153311211533112$'' @
     ''114   11411111112114     1111111411111156$'' @
     ''114   11473333114114     1153311411533112$'' @
     ''7111111561111111411111112114  11411111156$'' @
     '' 7333336 7333333673333336736  7367333336 $'')"

definition welcome_char :: "u8 \<Rightarrow> u8" where
  "welcome_char p =
    (if p = 49 then 219 else if p = 50 then 187 else if p = 51 then 205 else if p = 52 then 186
     else if p = 53 then 201 else if p = 54 then 188 else if p = 55 then 200 else p)"

text \<open>The message is changed in place: the loop goes up to the first 0, the last byte of the array.\<close>

definition tty_welcome :: "nat \<Rightarrow> nat \<Rightarrow> console \<Rightarrow> int turn" where
  "tty_welcome i n c =
    (let c1 = c\<lparr>con_text := map welcome_char (takeWhile (\<lambda>p. p \<noteq> 0) (con_text c)) @ dropWhile (\<lambda>p. p \<noteq> 0) (con_text c)\<rparr> in
     tty_write i n (con_text c1) (int (length (con_text c1))) c1)"

text \<open>
  \<open>tty_init\<close> of the device with number \<open>dev_id\<close>, whose console has the index \<open>n\<close>; \<open>mem\<close> is what
  the arrays it allocates hold.
\<close>

definition tty_init :: "nat \<Rightarrow> nat \<Rightarrow> int \<Rightarrow> (nat \<Rightarrow> u8) \<Rightarrow> console \<Rightarrow> unit turn" where
  "tty_init i n dev_id mem c =
    (let info = fb_info (con_fb c);
         ls = height info div 16; cs = width info div 8; sz = cs * ls in
     res_bind (palloc i (sz * 8) (con_kern c)) (\<lambda>(p, s1).
     res_bind (palloc i sz s1) (\<lambda>(d, s2).
     res_bind (palloc i (sz * 2 * int SPRITE_SIZE) s2) (\<lambda>(_, s3).
     if sz > 0 \<and> (p = 0 \<or> d = 0) then Inl Undefined
     else res_bind (palloc i (int TTY_COOK_BUF_SZ) s3) (\<lambda>(q, s4).
     let t = (get_tty n c)\<lparr>tty_display := dev_id - 1, lines := ls, columns := cs, tty_size := sz,
           tty_buf := replicate (nat sz) tty_defaultch, dirty := replicate (nat sz) 0, cursor := 0,
           queue := \<lparr>q_buf = (if q = 0 then [] else map mem [0..<TTY_COOK_BUF_SZ]), q_front = 0, q_rear = 0\<rparr>\<rparr> in
     res_bind (kmt_sem_init i (tty_lock t) ''tty lock'' 1 s4) (\<lambda>(l, s5).
     res_bind (kmt_sem_init i (cooked t) ''tty cooked lines'' 0 s5) (\<lambda>(k, s6).
     turn_bind (tty_welcome i n (put_tty n (t\<lparr>tty_lock := l, cooked := k\<rparr>) (c\<lparr>con_kern := s6\<rparr>))) (\<lambda>_ c1.
       Inr (Some (), c1)))))))))"

section \<open>The task of the consoles\<close>

text \<open>
  One round of \<open>dev_tty_task\<close> after it has read the event \<open>ev\<close>: \<open>n\<close> is the console it works on (0
  for tty1, 1 for tty2), \<open>now\<close> the clock. The result has the console and the time it goes on with.
\<close>

definition con_print :: "string \<Rightarrow> console \<Rightarrow> console" where
  "con_print m c = c\<lparr>con_kern := (con_kern c)\<lparr>k_out := k_out (con_kern c) @ map of_char m\<rparr>\<rparr>"

definition next_tty :: "input_event \<Rightarrow> nat \<Rightarrow> nat" where
  "next_tty ev n =
    (if ev_alt ev then (if ev_data ev = 50 then 1 else if ev_data ev = 49 then 0 else n) else n)"

definition tty_switch :: "nat \<Rightarrow> nat \<Rightarrow> nat \<Rightarrow> console \<Rightarrow> unit turn" where
  "tty_switch i n n' c =
    (if n' = n then Inr (Some (), c)
     else
       let c0 = con_print (''(tty) Switch to tty'' @ (if n' = 0 then ''1'' else ''2'') @ ''.'' @ [CHR 0x0A]) c in
       res_bind (tty_mark_all (get_tty n' c0)) (\<lambda>t.
       let c1 = put_tty n' t c0;
           info = concat (map bytes32 [0, 0, 0, word_of_int (tty_display t), 0, 0]) in
       turn_bind (con_fb_write i 0 info (int INFO_SIZE) c1) (\<lambda>_ c2.
       turn_bind (tty_write i n' [] 0 c2) (\<lambda>_ c3. Inr (Some (), c3)))))"

definition tty_accept :: "nat \<Rightarrow> nat \<Rightarrow> input_event \<Rightarrow> console \<Rightarrow> unit turn" where
  "tty_accept i n ev c =
    (if \<not> ev_ctrl ev \<and> \<not> ev_alt ev \<and> ev_data ev \<noteq> 0 then
       let ch = ucast (ev_data ev) in
       turn_bind (tty_cook i n ch c) (\<lambda>r c1.
         if r = 0 then turn_bind (tty_write i n [ch] 1 c1) (\<lambda>_ c2. Inr (Some (), c2)) else Inr (Some (), c1))
     else Inr (Some (), c))"

definition tty_blink :: "nat \<Rightarrow> nat \<Rightarrow> input_event \<Rightarrow> u64 \<Rightarrow> u64 \<Rightarrow> console \<Rightarrow> u64 turn" where
  "tty_blink i n ev now known c =
    (let changed = (ev_data ev \<noteq> 0) in
     if changed \<or> (now - known) div 1000 > 500 then
       let c1 = c\<lparr>con_show := \<not> con_show c \<or> changed\<rparr> in
       res_bind (tty_mark (cursor (get_tty n c1)) (get_tty n c1)) (\<lambda>t.
       turn_bind (tty_write i n [] 0 (put_tty n t c1)) (\<lambda>_ c2. Inr (Some now, c2)))
     else Inr (Some known, c))"

definition tty_round :: "nat \<Rightarrow> nat \<Rightarrow> input_event \<Rightarrow> u64 \<Rightarrow> u64 \<Rightarrow> console \<Rightarrow> (nat \<times> u64) turn" where
  "tty_round i n ev now known c =
    (let n' = next_tty ev n in
     turn_bind (tty_switch i n n' c) (\<lambda>_ c1.
     let c1' = (if ev_ctrl ev \<and> ev_data ev = 99 then con_print (''(tty) Ctrl-c pressed.'' @ [CHR 0x0A]) c1 else c1) in
     turn_bind (tty_accept i n' ev c1') (\<lambda>_ c2.
     turn_bind (tty_blink i n' ev now known c2) (\<lambda>k c3. Inr (Some (n', k), c3)))))"

end
