(* ===== verification/Tty_Line.thy ===== *)
theory Tty_Line
  imports Dev_Tty
begin

text \<open>
  The line discipline of the consoles: the array of \<open>struct tty_queue\<close> is a queue, the keys typed
  edit the last line in it, and \<open>tty_read\<close> gives the lines back one by one.
\<close>

section \<open>The queue of characters\<close>

definition tq_items :: "tty_queue \<Rightarrow> u8 list" where
  "tq_items q = ring (q_buf q) (nat (q_front q)) (nat (q_rear q))"

definition tq_ok :: "tty_queue \<Rightarrow> bool" where
  "tq_ok q \<longleftrightarrow> length (q_buf q) = TTY_COOK_BUF_SZ \<and> 0 \<le> q_front q \<and> q_front q < int TTY_COOK_BUF_SZ \<and>
     0 \<le> q_rear q \<and> q_rear q < int TTY_COOK_BUF_SZ"

text \<open>The character before the front is a 0, the end of the line read last.\<close>

definition tq_fresh :: "tty_queue \<Rightarrow> bool" where
  "tq_fresh q \<longleftrightarrow> q_buf q ! ring_pred TTY_COOK_BUF_SZ (nat (q_front q)) = 0"

lemma tq_nat:
  "tq_ok q \<Longrightarrow> nat (q_front q) < TTY_COOK_BUF_SZ" "tq_ok q \<Longrightarrow> nat (q_rear q) < TTY_COOK_BUF_SZ"
  by (auto simp: tq_ok_def TTY_COOK_BUF_SZ_def)

lemma wrap_nat:
  "0 \<le> r \<Longrightarrow> r < int n \<Longrightarrow> nat (if r + 1 = int n then 0 else r + 1) = Suc (nat r) mod n"
  by (auto simp: nat_add_distrib mod_Suc)

lemma tty_enqueue_room:
  assumes ok: "tq_ok q" and room: "Suc (length (tq_items q)) < TTY_COOK_BUF_SZ"
  shows "\<exists>q'. tty_enqueue q ch = Inr q' \<and> tq_ok q' \<and> tq_items q' = tq_items q @ [ch] \<and> (tq_fresh q \<longrightarrow> tq_fresh q')"
proof -
  let ?n = TTY_COOK_BUF_SZ and ?f = "nat (q_front q)" and ?r = "nat (q_rear q)"
  let ?r' = "if q_rear q + 1 = int ?n then 0 else q_rear q + 1"
  have o: "length (q_buf q) = ?n" "0 \<le> q_front q" "0 \<le> q_rear q" "q_rear q < int ?n" "q_front q < int ?n"
    using ok by (simp_all add: tq_ok_def)
  have r': "nat ?r' = Suc ?r mod ?n" "0 \<le> ?r'" "?r' < int ?n" using o wrap_nat [of "q_rear q" ?n] by auto
  have len: "Suc (ring_len ?n ?f ?r) < ?n" using room o(1) by (simp add: tq_items_def length_ring)
  have nf: "Suc ?r mod ?n \<noteq> ?f"
    using len tq_nat [OF ok] by (auto simp: ring_len_eq mod_Suc split: if_splits)
  then have ne: "?r' \<noteq> q_front q" using r'(1) by metis
  let ?q = "q\<lparr>q_buf := (q_buf q)[?r := ch, nat ?r' := 0], q_rear := ?r'\<rparr>"
  have run: "tty_enqueue q ch = Inr ?q" using o ne by (simp add: tty_enqueue_def Let_def)
  have "ring ((q_buf q)[?r := ch, Suc ?r mod ?n := 0]) ?f (Suc ?r mod ?n) = ring ((q_buf q)[?r := ch]) ?f (Suc ?r mod ?n)"
    using o(1) tq_nat [OF ok] by (intro ring_update_rear) (simp_all add: TTY_COOK_BUF_SZ_def)
  also have "\<dots> = ring (q_buf q) ?f ?r @ [ch]"
    using ring_push [of ?f "q_buf q" ?r ch] o(1) nf tq_nat [OF ok] by simp
  finally have items: "tq_items ?q = tq_items q @ [ch]" by (simp add: tq_items_def r'(1))
  have "ring_pred ?n ?f \<noteq> ?r" using nf ring_pred_suc(1) [OF tq_nat(1) [OF ok]] by auto
  then have fresh: "tq_fresh q \<longrightarrow> tq_fresh ?q"
    using o(1) tq_nat [OF ok] ring_pred_suc(2) [OF tq_nat(1) [OF ok]] unfolding tq_fresh_def
    by (auto simp: nth_list_update r'(1))
  have "tq_ok ?q" using o r' by (simp add: tq_ok_def)
  then show ?thesis using run items fresh by blast
qed

lemma tty_enqueue_full:
  assumes ok: "tq_ok q" and full: "Suc (length (tq_items q)) = TTY_COOK_BUF_SZ"
  shows "tty_enqueue q ch = Inl (Panic ''tty queue full'')"
proof -
  let ?n = TTY_COOK_BUF_SZ and ?f = "nat (q_front q)" and ?r = "nat (q_rear q)"
  have o: "length (q_buf q) = ?n" "0 \<le> q_front q" "0 \<le> q_rear q" "q_rear q < int ?n" using ok by (simp_all add: tq_ok_def)
  have "Suc (ring_len ?n ?f ?r) = ?n" using full o(1) by (simp add: tq_items_def length_ring)
  then have "Suc ?r mod ?n = ?f" using tq_nat [OF ok] by (auto simp: ring_len_eq mod_Suc split: if_splits)
  then have "nat (if q_rear q + 1 = int ?n then 0 else q_rear q + 1) = ?f" using wrap_nat [OF o(3,4)] by simp
  then have "(if q_rear q + 1 = int ?n then 0 else q_rear q + 1) = q_front q" using o by (auto split: if_splits)
  then show ?thesis using o by (simp add: tty_enqueue_def Let_def)
qed

lemma tty_next_char_some:
  assumes ok: "tq_ok q" and some: "tq_items q = ch # rest"
  shows "\<exists>q'. tty_next_char q = Inr (ch, q') \<and> tq_ok q' \<and> tq_items q' = rest \<and> tq_fresh q' = (ch = 0)"
proof -
  let ?n = TTY_COOK_BUF_SZ and ?f = "nat (q_front q)" and ?r = "nat (q_rear q)"
  let ?f' = "if q_front q + 1 = int ?n then 0 else q_front q + 1"
  have o: "length (q_buf q) = ?n" "0 \<le> q_front q" "q_front q < int ?n" "0 \<le> q_rear q" "q_rear q < int ?n"
    using ok by (simp_all add: tq_ok_def)
  have f': "nat ?f' = Suc ?f mod ?n" "0 \<le> ?f'" "?f' < int ?n" using o wrap_nat [of "q_front q" ?n] by auto
  have "?f \<noteq> ?r" using some ring_empty_iff [of ?f "q_buf q" ?r] o(1) tq_nat [OF ok] by (auto simp: tq_items_def)
  then have "ring (q_buf q) ?f ?r = q_buf q ! ?f # ring (q_buf q) (Suc ?f mod ?n) ?r"
    using ring_pop [of ?f "q_buf q" ?r] o(1) tq_nat [OF ok] by simp
  then have ch: "q_buf q ! ?f = ch" "ring (q_buf q) (Suc ?f mod ?n) ?r = rest" using some by (simp_all add: tq_items_def)
  let ?q = "q\<lparr>q_front := ?f'\<rparr>"
  have "tty_next_char q = Inr (ch, ?q)" using o ch(1) by (simp add: tty_next_char_def Let_def)
  moreover have "tq_ok ?q" "tq_items ?q = rest" using o f' ch(2) by (simp_all add: tq_ok_def tq_items_def)
  moreover have "ring_pred ?n (Suc ?f mod ?n) = ?f"
  proof (cases "Suc ?f = ?n")
    case True
    then have "Suc ?f mod ?n = 0" by simp
    then show ?thesis using True by (simp add: ring_pred_def)
  next
    case False
    then have "Suc ?f mod ?n = Suc ?f" using tq_nat(1) [OF ok] by simp
    then show ?thesis by (simp add: ring_pred_def)
  qed
  then have "tq_fresh ?q = (ch = 0)" using ch(1) f'(1) by (simp add: tq_fresh_def)
  ultimately show ?thesis by blast
qed

interpretation tty_chars: fifo tq_ok tq_items "Some 1023" "\<lambda>_. True" tty_enqueue tty_next_char
proof
  show "\<exists>q'. tty_enqueue q x = Inr q' \<and> tq_ok q' \<and> tq_items q' = tq_items q @ [x]"
    if "tq_ok q" "fits (Some 1023) (Suc (length (tq_items q)))" for q x
    using tty_enqueue_room [OF that(1)] that(2) by (fastforce simp: fits_def TTY_COOK_BUF_SZ_def)
  show "\<exists>q'. tty_next_char q = Inr (x, q') \<and> tq_ok q' \<and> tq_items q' = xs" if "tq_ok q" "tq_items q = x # xs" for q x xs
    using tty_next_char_some [OF that] by blast
qed

text \<open>Taking back the last character, up to the end of the line before.\<close>

lemma tty_pop_back_some:
  assumes ok: "tq_ok q" and some: "tq_items q = xs @ [ch]" and "ch \<noteq> 0"
  shows "\<exists>q'. tty_pop_back q = Inr (0, q') \<and> tq_ok q' \<and> tq_items q' = xs \<and> (tq_fresh q \<longrightarrow> tq_fresh q')"
proof -
  let ?n = TTY_COOK_BUF_SZ and ?f = "nat (q_front q)" and ?r = "nat (q_rear q)"
  let ?p = "ring_pred ?n ?r"
  have o: "length (q_buf q) = ?n" "0 \<le> q_front q" "q_front q < int ?n" "0 \<le> q_rear q" "q_rear q < int ?n"
    using ok by (simp_all add: tq_ok_def)
  have n: "0 < ?n" by (simp add: TTY_COOK_BUF_SZ_def)
  let ?pos = "(if q_rear q = 0 then int ?n else q_rear q) - 1"
  have pos: "nat ?pos = ?p" "0 \<le> ?pos" "?pos < int ?n" using o n by (auto simp: ring_pred_def nat_diff_distrib)
  have p: "?p < ?n" using ring_pred_suc(2) [OF tq_nat(2) [OF ok]] .
  have "?f \<noteq> ?r" using some ring_empty_iff [of ?f "q_buf q" ?r] o(1) tq_nat [OF ok] by (auto simp: tq_items_def)
  then have "ring (q_buf q) ?f ?r = ring (q_buf q) ?f ?p @ [q_buf q ! ?p]"
    using ring_unpush [of ?f "q_buf q" ?r] o(1) tq_nat [OF ok] by simp
  then have ch: "q_buf q ! ?p = ch" "ring (q_buf q) ?f ?p = xs" using some by (simp_all add: tq_items_def)
  let ?q = "q\<lparr>q_rear := ?pos, q_buf := (q_buf q)[?p := 0]\<rparr>"
  have "tty_pop_back q = Inr (0, ?q)" using o ch(1) pos assms(3) by (simp add: tty_pop_back_def Let_def)
  moreover have "tq_ok ?q" using o pos by (simp add: tq_ok_def)
  moreover have "tq_items ?q = xs"
    using ch(2) pos(1) ring_update_rear [of ?f "q_buf q" ?p 0] o(1) p tq_nat(1) [OF ok] by (simp add: tq_items_def)
  moreover have "tq_fresh q \<longrightarrow> tq_fresh ?q"
    using o(1) p by (cases "?p = ring_pred ?n ?f") (simp_all add: tq_fresh_def)
  ultimately show ?thesis by blast
qed

lemma tty_pop_back_none:
  assumes ok: "tq_ok q" and "tq_items q = [] \<and> tq_fresh q \<or> (\<exists>xs. tq_items q = xs @ [0])"
  shows "tty_pop_back q = Inr (1, q)"
proof -
  let ?n = TTY_COOK_BUF_SZ and ?f = "nat (q_front q)" and ?r = "nat (q_rear q)"
  let ?p = "ring_pred ?n ?r"
  have o: "length (q_buf q) = ?n" "0 \<le> q_front q" "q_front q < int ?n" "0 \<le> q_rear q" "q_rear q < int ?n"
    using ok by (simp_all add: tq_ok_def)
  have n: "0 < ?n" by (simp add: TTY_COOK_BUF_SZ_def)
  let ?pos = "(if q_rear q = 0 then int ?n else q_rear q) - 1"
  have pos: "nat ?pos = ?p" "0 \<le> ?pos" "?pos < int ?n" using o n by (auto simp: ring_pred_def nat_diff_distrib)
  have "q_buf q ! ?p = 0"
  proof (cases "?f = ?r")
    case True
    then have "tq_items q = []" using ring_empty_iff [of ?f "q_buf q" ?r] o(1) tq_nat [OF ok] by (simp add: tq_items_def)
    then show ?thesis using assms(2) True by (simp add: tq_fresh_def)
  next
    case False
    then have "tq_items q = ring (q_buf q) ?f ?p @ [q_buf q ! ?p]"
      using ring_unpush [of ?f "q_buf q" ?r] o(1) tq_nat [OF ok] by (simp add: tq_items_def)
    then show ?thesis using assms(2) by auto
  qed
  then show ?thesis using o pos by (simp add: tty_pop_back_def Let_def)
qed


section \<open>Editing a line\<close>

text \<open>What the keys make of a line: a backspace takes back the last character.\<close>

fun edit :: "u8 list \<Rightarrow> u8 list \<Rightarrow> u8 list" where
  "edit l [] = l"
| "edit l (k # ks) = edit (if k = 8 then butlast l else l @ [k]) ks"

lemma edit_length: "length (edit l ks) \<le> length l + length ks"
proof (induction l ks rule: edit.induct)
  case (2 l k ks)
  then show ?case by (auto intro: order_trans)
qed simp

text \<open>The complete lines in the queue, and the one being typed.\<close>

definition tq_holds :: "u8 list list \<Rightarrow> u8 list \<Rightarrow> tty_queue \<Rightarrow> bool" where
  "tq_holds ls l q \<longleftrightarrow> tq_ok q \<and> tq_fresh q \<and> tq_items q = concat (map (\<lambda>l. l @ [0]) ls) @ l \<and>
     (\<forall>l \<in> set ls. 0 \<notin> set l) \<and> 0 \<notin> set l"

lemma tq_holds_key:
  assumes h: "tq_holds ls l q" and k: "k \<noteq> 0" "k \<noteq> 10" and room: "Suc (length (tq_items q)) < TTY_COOK_BUF_SZ"
  shows "\<exists>r q'. tty_cook_key q k = Inr (r, False, q') \<and> tq_holds ls (edit l [k]) q' \<and> length (tq_items q') \<le> Suc (length (tq_items q))"
proof (cases "k = 8")
  case False
  obtain q' where "tty_enqueue q k = Inr q'" "tq_ok q'" "tq_items q' = tq_items q @ [k]" "tq_fresh q'"
    using tty_enqueue_room [OF _ room, of k] h by (auto simp: tq_holds_def)
  then show ?thesis using h False k by (auto simp: tty_cook_key_def tq_holds_def)
next
  case True
  have key: "tty_cook_key q k = res_bind (tty_pop_back q) (\<lambda>(r, q1). Inr (r, False, q1))" using True by (simp add: tty_cook_key_def)
  show ?thesis
  proof (cases l rule: rev_cases)
    case Nil
    have "tq_items q = [] \<and> tq_fresh q \<or> (\<exists>xs. tq_items q = xs @ [0])"
      using h Nil by (cases ls rule: rev_cases) (auto simp: tq_holds_def)
    then have "tty_pop_back q = Inr (1, q)" using h by (intro tty_pop_back_none) (auto simp: tq_holds_def)
    then show ?thesis using key h Nil True by simp
  next
    case (snoc m ch)
    let ?xs = "concat (map (\<lambda>l. l @ [0]) ls) @ m"
    have "tq_ok q" "tq_items q = ?xs @ [ch]" "ch \<noteq> 0" using h snoc by (auto simp: tq_holds_def)
    then obtain q' where "tty_pop_back q = Inr (0, q')" "tq_ok q'" "tq_items q' = ?xs" "tq_fresh q'"
      using tty_pop_back_some [of q ?xs ch] h by (auto simp: tq_holds_def)
    then show ?thesis using key h snoc True by (auto simp: tq_holds_def)
  qed
qed

lemma tq_holds_newline:
  assumes h: "tq_holds ls l q" and room: "length (tq_items q) + 2 < TTY_COOK_BUF_SZ"
  shows "\<exists>q'. tty_cook_key q 10 = Inr (0, True, q') \<and> tq_holds (ls @ [l @ [10]]) [] q'"
proof -
  obtain q1 where q1: "tty_enqueue q 10 = Inr q1" "tq_ok q1" "tq_items q1 = tq_items q @ [10]" "tq_fresh q1"
    using tty_enqueue_room [of q 10] h room by (auto simp: tq_holds_def)
  then obtain q2 where q2: "tty_enqueue q1 0 = Inr q2" "tq_ok q2" "tq_items q2 = tq_items q1 @ [0]" "tq_fresh q2"
    using tty_enqueue_room [of q1 0] room by auto
  then show ?thesis using q1 h by (auto simp: tty_cook_key_def tq_holds_def)
qed

section \<open>Reading a line\<close>

lemma tty_read_loop_line:
  "tq_ok q \<Longrightarrow> tq_items q = line @ [0] @ rest \<Longrightarrow> 0 \<notin> set line \<Longrightarrow> length line < k \<Longrightarrow> acc = take (nat cnt) done \<Longrightarrow>
   \<exists>q'. tty_read_loop k q cnt acc = Inr (take (nat cnt) (done @ line), q') \<and> tq_ok q' \<and> tq_fresh q' \<and> tq_items q' = rest"
proof (induction line arbitrary: q k acc "done")
  case Nil
  then obtain j where "k = Suc j" by (cases k) auto
  moreover obtain q' where "tty_next_char q = Inr (0, q')" "tq_ok q'" "tq_items q' = rest" "tq_fresh q'"
    using tty_next_char_some [OF Nil.prems(1)] Nil.prems(2) by auto
  ultimately show ?case using Nil.prems(5) by simp
next
  case (Cons ch line)
  then obtain j where k: "k = Suc j" "length line < j" by (cases k) auto
  have ch: "ch \<noteq> 0" "0 \<notin> set line" using Cons.prems(3) by auto
  obtain q1 where q1: "tty_next_char q = Inr (ch, q1)" "tq_ok q1" "tq_items q1 = line @ [0] @ rest"
    using tty_next_char_some [OF Cons.prems(1)] Cons.prems(2) by auto
  let ?acc = "if int (length acc) < cnt then acc @ [ch] else acc"
  have acc: "?acc = take (nat cnt) (done @ [ch])"
    using Cons.prems(5) by (auto simp: min_def split: if_splits)
  obtain q' where "tty_read_loop j q1 cnt ?acc = Inr (take (nat cnt) ((done @ [ch]) @ line), q')" "tq_ok q'" "tq_fresh q'" "tq_items q' = rest"
    using Cons.IH [OF q1(2,3) ch(2) k(2) acc] by blast
  then show ?case using k(1) q1(1) ch(1) by (simp add: Let_def cong: if_cong)
qed

lemma tq_holds_read:
  assumes h: "tq_holds (l # ls) m q"
  shows "\<exists>q'. tty_read_loop (length (q_buf q)) q cnt [] = Inr (take (nat cnt) l, q') \<and> tq_holds ls m q'"
proof -
  have q: "tq_ok q" "tq_items q = l @ [0] @ (concat (map (\<lambda>l. l @ [0]) ls) @ m)" "0 \<notin> set l"
    using h by (simp_all add: tq_holds_def)
  have "length (tq_items q) < length (q_buf q)"
    using q(1) by (simp add: tq_items_def length_ring ring_len_def tq_ok_def TTY_COOK_BUF_SZ_def)
  then have "length l < length (q_buf q)" using q(2) by simp
  then show ?thesis using tty_read_loop_line [OF q, of "length (q_buf q)" "[]" cnt "[]"] h by (auto simp: tq_holds_def)
qed


section \<open>The device\<close>

text \<open>
  Console \<open>n\<close> at rest: nobody holds or waits for its lock, and the semaphore of complete lines counts
  the lines in the queue.
\<close>

definition con_ready :: "nat \<Rightarrow> nat \<Rightarrow> console \<Rightarrow> bool" where
  "con_ready i n c \<longleftrightarrow> cpu_ready i (con_kern c) \<and> current_task (cpu_of (con_kern c) i) \<noteq> 0 \<and> n < length (con_ttys c) \<and>
     sem_ok (tty_lock (get_tty n c)) \<and> sem_ok (cooked (get_tty n c))"

definition tty_holds :: "nat \<Rightarrow> nat \<Rightarrow> u8 list list \<Rightarrow> u8 list \<Rightarrow> console \<Rightarrow> bool" where
  "tty_holds i n ls l c \<longleftrightarrow> con_ready i n c \<and> resource (tty_lock (get_tty n c)) = 1 \<and>
     resource (cooked (get_tty n c)) = int (length ls) \<and> tq_holds ls l (queue (get_tty n c))"

lemma get_put_tty [simp]: "n < length (con_ttys c) \<Longrightarrow> get_tty n (put_tty n t c) = t"
  by (simp add: get_tty_def put_tty_def)

lemma put_tty_fields [simp]:
  "con_kern (put_tty n t c) = con_kern c" "length (con_ttys (put_tty n t c)) = length (con_ttys c)"
  by (simp_all add: put_tty_def)

lemma put_tty_kern: "get_tty n (c\<lparr>con_kern := s\<rparr>) = get_tty n c" "con_ttys (c\<lparr>con_kern := s\<rparr>) = con_ttys c"
  by (simp_all add: get_tty_def)

lemma turn_bind_simps [simp]:
  "turn_bind (Inr (Some x, c)) f = f x c" "turn_bind (Inr (None, c)) f = Inr (None, c)" "turn_bind (Inl e) f = Inl e"
  by (simp_all add: turn_bind_def)

lemma lock_wait_free:
  assumes "con_ready i n c" and "resource (tty_lock (get_tty n c)) = 1"
  shows "\<exists>m c'. lock_wait i n c = Inr (Some (), c') \<and> con_ready i n c' \<and> get_tty n c' = (get_tty n c)\<lparr>tty_lock := m\<rparr> \<and> resource m = 0"
proof -
  have r: "cpu_ready i (con_kern c)" "current_task (cpu_of (con_kern c) i) \<noteq> 0" "n < length (con_ttys c)"
    "sem_ok (tty_lock (get_tty n c))" using assms(1) by (simp_all add: con_ready_def)
  obtain m s where m: "kmt_sem_wait i (tty_lock (get_tty n c)) (con_kern c) = Inr (False, m, s)" "sem_ok m" "resource m = 0" "like (con_kern c) s"
    using sem_wait_returns [OF r(1,2,4)] assms(2) by (auto simp: K_MAX_TASK_def)
  then have "lock_wait i n c = Inr (Some (), put_tty n ((get_tty n c)\<lparr>tty_lock := m\<rparr>) (c\<lparr>con_kern := s\<rparr>))"
    by (simp add: lock_wait_def)
  moreover have "con_ready i n (put_tty n ((get_tty n c)\<lparr>tty_lock := m\<rparr>) (c\<lparr>con_kern := s\<rparr>))"
    using assms(1) m like_ready [OF m(4) r(1)] like_fields(4) [OF m(4), of i] by (simp add: con_ready_def put_tty_kern)
  ultimately show ?thesis using r(3) m(3) by (auto simp: put_tty_kern)
qed

lemma cooked_wait_line:
  assumes "con_ready i n c" and "resource (cooked (get_tty n c)) > 0"
  shows "\<exists>m c'. cooked_wait i n c = Inr (Some (), c') \<and> con_ready i n c' \<and> get_tty n c' = (get_tty n c)\<lparr>cooked := m\<rparr> \<and>
     resource m = resource (cooked (get_tty n c)) - 1"
proof -
  have r: "cpu_ready i (con_kern c)" "current_task (cpu_of (con_kern c) i) \<noteq> 0" "n < length (con_ttys c)"
    "sem_ok (cooked (get_tty n c))" using assms(1) by (simp_all add: con_ready_def)
  obtain m s where m: "kmt_sem_wait i (cooked (get_tty n c)) (con_kern c) = Inr (False, m, s)" "sem_ok m"
    "resource m = resource (cooked (get_tty n c)) - 1" "like (con_kern c) s"
    using sem_wait_returns [OF r(1,2,4)] assms(2) by (auto simp: K_MAX_TASK_def)
  then have "cooked_wait i n c = Inr (Some (), put_tty n ((get_tty n c)\<lparr>cooked := m\<rparr>) (c\<lparr>con_kern := s\<rparr>))"
    by (simp add: cooked_wait_def)
  moreover have "con_ready i n (put_tty n ((get_tty n c)\<lparr>cooked := m\<rparr>) (c\<lparr>con_kern := s\<rparr>))"
    using assms(1) m like_ready [OF m(4) r(1)] like_fields(4) [OF m(4), of i] by (simp add: con_ready_def put_tty_kern)
  ultimately show ?thesis using r(3) m(3) by (auto simp: put_tty_kern)
qed

lemma lock_signal_returns:
  assumes "con_ready i n c" and "0 \<le> resource (tty_lock (get_tty n c))"
  shows "\<exists>m c'. lock_signal i n c = Inr c' \<and> con_ready i n c' \<and> get_tty n c' = (get_tty n c)\<lparr>tty_lock := m\<rparr> \<and>
     resource m = resource (tty_lock (get_tty n c)) + 1"
proof -
  have r: "cpu_ready i (con_kern c)" "n < length (con_ttys c)" "sem_ok (tty_lock (get_tty n c))"
    using assms(1) by (simp_all add: con_ready_def)
  have "waiters (tty_lock (get_tty n c)) = []" using waiters_length [OF r(3)] assms(2) by simp
  then obtain m s where m: "kmt_sem_signal i (tty_lock (get_tty n c)) (con_kern c) = Inr (m, s)" "sem_ok m"
    "resource m = resource (tty_lock (get_tty n c)) + 1" "like (con_kern c) s"
    using sem_signal_returns [OF r(1,3)] by auto
  then have "lock_signal i n c = Inr (put_tty n ((get_tty n c)\<lparr>tty_lock := m\<rparr>) (c\<lparr>con_kern := s\<rparr>))"
    by (simp add: lock_signal_def)
  moreover have "con_ready i n (put_tty n ((get_tty n c)\<lparr>tty_lock := m\<rparr>) (c\<lparr>con_kern := s\<rparr>))"
    using assms(1) m r(2) like_ready [OF m(4) r(1)] like_fields(4) [OF m(4), of i] by (simp add: con_ready_def put_tty_kern)
  ultimately show ?thesis using r(2) m(3) by (auto simp: put_tty_kern)
qed

lemma cooked_signal_returns:
  assumes "con_ready i n c" and "0 \<le> resource (cooked (get_tty n c))"
  shows "\<exists>m c'. cooked_signal i n c = Inr c' \<and> con_ready i n c' \<and> get_tty n c' = (get_tty n c)\<lparr>cooked := m\<rparr> \<and>
     resource m = resource (cooked (get_tty n c)) + 1"
proof -
  have r: "cpu_ready i (con_kern c)" "n < length (con_ttys c)" "sem_ok (cooked (get_tty n c))"
    using assms(1) by (simp_all add: con_ready_def)
  have "waiters (cooked (get_tty n c)) = []" using waiters_length [OF r(3)] assms(2) by simp
  then obtain m s where m: "kmt_sem_signal i (cooked (get_tty n c)) (con_kern c) = Inr (m, s)" "sem_ok m"
    "resource m = resource (cooked (get_tty n c)) + 1" "like (con_kern c) s"
    using sem_signal_returns [OF r(1,3)] by auto
  then have "cooked_signal i n c = Inr (put_tty n ((get_tty n c)\<lparr>cooked := m\<rparr>) (c\<lparr>con_kern := s\<rparr>))"
    by (simp add: cooked_signal_def)
  moreover have "con_ready i n (put_tty n ((get_tty n c)\<lparr>cooked := m\<rparr>) (c\<lparr>con_kern := s\<rparr>))"
    using assms(1) m r(2) like_ready [OF m(4) r(1)] like_fields(4) [OF m(4), of i] by (simp add: con_ready_def put_tty_kern)
  ultimately show ?thesis using r(2) m(3) by (auto simp: put_tty_kern)
qed

lemma put_queue_ready:
  "con_ready i n c \<Longrightarrow> con_ready i n (put_tty n ((get_tty n c)\<lparr>queue := q\<rparr>) c)"
  by (simp add: con_ready_def)

lemma tty_cook_returns:
  assumes h: "con_ready i n c" "resource (tty_lock (get_tty n c)) = 1" "0 \<le> resource (cooked (get_tty n c))"
    and key: "tty_cook_key (queue (get_tty n c)) ch = Inr (r, complete, q)"
  shows "\<exists>m k c'. tty_cook i n ch c = Inr (Some r, c') \<and> con_ready i n c' \<and>
     get_tty n c' = (get_tty n c)\<lparr>queue := q, cooked := k, tty_lock := m\<rparr> \<and> resource m = 1 \<and>
     resource k = resource (cooked (get_tty n c)) + (if complete then 1 else 0)"
proof -
  obtain m1 c1 where c1: "lock_wait i n c = Inr (Some (), c1)" "con_ready i n c1" "get_tty n c1 = (get_tty n c)\<lparr>tty_lock := m1\<rparr>" "resource m1 = 0"
    using lock_wait_free [OF h(1,2)] by blast
  let ?c2 = "put_tty n ((get_tty n c1)\<lparr>queue := q\<rparr>) c1"
  have n: "n < length (con_ttys c1)" using c1(2) by (simp add: con_ready_def)
  have t2: "get_tty n ?c2 = (get_tty n c)\<lparr>tty_lock := m1, queue := q\<rparr>" using n c1(3) by simp
  obtain k c3 where c3: "(if complete then cooked_signal i n ?c2 else Inr ?c2) = Inr c3" "con_ready i n c3"
    "get_tty n c3 = (get_tty n c)\<lparr>tty_lock := m1, queue := q, cooked := k\<rparr>"
    "resource k = resource (cooked (get_tty n c)) + (if complete then 1 else 0)"
  proof (cases complete)
    case True
    then show ?thesis using that cooked_signal_returns [OF put_queue_ready [OF c1(2)], of q] t2 h(3) by auto
  next
    case False
    then show ?thesis using that [of ?c2 "cooked (get_tty n c)"] put_queue_ready [OF c1(2)] t2 by simp
  qed
  obtain m c4 where c4: "lock_signal i n c3 = Inr c4" "con_ready i n c4" "get_tty n c4 = (get_tty n c3)\<lparr>tty_lock := m\<rparr>" "resource m = 1"
    using lock_signal_returns [OF c3(2)] c3(3) c1(4) by auto
  have "tty_cook i n ch c = Inr (Some r, c4)"
    using c1(1,3) key c3(1) c4(1) by (simp add: tty_cook_def Let_def)
  moreover have "get_tty n c4 = (get_tty n c)\<lparr>queue := q, cooked := k, tty_lock := m\<rparr>" using c4(3) c3(3) by simp
  ultimately show ?thesis using c4(2,4) c3(4) by blast
qed

fun cook_all :: "nat \<Rightarrow> nat \<Rightarrow> u8 list \<Rightarrow> console \<Rightarrow> unit turn" where
  "cook_all i n [] c = Inr (Some (), c)"
| "cook_all i n (k # ks) c = turn_bind (tty_cook i n k c) (\<lambda>_. cook_all i n ks)"

lemma cook_all_append: "cook_all i n (ks @ ks') c = turn_bind (cook_all i n ks c) (\<lambda>_. cook_all i n ks')"
  by (induction ks arbitrary: c) (auto simp: turn_bind_def res_bind_def split: sum.splits option.splits)

lemma cook_all_keys:
  "tty_holds i n ls l c \<Longrightarrow> 0 \<notin> set ks \<Longrightarrow> 10 \<notin> set ks \<Longrightarrow>
   length (tq_items (queue (get_tty n c))) + length ks < TTY_COOK_BUF_SZ \<Longrightarrow>
   \<exists>c'. cook_all i n ks c = Inr (Some (), c') \<and> tty_holds i n ls (edit l ks) c' \<and>
     length (tq_items (queue (get_tty n c'))) \<le> length (tq_items (queue (get_tty n c))) + length ks"
proof (induction ks arbitrary: l c)
  case (Cons k ks)
  let ?q = "queue (get_tty n c)"
  have h: "con_ready i n c" "resource (tty_lock (get_tty n c)) = 1" "resource (cooked (get_tty n c)) = int (length ls)" "tq_holds ls l ?q"
    using Cons.prems(1) by (simp_all add: tty_holds_def)
  obtain r q' where q': "tty_cook_key ?q k = Inr (r, False, q')" "tq_holds ls (edit l [k]) q'"
    "length (tq_items q') \<le> Suc (length (tq_items ?q))"
    using tq_holds_key [OF h(4), of k] Cons.prems(2-4) by auto
  have "0 \<le> resource (cooked (get_tty n c))" using h(3) by simp
  then obtain m j c1 where c1: "tty_cook i n k c = Inr (Some r, c1)" "con_ready i n c1"
    "get_tty n c1 = (get_tty n c)\<lparr>queue := q', cooked := j, tty_lock := m\<rparr>" "resource m = 1" "resource j = resource (cooked (get_tty n c))"
    using tty_cook_returns [OF h(1,2) _ q'(1)] by auto
  then have "tty_holds i n ls (edit l [k]) c1" using q'(2) h(3) by (simp add: tty_holds_def)
  moreover have "length (tq_items (queue (get_tty n c1))) + length ks < TTY_COOK_BUF_SZ" using c1(3) q'(3) Cons.prems(4) by simp
  moreover have "0 \<notin> set ks" "10 \<notin> set ks" using Cons.prems(2,3) by auto
  ultimately obtain c2 where "cook_all i n ks c1 = Inr (Some (), c2)" "tty_holds i n ls (edit (edit l [k]) ks) c2"
    "length (tq_items (queue (get_tty n c2))) \<le> length (tq_items (queue (get_tty n c1))) + length ks"
    using Cons.IH by blast
  then show ?case using c1(1,3) q'(3) by auto
qed auto

lemma cook_all_line:
  assumes h: "tty_holds i n ls [] c" and ks: "0 \<notin> set ks" "10 \<notin> set ks"
    and room: "length (tq_items (queue (get_tty n c))) + length ks + 2 < TTY_COOK_BUF_SZ"
  shows "\<exists>c'. cook_all i n (ks @ [10]) c = Inr (Some (), c') \<and> tty_holds i n (ls @ [edit [] ks @ [10]]) [] c'"
proof -
  obtain c1 where c1: "cook_all i n ks c = Inr (Some (), c1)" "tty_holds i n ls (edit [] ks) c1"
    "length (tq_items (queue (get_tty n c1))) \<le> length (tq_items (queue (get_tty n c))) + length ks"
    using cook_all_keys [OF h ks] room by auto
  have h1: "con_ready i n c1" "resource (tty_lock (get_tty n c1)) = 1" "resource (cooked (get_tty n c1)) = int (length ls)"
    "tq_holds ls (edit [] ks) (queue (get_tty n c1))" using c1(2) by (simp_all add: tty_holds_def)
  obtain q where q: "tty_cook_key (queue (get_tty n c1)) 10 = Inr (0, True, q)" "tq_holds (ls @ [edit [] ks @ [10]]) [] q"
    using tq_holds_newline [OF h1(4)] c1(3) room by auto
  obtain m j c2 where c2: "tty_cook i n 10 c1 = Inr (Some 0, c2)" "con_ready i n c2"
    "get_tty n c2 = (get_tty n c1)\<lparr>queue := q, cooked := j, tty_lock := m\<rparr>" "resource m = 1" "resource j = resource (cooked (get_tty n c1)) + 1"
    using tty_cook_returns [OF h1(1,2) _ q(1)] h1(3) by auto
  then have "tty_holds i n (ls @ [edit [] ks @ [10]]) [] c2" using h1(3) q(2) by (simp add: tty_holds_def)
  then show ?thesis using c1(1) c2(1) by (simp add: cook_all_append)
qed

lemma tty_read_line:
  assumes h: "tty_holds i n (l # ls) m c"
  shows "\<exists>c'. tty_read i n cnt c = Inr (Some (take (nat cnt) l), c') \<and> tty_holds i n ls m c'"
proof -
  have h0: "con_ready i n c" "resource (tty_lock (get_tty n c)) = 1" "resource (cooked (get_tty n c)) = int (Suc (length ls))"
    "tq_holds (l # ls) m (queue (get_tty n c))" using h by (simp_all add: tty_holds_def)
  obtain k c1 where c1: "cooked_wait i n c = Inr (Some (), c1)" "con_ready i n c1" "get_tty n c1 = (get_tty n c)\<lparr>cooked := k\<rparr>"
    "resource k = int (length ls)" using cooked_wait_line [OF h0(1)] h0(3) by auto
  obtain j c2 where c2: "lock_wait i n c1 = Inr (Some (), c2)" "con_ready i n c2" "get_tty n c2 = (get_tty n c1)\<lparr>tty_lock := j\<rparr>" "resource j = 0"
    using lock_wait_free [OF c1(2)] c1(3) h0(2) by auto
  obtain q where q: "tty_read_loop (length (q_buf (queue (get_tty n c)))) (queue (get_tty n c)) cnt [] = Inr (take (nat cnt) l, q)" "tq_holds ls m q"
    using tq_holds_read [OF h0(4)] by blast
  let ?c3 = "put_tty n ((get_tty n c2)\<lparr>queue := q\<rparr>) c2"
  have n: "n < length (con_ttys c2)" using c2(2) by (simp add: con_ready_def)
  obtain p c4 where c4: "lock_signal i n ?c3 = Inr c4" "con_ready i n c4" "get_tty n c4 = (get_tty n ?c3)\<lparr>tty_lock := p\<rparr>" "resource p = 1"
    using lock_signal_returns [OF put_queue_ready [OF c2(2)], of q] n c2(3,4) by auto
  have "tty_read i n cnt c = Inr (Some (take (nat cnt) l), c4)"
    using c1(1,3) c2(1,3) q(1) c4(1) by (simp add: tty_read_def Let_def)
  moreover have "tty_holds i n ls m c4" using c4(2-4) n c2(3) c1(3,4) q(2) by (simp add: tty_holds_def)
  ultimately show ?thesis by blast
qed

section \<open>Properties\<close>

text \<open>
  C28: typing a line and reading it: whatever complete lines are still in the queue, the keys of a
  line up to the return key, a backspace taking back the last character of this line and never one of
  a line before, make it one line more; each \<open>tty_read\<close> returns the first line, cut to the caller's
  buffer, and takes it out, so the lines come back in the order in which they were typed.
\<close>

theorem tty_line_roundtrip:
  assumes "tty_holds i n ls [] c" and "0 \<notin> set ks" and "10 \<notin> set ks"
    and "length (tq_items (queue (get_tty n c))) + length ks + 2 < 1024"
  shows "\<exists>c1. cook_all i n (ks @ [10]) c = Inr (Some (), c1) \<and>
     (\<exists>c2. tty_read i n cnt c1 = Inr (Some (take (nat cnt) (hd (ls @ [edit [] ks @ [10]]))), c2) \<and>
        tty_holds i n (tl (ls @ [edit [] ks @ [10]])) [] c2)"
proof -
  obtain c1 where c1: "cook_all i n (ks @ [10]) c = Inr (Some (), c1)" "tty_holds i n (ls @ [edit [] ks @ [10]]) [] c1"
    using cook_all_line [OF assms(1-3)] assms(4) by (auto simp: TTY_COOK_BUF_SZ_def)
  have "tty_holds i n (hd (ls @ [edit [] ks @ [10]]) # tl (ls @ [edit [] ks @ [10]])) [] c1" using c1(2) by simp
  then show ?thesis using tty_read_line [of i n "hd (ls @ [edit [] ks @ [10]])"] c1(1) by blast
qed

definition idle_console :: console where
  "idle_console = \<lparr>con_ttys = [\<lparr>tty_lock = zero_sem\<lparr>resource := 1\<rparr>, cooked = zero_sem, tty_display = 0, lines = 2, columns = 3, tty_size = 6,
       tty_buf = replicate 6 tty_defaultch, cursor = 0,
       queue = \<lparr>q_buf = replicate 1024 0, q_front = 0, q_rear = 0\<rparr>, dirty = replicate 6 0\<rparr>],
     con_fb = \<lparr>fb_info = \<lparr>width = 24, height = 32, num_displays = 8, current = 0, num_textures = 0, num_sprites = 0\<rparr>,
       textures = [], fb_sem = zero_sem\<rparr>,
     con_gpu = small_screen, con_show = True, con_text = welcome_text, con_kern = one_running\<rparr>"

lemma idle_console_holds: "tty_holds 0 0 [] [] idle_console"
  using one_running_ready zero_sem_ok
  by (simp add: tty_holds_def con_ready_def idle_console_def get_tty_def tq_holds_def tq_ok_def tq_fresh_def tq_items_def
      ring_def ring_pred_def TTY_COOK_BUF_SZ_def sem_ok_def)

theorem tty_line_roundtrip_witness:
  "\<exists>c1 c2. cook_all 0 0 [104, 120, 8, 105, 10] idle_console = Inr (Some (), c1) \<and> tty_read 0 0 80 c1 = Inr (Some [104, 105, 10], c2)"
proof -
  have "length (tq_items (queue (get_tty 0 idle_console))) = 0"
    by (simp add: idle_console_def get_tty_def tq_items_def ring_def)
  then show ?thesis using tty_line_roundtrip [OF idle_console_holds, of "[104, 120, 8, 105]" 80] by auto
qed

end
