(* ===== verification/Tty_Screen.thy ===== *)
theory Tty_Screen
  imports Dev_Tty
begin

text \<open>
  The screen of a console: every character that is written stays inside the arrays, the cells and the
  cursor behave as those of a plain terminal, and whatever changes on the screen is marked dirty.
\<close>

section \<open>Invariant\<close>

definition tty_ok :: "tty \<Rightarrow> bool" where
  "tty_ok t \<longleftrightarrow> 2 \<le> columns t \<and> 1 \<le> lines t \<and> tty_size t = columns t * lines t \<and>
     int (length (tty_buf t)) = tty_size t \<and> int (length (dirty t)) = tty_size t \<and> 0 \<le> cursor t \<and> cursor t < tty_size t"

lemma tty_size_ge: "tty_ok t \<Longrightarrow> columns t \<le> tty_size t"
  using mult_left_mono [of 1 "lines t" "columns t"] by (simp add: tty_ok_def)

section \<open>Marking\<close>

definition marked :: "nat \<Rightarrow> nat \<Rightarrow> u8 list \<Rightarrow> u8 list" where
  "marked c n d = map (\<lambda>k. if c \<le> k \<and> k < c + n then 1 else d ! k) [0..<length d]"

lemma length_marked [simp]: "length (marked c n d) = length d"
  by (simp add: marked_def)

lemma nth_marked [simp]: "k < length d \<Longrightarrow> marked c n d ! k = (if c \<le> k \<and> k < c + n then 1 else d ! k)"
  by (simp add: marked_def)

lemma tty_mark_in: "0 \<le> c \<Longrightarrow> c < int (length (dirty t)) \<Longrightarrow> tty_mark c t = Inr (t\<lparr>dirty := marked (nat c) 1 (dirty t)\<rparr>)"
  by (auto simp: tty_mark_def intro!: nth_equalityI arg_cong [where f = "\<lambda>d. dirty_update d t"] simp: fun_eq_iff nth_list_update)

lemma tty_mark_from_in:
  "c + n \<le> length (dirty t) \<Longrightarrow> tty_mark_from n (int c) t = Inr (t\<lparr>dirty := marked c n (dirty t)\<rparr>)"
proof (induction n arbitrary: c t)
  case 0
  have "marked c 0 (dirty t) = dirty t" by (rule nth_equalityI) auto
  then show ?case by simp
next
  case (Suc n)
  let ?t = "t\<lparr>dirty := marked c 1 (dirty t)\<rparr>"
  have "tty_mark_from n (int (Suc c)) ?t = Inr (?t\<lparr>dirty := marked (Suc c) n (dirty ?t)\<rparr>)"
    using Suc.prems by (intro Suc.IH) simp
  moreover have "marked (Suc c) n (marked c 1 (dirty t)) = marked c (Suc n) (dirty t)"
    by (rule nth_equalityI) auto
  moreover have "tty_mark (int c) t = Inr ?t" using Suc.prems tty_mark_in [of "int c" t] by simp
  ultimately show ?case by (simp add: algebra_simps)
qed

text \<open>The row of a cell.\<close>

lemma row_bounds:
  fixes c :: int
  assumes "0 < cols" "0 \<le> c" "c < cols * ls"
  shows "0 \<le> c - c mod cols" "c - c mod cols \<le> c" "c < c - c mod cols + cols" "c - c mod cols + cols \<le> cols * ls"
proof -
  have d: "c - c mod cols = cols * (c div cols)" by (simp add: minus_mod_eq_mult_div)
  have m: "0 \<le> c mod cols" "c mod cols < cols" using assms(1) by simp_all
  show "0 \<le> c - c mod cols" using assms(2) zmod_le_nonneg_dividend [of c cols] by simp
  show "c - c mod cols \<le> c" "c < c - c mod cols + cols" using m by linarith+
  have "c div cols < ls"
  proof (rule ccontr)
    assume "\<not> c div cols < ls"
    then have "cols * ls \<le> cols * (c div cols)" using assms(1) by (intro mult_left_mono) auto
    then show False using assms(3) d m by linarith
  qed
  then have "cols * (c div cols + 1) \<le> cols * ls" using assms(1) by (intro mult_left_mono) auto
  then show "c - c mod cols + cols \<le> cols * ls" by (simp add: d algebra_simps)
qed

definition row_start :: "tty \<Rightarrow> int \<Rightarrow> int" where
  "row_start t c = c - c mod columns t"

lemma row_start_bounds:
  assumes "tty_ok t" "0 \<le> c" "c < tty_size t"
  shows "0 \<le> row_start t c" "row_start t c \<le> c" "c < row_start t c + columns t" "row_start t c + columns t \<le> tty_size t"
  using row_bounds [of "columns t" c "lines t"] assms by (simp_all add: row_start_def tty_ok_def)

lemma tty_mark_line_in:
  assumes "2 \<le> columns t" "0 \<le> row_start t c" "row_start t c + columns t \<le> int (length (dirty t))"
  shows "tty_mark_line c t = Inr (t\<lparr>dirty := marked (nat (row_start t c)) (nat (columns t)) (dirty t)\<rparr>)"
  using assms tty_mark_from_in [of "nat (row_start t c)" "nat (columns t)" t] by (simp add: tty_mark_line_def row_start_def Let_def)

lemma tty_mark_all_in:
  assumes "int (length (dirty t)) = tty_size t"
  shows "tty_mark_all t = Inr (t\<lparr>dirty := marked 0 (length (dirty t)) (dirty t)\<rparr>)"
  using assms tty_mark_from_in [of 0 "length (dirty t)" t] by (simp add: tty_mark_all_def flip: assms)

section \<open>Scrolling\<close>

lemma clear_cells_list:
  "c + n \<le> length b \<Longrightarrow> clear_cells n (int c) b = Inr (take c b @ replicate n tty_defaultch @ drop (c + n) b)"
proof (induction n arbitrary: c b)
  case (Suc n)
  have "clear_cells n (int (Suc c)) (b[c := tty_defaultch]) =
      Inr (take (Suc c) (b[c := tty_defaultch]) @ replicate n tty_defaultch @ drop (Suc c + n) (b[c := tty_defaultch]))"
    using Suc.prems by (intro Suc.IH) simp
  moreover have "take (Suc c) (b[c := tty_defaultch]) = take c b @ [tty_defaultch]"
    using Suc.prems by (simp add: take_Suc_conv_app_nth)
  ultimately show ?case using Suc.prems by (simp add: algebra_simps)
qed simp

definition scrolled :: "nat \<Rightarrow> character list \<Rightarrow> character list" where
  "scrolled n b = drop n b @ replicate n tty_defaultch"

lemma tty_upd_scrollup_end:
  assumes ok: "2 \<le> columns t" "columns t \<le> tty_size t" "tty_size t = columns t * lines t"
    "int (length (tty_buf t)) = tty_size t" "int (length (dirty t)) = tty_size t" and c: "cursor t = tty_size t"
  shows "\<exists>d. tty_upd_scrollup t = Inr (t\<lparr>tty_buf := scrolled (nat (columns t)) (tty_buf t), dirty := d, cursor := tty_size t - columns t\<rparr>) \<and>
     length d = length (dirty t)"
proof -
  let ?n = "nat (columns t)" and ?m = "nat (tty_size t - columns t)"
  have mv: "columns t * (lines t - 1) = tty_size t - columns t" using ok(3) by (simp add: algebra_simps)
  have m: "?m + ?n = length (tty_buf t)" "?m + ?n = length (dirty t)" using ok(1,2,4,5) by linarith+
  have mvd: "move_down (columns t) (tty_size t - columns t) xs = Inr (drop ?n xs @ drop ?m xs)"
    if "length xs = ?m + ?n" for xs :: "'a list"
    using that ok by (simp add: move_down_def)
  let ?b = "drop ?n (tty_buf t) @ drop ?m (tty_buf t)"
  have len: "length (drop ?n (tty_buf t)) = ?m" "length (drop ?m (tty_buf t)) = ?n" using m by auto
  have "clear_cells ?n (int ?m) ?b = Inr (take ?m ?b @ replicate ?n tty_defaultch @ drop (?m + ?n) ?b)"
    using len by (intro clear_cells_list) simp
  moreover have "int ?m = tty_size t - columns t" using ok by simp
  moreover have "take ?m ?b = drop ?n (tty_buf t)" "drop (?m + ?n) ?b = []" using len by simp_all
  ultimately have "clear_cells ?n (tty_size t - columns t) ?b = Inr (scrolled ?n (tty_buf t))" by (simp add: scrolled_def)
  then show ?thesis using mvd [of "tty_buf t"] mvd [of "dirty t"] m c
    by (intro exI [of _ "drop ?n (dirty t) @ drop ?m (dirty t)"]) (simp add: tty_upd_scrollup_def mv Let_def)
qed


section \<open>A plain terminal\<close>

text \<open>Its state is its cells and the position of the cursor; \<open>w\<close> is the width of the screen.\<close>

definition vt_wrap :: "nat \<Rightarrow> character list \<Rightarrow> nat \<Rightarrow> character list \<times> nat" where
  "vt_wrap w b c = (if c = length b then (scrolled w b, c - w) else (b, c))"

definition vt_putc :: "nat \<Rightarrow> u8 \<Rightarrow> character list \<times> nat \<Rightarrow> character list \<times> nat" where
  "vt_putc w ch = (\<lambda>(b, c).
    if ch = 13 then (b, c - c mod w)
    else if ch = 8 then (if c = 0 then (b, c) else (b[c - 1 := (b ! (c - 1))\<lparr>ch_ch := 0\<rparr>], c - 1))
    else if ch = 10 then vt_wrap w b (c - c mod w + w)
    else vt_wrap w (b[c := (b ! c)\<lparr>ch_ch := ch\<rparr>]) (c + 1))"

definition screen :: "tty \<Rightarrow> character list \<times> nat" where
  "screen t = (tty_buf t, nat (cursor t))"

text \<open>What is seen at a place: the character there, and whether the cursor is on it.\<close>

definition seen :: "tty \<Rightarrow> nat \<Rightarrow> character \<times> bool" where
  "seen t k = (tty_buf t ! k, int k = cursor t)"

text \<open>Whatever differs from the screen \<open>t\<close>, or was to be drawn already, is marked in \<open>t'\<close>.\<close>

definition tracks :: "tty \<Rightarrow> tty \<Rightarrow> bool" where
  "tracks t t' \<longleftrightarrow> (\<forall>k < length (dirty t). dirty t ! k \<noteq> 0 \<or> seen t' k \<noteq> seen t k \<longrightarrow> dirty t' ! k \<noteq> 0)"

definition same_shape :: "tty \<Rightarrow> tty \<Rightarrow> bool" where
  "same_shape t t' \<longleftrightarrow> columns t' = columns t \<and> lines t' = lines t \<and> tty_size t' = tty_size t \<and>
     length (dirty t') = length (dirty t) \<and> queue t' = queue t \<and> tty_lock t' = tty_lock t \<and> cooked t' = cooked t"

lemma tracks_refl: "tracks t t"
  by (simp add: tracks_def)

lemma tracks_trans: "tracks a b \<Longrightarrow> tracks b c \<Longrightarrow> length (dirty b) = length (dirty a) \<Longrightarrow> tracks a c"
  unfolding tracks_def by metis

text \<open>What one character does, for the proofs.\<close>

definition putc_result :: "u8 \<Rightarrow> tty \<Rightarrow> tty \<Rightarrow> bool" where
  "putc_result ch t t' \<longleftrightarrow> tty_ok t' \<and> same_shape t t' \<and> screen t' = vt_putc (nat (columns t)) ch (screen t) \<and> tracks t t'"

lemma row_start_nat: "tty_ok t \<Longrightarrow> nat (row_start t (cursor t)) = nat (cursor t) - nat (cursor t) mod nat (columns t)"
proof -
  assume "tty_ok t"
  then have "0 \<le> cursor t" "0 \<le> columns t" by (simp_all add: tty_ok_def)
  moreover define c w where "c = nat (cursor t)" and "w = nat (columns t)"
  ultimately have "cursor t = int c" "columns t = int w" by simp_all
  moreover have "int c - int c mod int w = int (c - c mod w)" by (simp add: of_nat_diff zmod_int)
  ultimately show ?thesis by (simp add: row_start_def)
qed

lemma tty_upd_cr_in: "tty_ok t \<Longrightarrow> tty_upd_cr t = Inr (t\<lparr>cursor := row_start t (cursor t)\<rparr>)"
  by (simp add: tty_upd_cr_def tty_ok_def row_start_def)

lemma putc_return:
  assumes ok: "tty_ok t"
  shows "\<exists>t'. tty_putc 13 t = Inr t' \<and> putc_result 13 t t'"
proof -
  let ?r = "row_start t (cursor t)"
  have c: "0 \<le> cursor t" "cursor t < tty_size t" using ok by (simp_all add: tty_ok_def)
  note b = row_start_bounds [OF ok c]
  let ?t1 = "t\<lparr>cursor := ?r\<rparr>"
  have rr: "row_start ?t1 ?r = ?r" by (simp add: row_start_def mod_diff_left_eq [symmetric])
  let ?t2 = "?t1\<lparr>dirty := marked (nat ?r) (nat (columns t)) (dirty t)\<rparr>"
  have "tty_mark_line ?r ?t1 = Inr ?t2"
    using tty_mark_line_in [of ?t1 ?r] rr b ok by (simp add: tty_ok_def)
  then have "tty_putc 13 t = Inr ?t2" using tty_upd_cr_in [OF ok] by (simp add: tty_putc_def)
  moreover have "tty_ok ?t2" using ok b c by (simp add: tty_ok_def)
  moreover have "same_shape t ?t2" by (simp add: same_shape_def)
  moreover have "screen ?t2 = vt_putc (nat (columns t)) 13 (screen t)"
    using row_start_nat [OF ok] by (simp add: screen_def vt_putc_def)
  moreover have "tracks t ?t2"
    using b c by (auto simp: tracks_def seen_def)
  ultimately show ?thesis unfolding putc_result_def by blast
qed

lemma putc_backspace:
  assumes ok: "tty_ok t"
  shows "\<exists>t'. tty_putc 8 t = Inr t' \<and> putc_result 8 t t'"
proof (cases "cursor t = 0")
  case True
  let ?t = "t\<lparr>dirty := marked 1 1 (marked 0 1 (dirty t))\<rparr>"
  have "2 \<le> columns t" "int (length (dirty t)) = tty_size t" using ok by (simp_all add: tty_ok_def)
  then have sz: "1 < length (dirty t)" using tty_size_ge [OF ok] by linarith
  have "0 < int (length (dirty t))" using sz by linarith
  then have "tty_mark 0 t = Inr (t\<lparr>dirty := marked 0 1 (dirty t)\<rparr>)" using tty_mark_in [of 0 t] by simp
  then have "tty_putc 8 t = Inr ?t"
    using True sz tty_mark_in [of 1 "t\<lparr>dirty := marked 0 1 (dirty t)\<rparr>"]
    by (simp add: tty_putc_def tty_upd_backsp_def)
  moreover have "putc_result 8 t ?t"
    using ok True by (auto simp: putc_result_def tty_ok_def same_shape_def screen_def vt_putc_def tracks_def seen_def)
  ultimately show ?thesis by blast
next
  case False
  let ?c = "nat (cursor t)"
  have c: "0 < cursor t" "cursor t < tty_size t" "int (length (dirty t)) = tty_size t" "int (length (tty_buf t)) = tty_size t"
    using ok False by (simp_all add: tty_ok_def)
  have n: "?c < length (dirty t)" "?c - 1 < length (tty_buf t)" "nat (cursor t - 1) = ?c - 1" "0 < ?c" using c by linarith+
  let ?b = "(tty_buf t)[?c - 1 := (tty_buf t ! (?c - 1))\<lparr>ch_ch := 0\<rparr>]"
  let ?t1 = "t\<lparr>cursor := cursor t - 1, tty_buf := ?b\<rparr>"
  let ?t2 = "?t1\<lparr>dirty := marked (?c - 1) 1 (dirty t)\<rparr>"
  let ?t3 = "?t1\<lparr>dirty := marked ?c 1 (marked (?c - 1) 1 (dirty t))\<rparr>"
  have "tty_upd_backsp t = Inr ?t1" using c n(3) by (simp add: tty_upd_backsp_def put_cell_def)
  moreover have "tty_mark (cursor ?t1) ?t1 = Inr ?t2" using c n(3) tty_mark_in [of "cursor t - 1" ?t1] by simp
  moreover have "tty_mark (cursor ?t2 + 1) ?t2 = Inr ?t3" using c tty_mark_in [of "cursor t" ?t2] by simp
  ultimately have "tty_putc 8 t = Inr ?t3" by (simp add: tty_putc_def)
  moreover have "tty_ok ?t3" "same_shape t ?t3" using ok c by (simp_all add: tty_ok_def same_shape_def)
  moreover have "screen ?t3 = vt_putc (nat (columns t)) 8 (screen t)" using n by (simp add: screen_def vt_putc_def)
  moreover have "tracks t ?t3"
  proof -
    have "dirty ?t3 ! k \<noteq> 0" if k: "k < length (dirty t)" "dirty t ! k \<noteq> 0 \<or> seen ?t3 k \<noteq> seen t k" for k
    proof (cases "k = ?c \<or> k = ?c - 1")
      case True
      then show ?thesis using k(1) by auto
    next
      case False
      then have "seen ?t3 k = seen t k" using n c by (auto simp: seen_def)
      then show ?thesis using k by auto
    qed
    then show ?thesis by (auto simp: tracks_def)
  qed
  ultimately show ?thesis unfolding putc_result_def by blast
qed

text \<open>The end of the screen is reached: everything is marked.\<close>

lemma scroll_all:
  assumes ok: "2 \<le> columns t" "columns t \<le> tty_size t" "tty_size t = columns t * lines t" "1 \<le> lines t"
    "int (length (tty_buf t)) = tty_size t" "int (length (dirty t)) = tty_size t" and c: "cursor t = tty_size t"
  shows "\<exists>t'. res_bind (tty_upd_scrollup t) tty_mark_all = Inr t' \<and> tty_ok t' \<and> same_shape t t' \<and>
     screen t' = (scrolled (nat (columns t)) (tty_buf t), length (tty_buf t) - nat (columns t)) \<and> (\<forall>k < length (dirty t). dirty t' ! k = 1)"
proof -
  obtain d where d: "tty_upd_scrollup t = Inr (t\<lparr>tty_buf := scrolled (nat (columns t)) (tty_buf t), dirty := d, cursor := tty_size t - columns t\<rparr>)"
    "length d = length (dirty t)" using tty_upd_scrollup_end [OF ok(1-3,5,6) c] by blast
  let ?t = "t\<lparr>tty_buf := scrolled (nat (columns t)) (tty_buf t), dirty := d, cursor := tty_size t - columns t\<rparr>"
  let ?t' = "?t\<lparr>dirty := marked 0 (length d) d\<rparr>"
  have "tty_mark_all ?t = Inr ?t'" using tty_mark_all_in [of ?t] d(2) ok(6) by simp
  moreover have "length (scrolled (nat (columns t)) (tty_buf t)) = length (tty_buf t)"
    using ok(1,2,5) unfolding scrolled_def by simp
  then have "tty_ok ?t'" using ok d(2) by (simp add: tty_ok_def)
  moreover have "same_shape t ?t'" using d(2) by (simp add: same_shape_def)
  moreover have "nat (tty_size t - columns t) = length (tty_buf t) - nat (columns t)" using ok(1,2,5) by linarith
  then have "screen ?t' = (scrolled (nat (columns t)) (tty_buf t), length (tty_buf t) - nat (columns t))" by (simp add: screen_def)
  ultimately show ?thesis using d by (intro exI [of _ ?t']) simp
qed


lemma putc_newline:
  assumes ok: "tty_ok t"
  shows "\<exists>t'. tty_putc 10 t = Inr t' \<and> putc_result 10 t t'"
proof -
  let ?r = "row_start t (cursor t)" and ?w = "nat (columns t)"
  have o: "2 \<le> columns t" "columns t \<le> tty_size t" "tty_size t = columns t * lines t" "1 \<le> lines t"
    "int (length (tty_buf t)) = tty_size t" "int (length (dirty t)) = tty_size t"
    using ok tty_size_ge [OF ok] by (simp_all add: tty_ok_def)
  have c: "0 \<le> cursor t" "cursor t < tty_size t" using ok by (simp_all add: tty_ok_def)
  note b = row_start_bounds [OF ok c]
  let ?t2 = "t\<lparr>cursor := ?r + columns t\<rparr>"
  have r: "nat (?r + columns t) = nat (cursor t) - nat (cursor t) mod ?w + ?w"
    using row_start_nat [OF ok] b(1) o(1) by (simp add: nat_add_distrib)
  show ?thesis
  proof (cases "?r + columns t = tty_size t")
    case True
    obtain t' where t': "res_bind (tty_upd_scrollup ?t2) tty_mark_all = Inr t'" "tty_ok t'" "same_shape ?t2 t'"
      "screen t' = (scrolled ?w (tty_buf t), length (tty_buf t) - ?w)" "\<forall>k < length (dirty t). dirty t' ! k = 1"
      using scroll_all [of ?t2] o True by auto
    have "tty_putc 10 t = Inr t'" using tty_upd_cr_in [OF ok] True t'(1) by (simp add: tty_putc_def tty_upd_lf_def)
    moreover have "same_shape t t'" using t'(3) by (simp add: same_shape_def)
    moreover have "nat (cursor t) - nat (cursor t) mod ?w + ?w = length (tty_buf t)" using r unfolding True using o(5) by linarith
    then have "screen t' = vt_putc ?w 10 (screen t)" using t'(4) by (simp add: screen_def vt_putc_def vt_wrap_def)
    moreover have "tracks t t'" using t'(5) by (simp add: tracks_def)
    ultimately show ?thesis using t'(2) unfolding putc_result_def by blast
  next
    case False
    have below: "?r + columns t + columns t \<le> tty_size t"
    proof -
      have d: "?r = columns t * (cursor t div columns t)" by (simp add: row_start_def minus_mod_eq_mult_div)
      have "columns t * (cursor t div columns t + 1) < columns t * lines t" using False b(4) o(3) d by (simp add: algebra_simps)
      then have "cursor t div columns t + 1 < lines t" using o(1) by simp
      then have "columns t * (cursor t div columns t + 2) \<le> columns t * lines t" using o(1) by (intro mult_left_mono) auto
      then show ?thesis using d o(3) by (simp add: algebra_simps)
    qed
    have rr: "row_start t ?r = ?r" "row_start t (?r + columns t) = ?r + columns t"
      by (simp_all add: row_start_def mod_diff_left_eq [symmetric])
    let ?d = "marked (nat ?r) ?w (dirty t)"
    let ?t3 = "?t2\<lparr>dirty := ?d\<rparr>" and ?t4 = "?t2\<lparr>dirty := marked (nat (?r + columns t)) ?w ?d\<rparr>"
    have rs: "row_start ?t2 x = row_start t x" "row_start ?t3 x = row_start t x" for x by (simp_all add: row_start_def)
    have "tty_mark_line ?r ?t2 = Inr ?t3" using tty_mark_line_in [of ?t2 ?r] rr rs b o by simp
    moreover have "tty_mark_line (?r + columns t) ?t3 = Inr ?t4"
      using tty_mark_line_in [of ?t3 "?r + columns t"] rr rs b o below by simp
    ultimately have "tty_putc 10 t = Inr ?t4"
      using tty_upd_cr_in [OF ok] False by (simp add: tty_putc_def tty_upd_lf_def)
    moreover have "tty_ok ?t4" "same_shape t ?t4" using ok b below by (auto simp: tty_ok_def same_shape_def)
    moreover have "nat (cursor t) - nat (cursor t) mod ?w + ?w \<noteq> length (tty_buf t)"
      unfolding r [symmetric] using False o b(1) by auto
    then have "screen ?t4 = vt_putc ?w 10 (screen t)" using r by (simp add: screen_def vt_putc_def vt_wrap_def)
    moreover have "tracks t ?t4" using b below o by (auto simp: tracks_def seen_def)
    ultimately show ?thesis unfolding putc_result_def by blast
  qed
qed

lemma putc_plain:
  assumes ok: "tty_ok t" and ch: "ch \<noteq> 13" "ch \<noteq> 8" "ch \<noteq> 10"
  shows "\<exists>t'. tty_putc ch t = Inr t' \<and> putc_result ch t t'"
proof -
  let ?c = "nat (cursor t)" and ?w = "nat (columns t)"
  have o: "2 \<le> columns t" "columns t \<le> tty_size t" "tty_size t = columns t * lines t" "1 \<le> lines t"
    "int (length (tty_buf t)) = tty_size t" "int (length (dirty t)) = tty_size t"
    using ok tty_size_ge [OF ok] by (simp_all add: tty_ok_def)
  have c: "0 \<le> cursor t" "cursor t < tty_size t" using ok by (simp_all add: tty_ok_def)
  let ?b = "(tty_buf t)[?c := (tty_buf t ! ?c)\<lparr>ch_ch := ch\<rparr>]"
  let ?t1 = "t\<lparr>tty_buf := ?b, cursor := cursor t + 1\<rparr>"
  have put: "tty_upd_putc ch t = Inr ?t1" using c o(5) by (simp add: tty_upd_putc_def put_cell_def)
  have r: "nat (cursor t + 1) = ?c + 1" using c(1) by simp
  show ?thesis
  proof (cases "cursor t + 1 = tty_size t")
    case True
    obtain t' where t': "res_bind (tty_upd_scrollup ?t1) tty_mark_all = Inr t'" "tty_ok t'" "same_shape ?t1 t'"
      "screen t' = (scrolled ?w ?b, length (tty_buf t) - ?w)" "\<forall>k < length (dirty t). dirty t' ! k = 1"
      using scroll_all [of ?t1] o True by auto
    have "tty_putc ch t = Inr t'" using put True t'(1) ch by (simp add: tty_putc_def)
    moreover have "same_shape t t'" using t'(3) by (simp add: same_shape_def)
    moreover have "?c + 1 = length (tty_buf t)" using True o(5) c(1) by linarith
    then have "screen t' = vt_putc ?w ch (screen t)" using t'(4) ch by (simp add: screen_def vt_putc_def vt_wrap_def)
    moreover have "tracks t t'" using t'(5) by (simp add: tracks_def)
    ultimately show ?thesis using t'(2) unfolding putc_result_def by blast
  next
    case False
    let ?d = "marked ?c 1 (dirty t)"
    let ?t2 = "?t1\<lparr>dirty := ?d\<rparr>" and ?t3 = "?t1\<lparr>dirty := marked (?c + 1) 1 ?d\<rparr>"
    have "tty_mark (cursor ?t1 - 1) ?t1 = Inr ?t2" using tty_mark_in [of "cursor t" ?t1] c o by simp
    moreover have "tty_mark (cursor ?t2) ?t2 = Inr ?t3" using tty_mark_in [of "cursor t + 1" ?t2] c o False r by simp
    ultimately have "tty_putc ch t = Inr ?t3" using put False ch by (simp add: tty_putc_def)
    moreover have "tty_ok ?t3" "same_shape t ?t3" using ok c False by (auto simp: tty_ok_def same_shape_def)
    moreover have "?c + 1 \<noteq> length (tty_buf t)" using False o(5) c(1) by linarith
    then have "screen ?t3 = vt_putc ?w ch (screen t)" using r ch by (simp add: screen_def vt_putc_def vt_wrap_def)
    moreover have "tracks t ?t3"
    proof -
      have "dirty ?t3 ! k \<noteq> 0" if k: "k < length (dirty t)" "dirty t ! k \<noteq> 0 \<or> seen ?t3 k \<noteq> seen t k" for k
      proof (cases "k = ?c \<or> k = ?c + 1")
        case True
        then show ?thesis using k(1) by auto
      next
        case False
        then have "seen ?t3 k = seen t k" using c by (auto simp: seen_def)
        then show ?thesis using k by auto
      qed
      then show ?thesis by (auto simp: tracks_def)
    qed
    ultimately show ?thesis unfolding putc_result_def by blast
  qed
qed

lemma putc_any: "tty_ok t \<Longrightarrow> \<exists>t'. tty_putc ch t = Inr t' \<and> putc_result ch t t'"
  by (cases "ch = 13 \<or> ch = 8 \<or> ch = 10") (auto simp: putc_return putc_backspace putc_newline putc_plain)

lemma puts_any:
  "tty_ok t \<Longrightarrow> \<exists>t'. tty_puts s t = Inr t' \<and> tty_ok t' \<and> same_shape t t' \<and>
     screen t' = fold (vt_putc (nat (columns t))) s (screen t) \<and> tracks t t'"
proof (induction s arbitrary: t)
  case Nil
  then show ?case using tracks_refl by (simp add: same_shape_def)
next
  case (Cons ch s)
  obtain t1 where t1: "tty_putc ch t = Inr t1" "tty_ok t1" "same_shape t t1"
    "screen t1 = vt_putc (nat (columns t)) ch (screen t)" "tracks t t1"
    using putc_any [OF Cons.prems] unfolding putc_result_def by blast
  obtain t2 where t2: "tty_puts s t1 = Inr t2" "tty_ok t2" "same_shape t1 t2"
    "screen t2 = fold (vt_putc (nat (columns t1))) s (screen t1)" "tracks t1 t2"
    using Cons.IH [OF t1(2)] by blast
  have len: "length (dirty t1) = length (dirty t)" and same: "same_shape t t2" "columns t1 = columns t"
    using t1(3) t2(3) by (simp_all add: same_shape_def)
  show ?case
    using t1(1) t2(1,2) same(1) t2(4) [unfolded same(2) t1(4)] tracks_trans [OF t1(5) t2(5) len] by simp
qed

section \<open>Properties\<close>

text \<open>
  C29: whatever bytes are written to a console, the writes stay inside its arrays, the cursor stays on
  the screen, and the cells and the cursor are those of a plain terminal that received the same
  bytes: return, backspace, line feed and plain characters, wrapping at the end of a row, with the
  screen moving up a row when the end of it is reached.
\<close>

theorem tty_puts_terminal:
  assumes "tty_ok t"
  shows "\<exists>t'. tty_puts s t = Inr t' \<and> tty_ok t' \<and> (tty_buf t', nat (cursor t')) =
     fold (vt_putc (nat (columns t))) s (tty_buf t, nat (cursor t))"
  using puts_any [OF assms, of s] by (auto simp: screen_def)

definition small_tty :: tty where
  "small_tty = \<lparr>tty_lock = zero_sem, cooked = zero_sem, tty_display = 0, lines = 1, columns = 2, tty_size = 2,
     tty_buf = [tty_defaultch, tty_defaultch], cursor = 0,
     queue = \<lparr>q_buf = [], q_front = 0, q_rear = 0\<rparr>, dirty = [0, 0]\<rparr>"

lemma small_tty_ok: "tty_ok small_tty"
  by (simp add: tty_ok_def small_tty_def)

theorem tty_puts_terminal_witness:
  "\<exists>t'. tty_puts [65, 66, 67] small_tty = Inr t' \<and> map ch_ch (tty_buf t') = [67, 0] \<and> nat (cursor t') = 1"
proof -
  obtain t' where t': "tty_puts [65, 66, 67] small_tty = Inr t'"
    "(tty_buf t', nat (cursor t')) = fold (vt_putc (nat (columns small_tty))) [65, 66, 67] (tty_buf small_tty, nat (cursor small_tty))"
    using tty_puts_terminal [OF small_tty_ok, of "[65, 66, 67]"] by blast
  have two: "replicate 2 x = [x, x]" for x :: character by (simp add: numeral_2_eq_2)
  have "fold (vt_putc (nat (columns small_tty))) [65, 66, 67] (tty_buf small_tty, nat (cursor small_tty)) =
      ([\<lparr>ch_metadata = 0, ch_ch = 67\<rparr>, tty_defaultch], 1)"
    by (simp add: vt_putc_def vt_wrap_def small_tty_def scrolled_def tty_defaultch_def two)
  then show ?thesis using t' by (simp add: tty_defaultch_def)
qed

text \<open>
  Nothing on the screen goes stale: every place whose character changed, or that the cursor left
  or entered, while bytes were written is marked dirty afterwards, and no mark that was there is
  lost, so the next rendering redraws it.
\<close>

theorem tty_puts_marks:
  assumes "tty_ok t" and "tty_puts s t = Inr t'" and "k < length (dirty t)"
    and "dirty t ! k \<noteq> 0 \<or> tty_buf t' ! k \<noteq> tty_buf t ! k \<or> (int k = cursor t') \<noteq> (int k = cursor t)"
  shows "dirty t' ! k \<noteq> 0"
proof -
  have "tracks t t'" using puts_any [OF assms(1), of s] assms(2) by auto
  then show ?thesis using assms(3,4) by (auto simp: tracks_def seen_def)
qed

theorem tty_puts_marks_witness:
  "\<exists>t'. tty_puts [65] small_tty = Inr t' \<and> dirty t' ! 0 \<noteq> 0 \<and> dirty t' ! 1 \<noteq> 0"
proof -
  obtain t' where t': "tty_puts [65] small_tty = Inr t'" "(tty_buf t', nat (cursor t')) =
      fold (vt_putc (nat (columns small_tty))) [65] (tty_buf small_tty, nat (cursor small_tty))" "tty_ok t'"
    using puts_any [OF small_tty_ok, of "[65]"] by (auto simp: screen_def)
  have "nat (cursor t') = 1" "0 \<le> cursor t'" using t'(2,3) by (simp_all add: vt_putc_def vt_wrap_def small_tty_def tty_ok_def)
  then have "cursor t' = 1" by linarith
  then show ?thesis
    using tty_puts_marks [OF small_tty_ok t'(1), of 0] tty_puts_marks [OF small_tty_ok t'(1), of 1] t'(1)
    by (simp add: small_tty_def)
qed

end
