(* ===== verification/Dev_Sd.thy ===== *)
theory Dev_Sd
  imports Palloc
begin

text \<open>
  The disk driver (\<open>kernel/src/dev/dev_sd.c\<close>), which turns reads and writes at any offset and of any
  length into transfers of whole blocks. The disk itself is hardware: \<open>rdb\<close> gives the contents of a
  block, \<open>wrb\<close> stores one; the driver waits until a transfer is done. The arithmetic is that of
  \<open>uint32_t\<close>, to which the offset and the count are converted.
\<close>

section \<open>The driver\<close>

record sd =
  sd_blkcnt :: u32
  sd_blksz :: u32
  sd_buf :: "u8 list"

text \<open>\<open>mem\<close> is what the buffer holds; without a disk there is no state.\<close>

definition sd_init :: "nat \<Rightarrow> bool \<Rightarrow> int \<Rightarrow> int \<Rightarrow> (nat \<Rightarrow> u8) \<Rightarrow> kern \<Rightarrow> (sd option \<times> kern) res" where
  "sd_init i present blkcnt blksz mem s =
    (if \<not> present then Inr (None, s)
     else res_bind (palloc i blksz s) (\<lambda>(p, s1).
       Inr (Some \<lparr>sd_blkcnt = word_of_int blkcnt, sd_blksz = word_of_int blksz,
                  sd_buf = (if p = 0 then [] else map mem [0..<nat blksz])\<rparr>, s1)))"

definition blk_read :: "('d \<Rightarrow> u32 \<Rightarrow> u8 list) \<Rightarrow> 'd \<Rightarrow> u32 \<Rightarrow> sd \<Rightarrow> sd" where
  "blk_read rdb d blkno sd = sd\<lparr>sd_buf := rdb d blkno\<rparr>"

definition blk_write :: "('d \<Rightarrow> u32 \<Rightarrow> u8 list \<Rightarrow> 'd) \<Rightarrow> u32 \<Rightarrow> sd \<Rightarrow> 'd \<Rightarrow> 'd" where
  "blk_write wrb blkno sd d = wrb d blkno (sd_buf sd)"

definition sd_rounddown :: "u32 \<Rightarrow> u32 \<Rightarrow> u32" where
  "sd_rounddown a sz = a AND NOT (sz - 1)"

text \<open>\<open>memcpy\<close> of \<open>n\<close> bytes between two buffers.\<close>

definition copy_bytes :: "u8 list \<Rightarrow> nat \<Rightarrow> u8 list \<Rightarrow> nat \<Rightarrow> nat \<Rightarrow> u8 list res" where
  "copy_bytes dst k src j n =
    (if length dst < k + n \<or> length src < j + n then Inl Undefined
     else Inr (take k dst @ take n (drop j src) @ drop (k + n) dst))"

text \<open>
  The loops: at most \<open>count\<close> rounds make progress, and a round without progress is followed by others
  like it, so with one round more than \<open>count\<close> the bound is reached only by a loop that does not end.
\<close>

fun sd_read_loop :: "nat \<Rightarrow> ('d \<Rightarrow> u32 \<Rightarrow> u8 list) \<Rightarrow> 'd \<Rightarrow> u32 \<Rightarrow> u32 \<Rightarrow> u32 \<Rightarrow> u32 \<Rightarrow> u8 list \<Rightarrow> sd \<Rightarrow> (u32 \<times> u8 list \<times> sd) res" where
  "sd_read_loop 0 rdb d st offset pos cnt buf sd = Inl Hang"
| "sd_read_loop (Suc fuel) rdb d st offset pos cnt buf sd =
    (if \<not> pos < cnt then Inr (pos, buf, sd)
     else if sd_blksz sd = 0 then Inl Undefined
     else
       let n0 = sd_blksz sd - (offset - st);
           n = (if n0 > cnt - pos then cnt - pos else n0);
           sd1 = blk_read rdb d (st div sd_blksz sd) sd in
       res_bind (copy_bytes buf (unat pos) (sd_buf sd1) (unat (offset - st)) (unat n)) (\<lambda>buf1.
         sd_read_loop fuel rdb d (st + sd_blksz sd) (st + sd_blksz sd) (pos + n) cnt buf1 sd1))"

definition sd_read :: "('d \<Rightarrow> u32 \<Rightarrow> u8 list) \<Rightarrow> 'd \<Rightarrow> sd option \<Rightarrow> u32 \<Rightarrow> u8 list \<Rightarrow> u32 \<Rightarrow> (u32 \<times> u8 list \<times> sd) res" where
  "sd_read rdb d sdo offset buf cnt =
    (case sdo of None \<Rightarrow> Inl (Panic ''no disk'')
     | Some sd \<Rightarrow> sd_read_loop (Suc (unat cnt)) rdb d (sd_rounddown offset (sd_blksz sd)) offset 0 cnt buf sd)"

fun sd_write_loop :: "nat \<Rightarrow> ('d \<Rightarrow> u32 \<Rightarrow> u8 list) \<Rightarrow> ('d \<Rightarrow> u32 \<Rightarrow> u8 list \<Rightarrow> 'd) \<Rightarrow> u32 \<Rightarrow> u32 \<Rightarrow> u32 \<Rightarrow> u32 \<Rightarrow> u8 list \<Rightarrow>
    sd \<Rightarrow> 'd \<Rightarrow> (u32 \<times> sd \<times> 'd) res" where
  "sd_write_loop 0 rdb wrb st offset pos cnt buf sd d = Inl Hang"
| "sd_write_loop (Suc fuel) rdb wrb st offset pos cnt buf sd d =
    (if \<not> pos < cnt then Inr (pos, sd, d)
     else if sd_blksz sd = 0 then Inl Undefined
     else
       let n0 = sd_blksz sd - (offset - st);
           n = (if n0 > cnt - pos then cnt - pos else n0);
           sd1 = (if n < sd_blksz sd then blk_read rdb d (st div sd_blksz sd) sd else sd) in
       res_bind (copy_bytes (sd_buf sd1) (unat (offset - st)) buf (unat pos) (unat n)) (\<lambda>b.
         let sd2 = sd1\<lparr>sd_buf := b\<rparr>; d1 = blk_write wrb (st div sd_blksz sd) sd2 d in
         sd_write_loop fuel rdb wrb (st + sd_blksz sd) (st + sd_blksz sd) (pos + n) cnt buf sd2 d1))"

definition sd_write :: "('d \<Rightarrow> u32 \<Rightarrow> u8 list) \<Rightarrow> ('d \<Rightarrow> u32 \<Rightarrow> u8 list \<Rightarrow> 'd) \<Rightarrow> sd option \<Rightarrow> u32 \<Rightarrow> u8 list \<Rightarrow> u32 \<Rightarrow> 'd \<Rightarrow> (u32 \<times> sd \<times> 'd) res" where
  "sd_write rdb wrb sdo offset buf cnt d =
    (case sdo of None \<Rightarrow> Inl (Panic ''no disk'')
     | Some sd \<Rightarrow> sd_write_loop (Suc (unat cnt)) rdb wrb (sd_rounddown offset (sd_blksz sd)) offset 0 cnt buf sd d)"

section \<open>The disk as an array of bytes\<close>

text \<open>A block that has been written is read back, and other blocks are as they were.\<close>

definition disk_laws :: "nat \<Rightarrow> ('d \<Rightarrow> u32 \<Rightarrow> u8 list) \<Rightarrow> ('d \<Rightarrow> u32 \<Rightarrow> u8 list \<Rightarrow> 'd) \<Rightarrow> bool" where
  "disk_laws sz rdb wrb \<longleftrightarrow> (\<forall>d b. length (rdb d b) = sz) \<and>
     (\<forall>d b v c. length v = sz \<longrightarrow> rdb (wrb d b v) c = (if c = b then v else rdb d c))"

definition disk_byte :: "nat \<Rightarrow> ('d \<Rightarrow> u32 \<Rightarrow> u8 list) \<Rightarrow> 'd \<Rightarrow> nat \<Rightarrow> u8" where
  "disk_byte sz rdb d a = rdb d (of_nat (a div sz)) ! (a mod sz)"

definition disk_bytes :: "nat \<Rightarrow> ('d \<Rightarrow> u32 \<Rightarrow> u8 list) \<Rightarrow> 'd \<Rightarrow> nat \<Rightarrow> nat \<Rightarrow> u8 list" where
  "disk_bytes sz rdb d a n = map (disk_byte sz rdb d) [a..<a + n]"

lemma disk_bytes_length [simp]: "length (disk_bytes sz rdb d a n) = n"
  by (simp add: disk_bytes_def)

lemma disk_bytes_append: "disk_bytes sz rdb d a m @ disk_bytes sz rdb d (a + m) n = disk_bytes sz rdb d a (m + n)"
  using upt_add_eq_append [of a "a + m" n] by (simp add: disk_bytes_def add.assoc)

lemma disk_bytes_block:
  assumes "a mod sz + n \<le> sz" and "length (rdb d (of_nat (a div sz))) = sz"
  shows "take n (drop (a mod sz) (rdb d (of_nat (a div sz)))) = disk_bytes sz rdb d a n"
proof (rule nth_equalityI)
  show "length (take n (drop (a mod sz) (rdb d (of_nat (a div sz))))) = length (disk_bytes sz rdb d a n)"
    using assms by simp
  fix k assume "k < length (take n (drop (a mod sz) (rdb d (of_nat (a div sz)))))"
  then have k: "k < n" "a mod sz + k < sz" using assms by auto
  then have sz: "0 < sz" by simp
  have e: "a + k = (a mod sz + k) + sz * (a div sz)" by (simp add: algebra_simps)
  have x: "(x + sz * q) div sz = q" "(x + sz * q) mod sz = x" if "x < sz" for x q using that by simp_all
  have "(a + k) div sz = a div sz" "(a + k) mod sz = a mod sz + k" using x [OF k(2), of "a div sz"] unfolding e [symmetric] by simp_all
  then show "take n (drop (a mod sz) (rdb d (of_nat (a div sz)))) ! k = disk_bytes sz rdb d a n ! k"
    using k assms by (simp add: disk_bytes_def disk_byte_def)
qed

lemma unat_rounddown:
  assumes "sz = 2 ^ k" and "k < 32"
  shows "unat (sd_rounddown a sz) = unat a - unat a mod 2 ^ k"
proof -
  have "sz - 1 = mask k" using assms by (simp add: mask_eq_exp_minus_1)
  then show ?thesis by (simp add: sd_rounddown_def unat_and_not_mask)
qed

text \<open>One round: \<open>o\<close> is the offset as a number, \<open>r\<close> what is left to do.\<close>

lemma round_arith:
  fixes st offset pos cnt blksz :: u32
  assumes "blksz = 2 ^ k" and "k < 32" and "unat st = unat offset - unat offset mod 2 ^ k"
    and "pos < cnt" and "unat offset + (unat cnt - unat pos) + 2 ^ k < 2 ^ 32"
  defines "n \<equiv> (if blksz - (offset - st) > cnt - pos then cnt - pos else blksz - (offset - st))"
  shows "unat (offset - st) = unat offset mod 2 ^ k" "st div blksz = of_nat (unat offset div 2 ^ k)"
    "unat n = min (2 ^ k - unat offset mod 2 ^ k) (unat cnt - unat pos)" "unat (pos + n) = unat pos + unat n"
    "unat (st + blksz) = unat offset - unat offset mod 2 ^ k + 2 ^ k" "blksz \<noteq> 0"
    "n < blksz \<longleftrightarrow> unat n < 2 ^ k" "0 < unat n"
proof -
  let ?sz = "2 ^ k :: nat"
  have sz: "unat blksz = ?sz" using assms(1,2) unat_two_power [of k, where 'a = 32] by simp
  then show "blksz \<noteq> 0" by auto
  have m: "unat offset mod ?sz < ?sz" "unat offset mod ?sz \<le> unat offset" by simp_all
  have "unat st \<le> unat offset" using assms(3) by simp
  then show o: "unat (offset - st) = unat offset mod ?sz" using assms(3) m(2) by (simp add: unat_sub_le)
  have s: "unat st = ?sz * (unat offset div ?sz)" using assms(3) by (simp add: minus_mod_eq_mult_div)
  then have "unat (st div blksz) = unat offset div ?sz" using sz by (simp add: unat_div)
  moreover have "unat offset div ?sz < 2 ^ 32" using le_less_trans [OF div_le_dividend unsigned_less [of offset]] by simp
  ultimately show "st div blksz = of_nat (unat offset div ?sz)" by (simp add: word_unat_eq_iff unat_of_nat_small)
  have n0: "unat (blksz - (offset - st)) = ?sz - unat offset mod ?sz"
    using o sz m(1) by (simp add: unat_sub_le)
  have "unat pos \<le> unat cnt" using assms(4) by (simp add: word_less_nat_alt)
  then have c: "unat (cnt - pos) = unat cnt - unat pos" by (simp add: unat_sub_le)
  show n: "unat n = min (?sz - unat offset mod ?sz) (unat cnt - unat pos)"
    using n0 c by (auto simp: n_def word_less_nat_alt)
  have "unat cnt < 2 ^ 32" using unsigned_less [of cnt] by simp
  then show "unat (pos + n) = unat pos + unat n" using n assms(4) by (intro unat_add_nowrap) (auto simp: word_less_nat_alt)
  show "unat (st + blksz) = unat offset - unat offset mod ?sz + ?sz"
    using assms(3,5) sz by (simp add: unat_add_nowrap)
  show "n < blksz \<longleftrightarrow> unat n < ?sz" by (simp add: word_less_nat_alt sz)
  show "0 < unat n" using n m(1) assms(4) by (simp add: word_less_nat_alt)
qed


section \<open>Reading\<close>

lemma sd_read_loop_bytes:
  assumes k: "k < 32" and len: "\<forall>b. length (rdb d b) = 2 ^ k"
  shows "sd_blksz sd = 2 ^ k \<Longrightarrow> unat st = unat offset - unat offset mod 2 ^ k \<Longrightarrow> pos \<le> cnt \<Longrightarrow>
    (pos < cnt \<Longrightarrow> unat offset + (unat cnt - unat pos) + 2 ^ k < 2 ^ 32) \<Longrightarrow> unat cnt \<le> length buf \<Longrightarrow> unat cnt - unat pos < fuel \<Longrightarrow>
    \<exists>sd'. sd_read_loop fuel rdb d st offset pos cnt buf sd = Inr (cnt, take (unat pos) buf @
       disk_bytes (2 ^ k) rdb d (unat offset) (unat cnt - unat pos) @ drop (unat cnt) buf, sd') \<and> sd_blksz sd' = sd_blksz sd"
proof (induction fuel arbitrary: st offset pos buf sd)
  case (Suc fuel)
  let ?sz = "2 ^ k :: nat" and ?o = "unat offset" and ?left = "unat cnt - unat pos"
  show ?case
  proof (cases "pos < cnt")
    case False
    then have "pos = cnt" using Suc.prems(3) by simp
    then show ?thesis using Suc.prems(5) by (simp add: disk_bytes_def)
  next
    case True
    define n where "n = (if sd_blksz sd - (offset - st) > cnt - pos then cnt - pos else sd_blksz sd - (offset - st))"
    note r = round_arith [OF Suc.prems(1) k Suc.prems(2) True Suc.prems(4) [OF True], folded n_def]
    let ?sd1 = "blk_read rdb d (st div sd_blksz sd) sd" and ?st' = "st + sd_blksz sd"
    have fit: "?o mod ?sz + unat n \<le> ?sz" "unat n \<le> ?left"
    proof -
      have "?o mod ?sz < ?sz" "unat n \<le> ?sz - ?o mod ?sz" by (simp_all add: r(3))
      then show "?o mod ?sz + unat n \<le> ?sz" by linarith
      show "unat n \<le> ?left" by (simp add: r(3))
    qed
    have sdb: "sd_buf ?sd1 = rdb d (of_nat (?o div ?sz))" by (simp add: blk_read_def r(2))
    let ?data = "disk_bytes ?sz rdb d ?o (unat n)"
    let ?buf1 = "take (unat pos) buf @ ?data @ drop (unat pos + unat n) buf"
    have inb: "\<not> length buf < unat pos + unat n"
      using fit(2) Suc.prems(3,5) by (simp add: word_le_nat_alt)
    have copy: "copy_bytes buf (unat pos) (sd_buf ?sd1) (unat (offset - st)) (unat n) = Inr ?buf1"
      using fit inb disk_bytes_block [OF fit(1), of rdb d] len by (simp add: copy_bytes_def sdb r(1))
    have step: "sd_read_loop (Suc fuel) rdb d st offset pos cnt buf sd =
        sd_read_loop fuel rdb d ?st' ?st' (pos + n) cnt ?buf1 ?sd1"
      using True r(6) copy by (simp add: n_def Let_def)
    have st': "unat ?st' mod ?sz = 0" unfolding r(5) by (simp add: minus_mod_eq_mult_div)
    have pn: "pos + n \<le> cnt" "unat cnt - unat (pos + n) = ?left - unat n"
      using r(4) fit(2) Suc.prems(3) by (simp_all add: word_le_nat_alt)
    have blk: "sd_blksz ?sd1 = 2 ^ k" using Suc.prems(1) by (simp add: blk_read_def)
    have lb: "unat cnt \<le> length ?buf1" "?left - unat n < fuel"
      using Suc.prems(5,6) r(8) fit(2) True by (simp_all add: word_less_nat_alt)
    have ov: "unat ?st' + (unat cnt - unat (pos + n)) + ?sz < 2 ^ 32" if "pos + n < cnt"
    proof -
      have "unat n \<noteq> ?left" using that pn(2) by (simp add: word_less_nat_alt)
      then have "unat n = ?sz - ?o mod ?sz" using r(3) by (auto simp: min_def split: if_splits)
      moreover have "?o mod ?sz < ?sz" "?o mod ?sz \<le> ?o" by simp_all
      ultimately show ?thesis unfolding r(5) pn(2) using Suc.prems(4) [OF True] fit(2) by linarith
    qed
    obtain sd' where sd': "sd_read_loop fuel rdb d ?st' ?st' (pos + n) cnt ?buf1 ?sd1 = Inr (cnt, take (unat (pos + n)) ?buf1 @
       disk_bytes ?sz rdb d (unat ?st') (unat cnt - unat (pos + n)) @ drop (unat cnt) ?buf1, sd')" "sd_blksz sd' = sd_blksz sd"
      using Suc.IH [OF blk _ pn(1) ov lb(1)] st' lb(2) pn(2) by (auto simp: blk_read_def)
    have pos: "unat pos \<le> length buf" "unat pos + unat n \<le> unat cnt"
      using Suc.prems(3,5) fit(2) True by (simp_all add: word_le_nat_alt word_less_nat_alt)
    have t: "take (unat (pos + n)) ?buf1 = take (unat pos) buf @ ?data" "drop (unat cnt) ?buf1 = drop (unat cnt) buf"
      using pos r(4) by simp_all
    have e: "?data @ disk_bytes ?sz rdb d (unat ?st') (unat cnt - unat (pos + n)) = disk_bytes ?sz rdb d ?o ?left"
    proof (cases "unat n = ?left")
      case True
      then show ?thesis by (simp add: pn(2) disk_bytes_def)
    next
      case False
      then have "unat n = ?sz - ?o mod ?sz" using r(3) by (auto simp: min_def split: if_splits)
      moreover have "?o mod ?sz < ?sz" "?o mod ?sz \<le> ?o" by simp_all
      ultimately have "unat ?st' = ?o + unat n" unfolding r(5) by linarith
      moreover have "unat n + (?left - unat n) = ?left" using fit(2) by simp
      ultimately show ?thesis unfolding pn(2) by (simp only: disk_bytes_append)
    qed
    show ?thesis unfolding step sd'(1) t e [symmetric] using sd'(2) by simp
  qed
qed simp


section \<open>Writing\<close>

text \<open>Storing a block that differs from the old one from byte \<open>a\<close> on by the bytes \<open>v\<close>.\<close>

lemma disk_byte_write:
  fixes wrb :: "'d \<Rightarrow> u32 \<Rightarrow> u8 list \<Rightarrow> 'd" and blk v :: "u8 list"
  assumes laws: "disk_laws sz rdb wrb" and fit: "a mod sz + length v \<le> sz" "v \<noteq> []" and small: "x div sz < 2 ^ 32" "a div sz < 2 ^ 32"
  defines "b \<equiv> take (a mod sz) blk @ v @ drop (a mod sz + length v) blk"
  assumes blk: "length blk = sz" "length v < sz \<longrightarrow> blk = rdb d (of_nat (a div sz))"
  shows "disk_byte sz rdb (wrb d (of_nat (a div sz)) b) x = (if a \<le> x \<and> x < a + length v then v ! (x - a) else disk_byte sz rdb d x)"
proof -
  let ?b = "of_nat (a div sz) :: u32"
  have len: "length b = sz" using fit blk(1) by (simp add: b_def)
  have rdw: "rdb (wrb d ?b b) c = (if c = ?b then b else rdb d c)" for c using laws len by (simp add: disk_laws_def)
  have same: "(of_nat (x div sz) :: u32) = ?b \<longleftrightarrow> x div sz = a div sz"
    using small by (auto simp: word_unat_eq_iff unat_of_nat_small)
  have sz: "0 < sz" using fit by (cases v) auto
  have am: "a = sz * (a div sz) + a mod sz" and xm: "x = sz * (x div sz) + x mod sz" by simp_all
  show ?thesis
  proof (cases "x div sz = a div sz")
    case False
    have "\<not> (a \<le> x \<and> x < a + length v)"
    proof
      assume "a \<le> x \<and> x < a + length v"
      moreover have "a + length v \<le> sz * (a div sz) + sz" using am fit(1) by linarith
      ultimately have "sz * (a div sz) \<le> x" "x < sz * (a div sz) + sz" using am by linarith+
      then have "x div sz = a div sz" by (intro div_nat_eqI) (simp_all add: algebra_simps)
      then show False using False by simp
    qed
    then show ?thesis using False same by (auto simp: disk_byte_def rdw)
  next
    case True
    have m: "x mod sz < sz" using sz by simp
    have in_range: "a \<le> x \<and> x < a + length v \<longleftrightarrow> a mod sz \<le> x mod sz \<and> x mod sz < a mod sz + length v"
      using am xm unfolding True by linarith
    have "disk_byte sz rdb (wrb d ?b b) x = b ! (x mod sz)" using True by (simp add: disk_byte_def rdw)
    also have "\<dots> = (if a mod sz \<le> x mod sz \<and> x mod sz < a mod sz + length v then v ! (x mod sz - a mod sz) else blk ! (x mod sz))"
      using m blk(1) fit(1) by (auto simp: b_def nth_append)
    also have "\<dots> = (if a \<le> x \<and> x < a + length v then v ! (x - a) else disk_byte sz rdb d x)"
    proof (cases "a \<le> x \<and> x < a + length v")
      case yes: True
      have "x mod sz - a mod sz = x - a" using am xm yes unfolding True by linarith
      then show ?thesis using yes in_range by simp
    next
      case no: False
      have "length v < sz"
      proof (rule ccontr)
        assume "\<not> length v < sz"
        then have "a mod sz = 0" "length v = sz" using fit(1) by auto
        then show False using no in_range m by simp
      qed
      then have "blk ! (x mod sz) = disk_byte sz rdb d x" using blk(2) True by (simp add: disk_byte_def)
      moreover have "\<not> (a mod sz \<le> x mod sz \<and> x mod sz < a mod sz + length v)" using no in_range by simp
      ultimately show ?thesis using no by (simp only: if_False)
    qed
    finally show ?thesis .
  qed
qed

lemma sd_write_loop_bytes:
  fixes wrb :: "'d \<Rightarrow> u32 \<Rightarrow> u8 list \<Rightarrow> 'd"
  assumes k: "k < 32" and laws: "disk_laws (2 ^ k) rdb wrb"
  shows "sd_blksz sd = 2 ^ k \<Longrightarrow> length (sd_buf sd) = 2 ^ k \<Longrightarrow> unat st = unat offset - unat offset mod 2 ^ k \<Longrightarrow> pos \<le> cnt \<Longrightarrow>
    (pos < cnt \<Longrightarrow> unat offset + (unat cnt - unat pos) + 2 ^ k < 2 ^ 32) \<Longrightarrow> unat cnt \<le> length buf \<Longrightarrow> unat cnt - unat pos < fuel \<Longrightarrow>
    \<exists>sd' d'. sd_write_loop fuel rdb wrb st offset pos cnt buf sd d = Inr (cnt, sd', d') \<and>
      (\<forall>x < 2 ^ 32. disk_byte (2 ^ k) rdb d' x =
        (if unat offset \<le> x \<and> x < unat offset + (unat cnt - unat pos) then buf ! (unat pos + (x - unat offset)) else disk_byte (2 ^ k) rdb d x))"
proof (induction fuel arbitrary: st offset pos sd d)
  case (Suc fuel)
  let ?sz = "2 ^ k :: nat" and ?o = "unat offset" and ?left = "unat cnt - unat pos"
  have rlen: "length (rdb d b) = ?sz" for b d using laws by (simp add: disk_laws_def)
  show ?case
  proof (cases "pos < cnt")
    case False
    then have "pos = cnt" using Suc.prems(4) by simp
    then show ?thesis by (simp add: not_less [symmetric])
  next
    case True
    define n where "n = (if sd_blksz sd - (offset - st) > cnt - pos then cnt - pos else sd_blksz sd - (offset - st))"
    note r = round_arith [OF Suc.prems(1) k Suc.prems(3) True Suc.prems(5) [OF True], folded n_def]
    let ?st' = "st + sd_blksz sd"
    let ?sd1 = "if n < sd_blksz sd then blk_read rdb d (st div sd_blksz sd) sd else sd"
    let ?v = "take (unat n) (drop (unat pos) buf)"
    let ?b = "take (?o mod ?sz) (sd_buf ?sd1) @ ?v @ drop (?o mod ?sz + unat n) (sd_buf ?sd1)"
    let ?sd2 = "?sd1\<lparr>sd_buf := ?b\<rparr>"
    let ?d1 = "wrb d (of_nat (?o div ?sz)) ?b"
    have fit: "?o mod ?sz + unat n \<le> ?sz" "unat n \<le> ?left"
    proof -
      have "?o mod ?sz < ?sz" "unat n \<le> ?sz - ?o mod ?sz" by (simp_all add: r(3))
      then show "?o mod ?sz + unat n \<le> ?sz" by linarith
      show "unat n \<le> ?left" by (simp add: r(3))
    qed
    have pos: "unat pos + unat n \<le> unat cnt" using fit(2) Suc.prems(4) by (simp add: word_le_nat_alt)
    have v: "length ?v = unat n" using pos Suc.prems(6) by simp
    have l1: "length (sd_buf ?sd1) = ?sz" using Suc.prems(2) rlen by (simp add: blk_read_def)
    have blk: "unat n < ?sz \<longrightarrow> sd_buf ?sd1 = rdb d (of_nat (?o div ?sz))" using r(2,7) by (simp add: blk_read_def)
    have copy: "copy_bytes (sd_buf ?sd1) (unat (offset - st)) buf (unat pos) (unat n) = Inr ?b"
      using fit(1) l1 pos Suc.prems(6) by (simp add: copy_bytes_def r(1))
    have step: "sd_write_loop (Suc fuel) rdb wrb st offset pos cnt buf sd d =
        sd_write_loop fuel rdb wrb ?st' ?st' (pos + n) cnt buf ?sd2 ?d1"
      using True r(6) copy by (simp add: n_def [symmetric] Let_def blk_write_def r(2))
    have o32: "?o < 2 ^ 32" using unsigned_less [of offset] by simp
    have byte: "disk_byte ?sz rdb ?d1 x = (if ?o \<le> x \<and> x < ?o + unat n then ?v ! (x - ?o) else disk_byte ?sz rdb d x)"
      if "x < 2 ^ 32" for x
    proof -
      have "x div ?sz < 2 ^ 32" "?o div ?sz < 2 ^ 32"
        using le_less_trans [OF div_le_dividend that] le_less_trans [OF div_le_dividend o32] by blast+
      moreover have "?v \<noteq> []" using v r(8) by auto
      ultimately show ?thesis
        using disk_byte_write [OF laws, of ?o ?v x "sd_buf ?sd1" d] fit(1) v l1 blk by simp
    qed
    have st': "unat ?st' mod ?sz = 0" unfolding r(5) by (simp add: minus_mod_eq_mult_div)
    then have st'': "unat ?st' = unat ?st' - unat ?st' mod ?sz" by simp
    have pn: "pos + n \<le> cnt" "unat cnt - unat (pos + n) = ?left - unat n" using r(4) fit(2) pos by (simp_all add: word_le_nat_alt)
    have next_o: "unat ?st' = ?o + unat n" if "unat n \<noteq> ?left"
    proof -
      have "unat n = ?sz - ?o mod ?sz" using that r(3) by (auto simp: min_def split: if_splits)
      moreover have "?o mod ?sz < ?sz" "?o mod ?sz \<le> ?o" by simp_all
      ultimately show ?thesis unfolding r(5) by linarith
    qed
    have ov: "unat ?st' + (unat cnt - unat (pos + n)) + ?sz < 2 ^ 32" if "pos + n < cnt"
    proof -
      have "unat n \<noteq> ?left" using that pn(2) by (simp add: word_less_nat_alt)
      then show ?thesis unfolding next_o [OF \<open>unat n \<noteq> ?left\<close>] pn(2) using Suc.prems(5) [OF True] fit(2) by linarith
    qed
    have sd2: "sd_blksz ?sd2 = 2 ^ k" "length (sd_buf ?sd2) = ?sz"
      using Suc.prems(1) l1 v fit(1) by (simp_all add: blk_read_def)
    have fuel: "unat cnt - unat (pos + n) < fuel"
      unfolding pn(2) using Suc.prems(7) r(8) fit(2) True by (simp add: word_less_nat_alt)
    obtain sd' d' where d': "sd_write_loop fuel rdb wrb ?st' ?st' (pos + n) cnt buf ?sd2 ?d1 = Inr (cnt, sd', d')"
      "\<forall>x < 2 ^ 32. disk_byte ?sz rdb d' x = (if unat ?st' \<le> x \<and> x < unat ?st' + (unat cnt - unat (pos + n))
         then buf ! (unat (pos + n) + (x - unat ?st')) else disk_byte ?sz rdb ?d1 x)"
      using Suc.IH [OF sd2 st'' pn(1) ov Suc.prems(6) fuel, where d = ?d1] by blast
    have "disk_byte ?sz rdb d' x = (if ?o \<le> x \<and> x < ?o + ?left then buf ! (unat pos + (x - ?o)) else disk_byte ?sz rdb d x)"
      if x: "x < 2 ^ 32" for x
    proof -
      have v_nth: "?v ! (x - ?o) = buf ! (unat pos + (x - ?o))" if "?o \<le> x" "x < ?o + unat n"
        using that v Suc.prems(6) pos by simp
      have d'x: "disk_byte ?sz rdb d' x = (if unat ?st' \<le> x \<and> x < unat ?st' + (?left - unat n)
         then buf ! (unat pos + unat n + (x - unat ?st')) else disk_byte ?sz rdb ?d1 x)"
        using d'(2) [rule_format, OF x] unfolding pn(2) r(4) by (simp only: diff_diff_left)
      show ?thesis
      proof (cases "unat n = ?left")
        case True
        then have "disk_byte ?sz rdb d' x = disk_byte ?sz rdb ?d1 x" using d'x by auto
        then show ?thesis using byte [OF x] v_nth True by auto
      next
        case False
        have e: "?o + unat n + (?left - unat n) = ?o + ?left" using fit(2) by simp
        show ?thesis
        proof (cases "?o + unat n \<le> x \<and> x < ?o + ?left")
          case True
          then have "unat pos + unat n + (x - (?o + unat n)) = unat pos + (x - ?o)" by linarith
          then show ?thesis using d'x True unfolding next_o [OF False] e by simp
        next
          case no: False
          then have "disk_byte ?sz rdb d' x = disk_byte ?sz rdb ?d1 x" using d'x unfolding next_o [OF False] e by auto
          then show ?thesis using byte [OF x] v_nth no fit(2) by auto
        qed
      qed
    qed
    then show ?thesis using d'(1) step by auto
  qed
qed simp


section \<open>Properties\<close>

lemma round_start: "sz = 2 ^ k \<Longrightarrow> k < 32 \<Longrightarrow> unat (sd_rounddown a sz) = unat a - unat a mod 2 ^ k"
  by (rule unat_rounddown)

lemma sd_read_bytes:
  assumes "sd_blksz sd = 2 ^ k" and "k < 32" and "\<forall>b. length (rdb d b) = 2 ^ k"
    and "unat offset + unat cnt + 2 ^ k < 2 ^ 32" and "unat cnt \<le> length buf"
  shows "\<exists>sd'. sd_read rdb d (Some sd) offset buf cnt =
     Inr (cnt, disk_bytes (2 ^ k) rdb d (unat offset) (unat cnt) @ drop (unat cnt) buf, sd')"
proof -
  have pre: "unat (sd_rounddown offset (sd_blksz sd)) = unat offset - unat offset mod 2 ^ k" "0 \<le> cnt"
    "0 < cnt \<Longrightarrow> unat offset + (unat cnt - unat (0 :: u32)) + 2 ^ k < 2 ^ 32" "unat cnt - unat (0 :: u32) < Suc (unat cnt)"
    using unat_rounddown [OF assms(1,2)] assms(4) by simp_all
  show ?thesis using sd_read_loop_bytes [where rdb = rdb and d = d, OF assms(2,3,1) pre(1-3) assms(5) pre(4)] by (auto simp: sd_read_def)
qed

lemma sd_write_bytes:
  assumes "sd_blksz sd = 2 ^ k" and "length (sd_buf sd) = 2 ^ k" and "k < 32" and "disk_laws (2 ^ k) rdb wrb"
    and "unat offset + unat cnt + 2 ^ k < 2 ^ 32" and "unat cnt \<le> length buf"
  shows "\<exists>sd' d'. sd_write rdb wrb (Some sd) offset buf cnt d = Inr (cnt, sd', d') \<and>
     (\<forall>x < 2 ^ 32. disk_byte (2 ^ k) rdb d' x =
        (if unat offset \<le> x \<and> x < unat offset + unat cnt then buf ! (x - unat offset) else disk_byte (2 ^ k) rdb d x))"
proof -
  have pre: "unat (sd_rounddown offset (sd_blksz sd)) = unat offset - unat offset mod 2 ^ k" "0 \<le> cnt"
    "0 < cnt \<Longrightarrow> unat offset + (unat cnt - unat (0 :: u32)) + 2 ^ k < 2 ^ 32" "unat cnt - unat (0 :: u32) < Suc (unat cnt)"
    using unat_rounddown [OF assms(1,3)] assms(5) by simp_all
  show ?thesis using sd_write_loop_bytes [OF assms(3,4,1,2) pre(1-3) assms(6) pre(4), of d]
    unfolding sd_write_def by (simp only: option.case unsigned_0 diff_zero add_0)
qed

text \<open>A disk of blocks of 4 bytes, for the witnesses.\<close>

definition toy_rd :: "(nat \<Rightarrow> u8) \<Rightarrow> u32 \<Rightarrow> u8 list" where
  "toy_rd d b = map (\<lambda>k. d (unat b * 4 + k)) [0..<4]"

definition toy_wr :: "(nat \<Rightarrow> u8) \<Rightarrow> u32 \<Rightarrow> u8 list \<Rightarrow> nat \<Rightarrow> u8" where
  "toy_wr d b v = (\<lambda>a. if a div 4 = unat b then v ! (a mod 4) else d a)"

lemma toy_laws: "disk_laws 4 toy_rd toy_wr"
  unfolding disk_laws_def
proof (intro conjI allI impI)
  show "length (toy_rd d b) = 4" for d b by (simp add: toy_rd_def)
  show "toy_rd (toy_wr d b v) c = (if c = b then v else toy_rd d c)" if "length v = 4" for d b v c
    using that by (intro nth_equalityI) (auto simp: toy_rd_def toy_wr_def word_unat_eq_iff)
qed

text \<open>
  C30: reading any range of the disk, block by block through the driver's buffer, is the same as
  taking that range of the disk as one array of bytes: wherever the range begins and ends within
  blocks, exactly its bytes are stored, the rest of the caller's buffer is not touched, and the loop
  ends with the number of bytes asked for.
\<close>

theorem sd_read_flat:
  assumes "sd_blksz sd = 2 ^ k" and "k < 32" and "\<forall>b. length (rdb d b) = 2 ^ k"
    and "unat offset + unat cnt + 2 ^ k < 2 ^ 32" and "unat cnt \<le> length buf"
  shows "\<exists>sd'. sd_read rdb d (Some sd) offset buf cnt =
     Inr (cnt, map (\<lambda>a. rdb d (of_nat (a div 2 ^ k)) ! (a mod 2 ^ k)) [unat offset..<unat offset + unat cnt] @ drop (unat cnt) buf, sd')"
  using sd_read_bytes [where rdb = rdb and d = d, OF assms] by (simp add: disk_bytes_def disk_byte_def [abs_def])

theorem sd_read_flat_witness:
  "\<exists>sd'. sd_read toy_rd of_nat (Some \<lparr>sd_blkcnt = 8, sd_blksz = 4, sd_buf = [0, 0, 0, 0]\<rparr>) 3 [0, 0, 0, 0, 0, 0, 9] 6 =
     Inr (6, [3, 4, 5, 6, 7, 8, 9], sd')"
proof -
  have "\<forall>b. length (toy_rd of_nat b) = 2 ^ 2" by (simp add: toy_rd_def)
  from sd_read_flat [where rdb = toy_rd and d = of_nat and sd = "\<lparr>sd_blkcnt = 8, sd_blksz = 4, sd_buf = [0, 0, 0, 0]\<rparr>" and k = 2, OF _ _ this,
      of 3 6 "[0, 0, 0, 0, 0, 0, 9]"]
  show ?thesis by (simp add: upt_rec toy_rd_def unat_of_nat_small)
qed

text \<open>
  C31: what is written to a range of the disk is what a later read of that range returns, and every
  byte outside the range keeps its value, although whole blocks are transferred: the blocks at both
  ends are read first and stored back with the rest of their bytes.
\<close>

theorem sd_write_then_read:
  assumes "sd_blksz sd = 2 ^ k" and "length (sd_buf sd) = 2 ^ k" and "k < 32" and "disk_laws (2 ^ k) rdb wrb"
    and "unat offset + unat cnt + 2 ^ k < 2 ^ 32" and "length buf = unat cnt" and "length out = unat cnt"
  shows "\<exists>sd' d'. sd_write rdb wrb (Some sd) offset buf cnt d = Inr (cnt, sd', d') \<and>
     (\<exists>sd''. sd_read rdb d' (Some sd) offset out cnt = Inr (cnt, buf, sd'')) \<and>
     (\<forall>x < 2 ^ 32. \<not> (unat offset \<le> x \<and> x < unat offset + unat cnt) \<longrightarrow>
        rdb d' (of_nat (x div 2 ^ k)) ! (x mod 2 ^ k) = rdb d (of_nat (x div 2 ^ k)) ! (x mod 2 ^ k))"
proof -
  obtain sd' d' where w: "sd_write rdb wrb (Some sd) offset buf cnt d = Inr (cnt, sd', d')"
    "\<forall>x < 2 ^ 32. disk_byte (2 ^ k) rdb d' x =
        (if unat offset \<le> x \<and> x < unat offset + unat cnt then buf ! (x - unat offset) else disk_byte (2 ^ k) rdb d x)"
    using sd_write_bytes [OF assms(1-5) eq_imp_le [OF assms(6) [symmetric]], of d] by blast
  have "\<forall>b. length (rdb d' b) = 2 ^ k" using assms(4) by (simp add: disk_laws_def)
  then obtain sd'' where r: "sd_read rdb d' (Some sd) offset out cnt = Inr (cnt, disk_bytes (2 ^ k) rdb d' (unat offset) (unat cnt), sd'')"
    using sd_read_bytes [where rdb = rdb and d = d', OF assms(1,3) _ assms(5) eq_imp_le [OF assms(7) [symmetric]]] assms(7) by auto
  have "disk_bytes (2 ^ k) rdb d' (unat offset) (unat cnt) = buf"
  proof (rule nth_equalityI)
    fix j assume "j < length (disk_bytes (2 ^ k) rdb d' (unat offset) (unat cnt))"
    then have "j < unat cnt" "unat offset + j < 2 ^ 32" using assms(5) by auto
    then show "disk_bytes (2 ^ k) rdb d' (unat offset) (unat cnt) ! j = buf ! j"
      using w(2) by (simp add: disk_bytes_def)
  qed (use assms(6) in simp)
  then show ?thesis using w r by (auto simp: disk_byte_def)
qed

theorem sd_write_then_read_witness:
  "\<exists>sd' d'. sd_write toy_rd toy_wr (Some \<lparr>sd_blkcnt = 8, sd_blksz = 4, sd_buf = [0, 0, 0, 0]\<rparr>) 3 [1, 2, 3, 4, 5, 6] 6 (\<lambda>_. 0) = Inr (6, sd', d') \<and>
     (\<exists>sd''. sd_read toy_rd d' (Some \<lparr>sd_blkcnt = 8, sd_blksz = 4, sd_buf = [0, 0, 0, 0]\<rparr>) 3 [0, 0, 0, 0, 0, 0] 6 = Inr (6, [1, 2, 3, 4, 5, 6], sd''))"
proof -
  have l: "disk_laws (2 ^ 2) toy_rd toy_wr" using toy_laws by simp
  show ?thesis
    using sd_write_then_read [where sd = "\<lparr>sd_blkcnt = 8, sd_blksz = 4, sd_buf = [0, 0, 0, 0]\<rparr>" and k = 2, OF _ _ _ l,
        of 3 6 "[1, 2, 3, 4, 5, 6]" "[0, 0, 0, 0, 0, 0]" "\<lambda>_. 0"]
    by auto
qed

end
