(* ===== verification/Devices.thy ===== *)
theory Devices
  imports Dev_Tty Dev_Sd
begin

text \<open>
  The table of devices (\<open>kernel/src/dev/dev.c\<close>): look-up by name, creation, and the initialisation of
  every driver in the order of the table, followed by the two tasks of the drivers.
\<close>

section \<open>The table\<close>

datatype dev_ops = Input_ops | Fb_ops | Tty_ops | Sd_ops

record device =
  d_name :: string
  d_id :: int
  d_ptr :: addr
  d_ops :: dev_ops

definition DEVICE_SIZE :: int where "DEVICE_SIZE = 32"

text \<open>Size of the driver's state, name, number and operations of each device.\<close>

definition DEVICES :: "(int \<times> string \<times> int \<times> dev_ops) list" where
  "DEVICES = [(8648, ''input'', 1, Input_ops), (24, ''fb'', 1, Fb_ops), (17024, ''tty1'', 1, Tty_ops),
     (17024, ''tty2'', 2, Tty_ops), (16, ''sda'', 1, Sd_ops)]"

fun dev_lookup :: "device list \<Rightarrow> string \<Rightarrow> device res" where
  "dev_lookup [] nm = Inl (Panic ''lookup device failed.'')"
| "dev_lookup (d # ds) nm = (if d_name d = nm then Inr d else dev_lookup ds nm)"

definition dev_create :: "nat \<Rightarrow> int \<times> string \<times> int \<times> dev_ops \<Rightarrow> kern \<Rightarrow> (device \<times> kern) res" where
  "dev_create i entry s =
    (case entry of (sz, nm, k, ops) \<Rightarrow>
       res_bind (palloc i DEVICE_SIZE s) (\<lambda>(p, s1).
       res_bind (palloc i sz s1) (\<lambda>(q, s2).
         if p = 0 then Inl Undefined else Inr (\<lparr>d_name = nm, d_id = k, d_ptr = q, d_ops = ops\<rparr>, s2))))"

section \<open>Initialisation\<close>

text \<open>What the machine has: its screen is part of the consoles' state.\<close>

record hardware =
  hw_font :: "u8 list"
  hw_events :: "nat \<Rightarrow> input_event"
  hw_textures :: "nat \<Rightarrow> u8"
  hw_queue :: "nat \<Rightarrow> u8"
  hw_disk :: "bool \<times> int \<times> int"
  hw_sd_buf :: "nat \<Rightarrow> u8"

record machine =
  mc_devs :: "device list"
  mc_input :: input_t
  mc_irqs :: "irq list"
  mc_sd :: "sd option"
  mc_con :: console

definition mc_kern :: "machine \<Rightarrow> kern" where
  "mc_kern m = con_kern (mc_con m)"

definition set_kern :: "kern \<Rightarrow> machine \<Rightarrow> machine" where
  "set_kern s m = m\<lparr>mc_con := (mc_con m)\<lparr>con_kern := s\<rparr>\<rparr>"

text \<open>The driver's initialisation; a null pointer to its state is dereferenced by all of them but a disk driver without a disk.\<close>

definition init_device :: "nat \<Rightarrow> hardware \<Rightarrow> device \<Rightarrow> machine \<Rightarrow> (unit option \<times> machine) res" where
  "init_device i hw d m =
    (if d_ptr d = 0 \<and> (d_ops d = Sd_ops \<longrightarrow> fst (hw_disk hw)) then Inl Undefined
     else case d_ops d of
       Input_ops \<Rightarrow> res_bind (input_init i (hw_events hw) (mc_irqs m) (mc_kern m)) (\<lambda>(inp, irqs, s).
         Inr (Some (), set_kern s (m\<lparr>mc_input := inp, mc_irqs := irqs\<rparr>)))
     | Fb_ops \<Rightarrow> res_bind (fb_init i (d_name d) (con_gpu (mc_con m)) (hw_font hw) (hw_textures hw) (fb_sem (con_fb (mc_con m))) (mc_kern m)) (\<lambda>(f, s).
         Inr (Some (), m\<lparr>mc_con := (mc_con m)\<lparr>con_fb := f, con_kern := s\<rparr>\<rparr>))
     | Tty_ops \<Rightarrow> res_bind (tty_init i (nat (d_id d) - 1) (d_id d) (hw_queue hw) (mc_con m)) (\<lambda>(r, c). Inr (r, m\<lparr>mc_con := c\<rparr>))
     | Sd_ops \<Rightarrow> (case hw_disk hw of (present, blkcnt, blksz) \<Rightarrow>
         res_bind (sd_init i present blkcnt blksz (hw_sd_buf hw) (mc_kern m)) (\<lambda>(sdo, s). Inr (Some (), set_kern s (m\<lparr>mc_sd := sdo\<rparr>)))))"

fun init_devices :: "nat \<Rightarrow> hardware \<Rightarrow> (int \<times> string \<times> int \<times> dev_ops) list \<Rightarrow> machine \<Rightarrow> (unit option \<times> machine) res" where
  "init_devices i hw [] m = Inr (Some (), m)"
| "init_devices i hw (e # es) m =
    res_bind (dev_create i e (mc_kern m)) (\<lambda>(d, s).
    res_bind (init_device i hw d ((set_kern s m)\<lparr>mc_devs := mc_devs m @ [d]\<rparr>)) (\<lambda>(r, m1).
      case r of None \<Rightarrow> Inr (None, m1) | Some _ \<Rightarrow> init_devices i hw es m1))"

text \<open>\<open>start\<close>, \<open>e_input\<close> and \<open>e_tty\<close> are the addresses of the routine a thread starts in and of the two tasks.\<close>

definition create_task :: "nat \<Rightarrow> addr \<Rightarrow> string \<Rightarrow> addr \<Rightarrow> kern \<Rightarrow> kern res" where
  "create_task i start nm entry s =
    res_bind (palloc i TASK_SIZE s) (\<lambda>(t, s1). res_bind (kmt_create start i t nm entry 0 s1) (\<lambda>(_, s2). Inr s2))"

definition dev_init :: "nat \<Rightarrow> hardware \<Rightarrow> addr \<Rightarrow> addr \<Rightarrow> addr \<Rightarrow> machine \<Rightarrow> (unit option \<times> machine) res" where
  "dev_init i hw start e_input e_tty m =
    res_bind (init_devices i hw DEVICES (m\<lparr>mc_devs := []\<rparr>)) (\<lambda>(r, m1).
      case r of None \<Rightarrow> Inr (None, m1)
      | Some _ \<Rightarrow>
          res_bind (create_task i start ''input-task'' e_input (mc_kern m1)) (\<lambda>s1.
          res_bind (create_task i start ''tty-task'' e_tty s1) (\<lambda>s2.
            Inr (Some (), set_kern s2 m1))))"

section \<open>Look-up\<close>

lemma dev_lookup_table:
  assumes "distinct (map d_name ds)" and "d \<in> set ds"
  shows "dev_lookup ds (d_name d) = Inr d"
  using assms
proof (induction ds)
  case (Cons e ds)
  then show ?case by (auto simp: image_iff)
qed simp

lemma init_device_devs: "init_device i hw d m = Inr (r, m') \<Longrightarrow> mc_devs m' = mc_devs m"
  by (auto simp: init_device_def set_kern_def res_bind_eq_Inr split: if_splits dev_ops.splits prod.splits)

lemma init_devices_devs:
  "init_devices i hw es m = Inr (Some u, m') \<Longrightarrow>
   map (\<lambda>d. (d_name d, d_id d, d_ops d)) (mc_devs m') = map (\<lambda>d. (d_name d, d_id d, d_ops d)) (mc_devs m) @ map snd es"
proof (induction es arbitrary: m)
  case (Cons e es)
  obtain d s r m1 where d: "dev_create i e (mc_kern m) = Inr (d, s)"
    "init_device i hw d ((set_kern s m)\<lparr>mc_devs := mc_devs m @ [d]\<rparr>) = Inr (Some r, m1)"
    "init_devices i hw es m1 = Inr (Some u, m')"
    using Cons.prems by (auto simp: res_bind_eq_Inr split: option.splits)
  have "(d_name d, d_id d, d_ops d) = snd e"
    using d(1) by (auto simp: dev_create_def res_bind_eq_Inr split: if_splits prod.splits)
  then show ?case using Cons.IH [OF d(3)] init_device_devs [OF d(2)] by simp
qed simp

text \<open>
  Once \<open>dev_init\<close> has returned, \<open>dev->lookup\<close> finds each of the five devices by its name, with the
  number and the operations of the table, and panics for any other name.
\<close>

lemma dev_init_lookup:
  assumes "dev_init i hw start e_input e_tty m = Inr (Some u, m')"
  shows "(\<forall>e \<in> set DEVICES. \<exists>d. dev_lookup (mc_devs m') (fst (snd e)) = Inr d \<and> (d_name d, d_id d, d_ops d) = snd e) \<and>
     (nm \<notin> {''input'', ''fb'', ''tty1'', ''tty2'', ''sda''} \<longrightarrow> dev_lookup (mc_devs m') nm = Inl (Panic ''lookup device failed.''))"
proof -
  let ?f = "\<lambda>d. (d_name d, d_id d, d_ops d)"
  obtain u1 m1 s2 where m1: "init_devices i hw DEVICES (m\<lparr>mc_devs := []\<rparr>) = Inr (Some u1, m1)" "m' = set_kern s2 m1"
    using assms by (auto simp: dev_init_def res_bind_eq_Inr split: option.splits)
  have tab: "map ?f (mc_devs m') = map snd DEVICES"
    using init_devices_devs [OF m1(1)] m1(2) by (simp add: set_kern_def)
  have names: "map d_name (mc_devs m') = map (fst \<circ> snd) DEVICES"
    using arg_cong [OF tab, of "map fst"] by (simp add: comp_def)
  have "distinct (map d_name (mc_devs m'))" unfolding names by (simp add: DEVICES_def)
  note look = dev_lookup_table [OF this]
  have "\<exists>d. dev_lookup (mc_devs m') (fst (snd e)) = Inr d \<and> ?f d = snd e" if "e \<in> set DEVICES" for e
  proof -
    have "snd e \<in> set (map ?f (mc_devs m'))" unfolding tab using that by simp
    then obtain d where "d \<in> set (mc_devs m')" "?f d = snd e" by auto
    then show ?thesis using look [of d] by (metis fst_conv)
  qed
  moreover have "dev_lookup ds nm = Inl (Panic ''lookup device failed.'')" if "nm \<notin> set (map d_name ds)" for ds
    using that by (induction ds) auto
  moreover have "nm \<notin> set (map d_name (mc_devs m'))" if "nm \<notin> {''input'', ''fb'', ''tty1'', ''tty2'', ''sda''}"
    unfolding names using that by (simp add: DEVICES_def)
  ultimately show ?thesis by blast
qed

end
