(* ===== verification/Frecov.thy ===== *)
theory Frecov
  imports JYY_Prelude
begin

text \<open>
  Recovery of pictures from a FAT32 image (\<open>frecov/frecov.c\<close>). The image is the list of its
  bytes; a pointer into it is an offset, and a read past its end is undefined; a structure is read as a whole. What \<open>malloc\<close>
  leaves in a block is an argument (\<open>junk\<close>), and so are the calls of the operating system:
  \<open>can_open\<close> for \<open>fopen\<close>, and \<open>sha\<close> for the line that \<open>popen\<close> of a command gives.
\<close>

section \<open>The image and its fields\<close>

type_synonym image = "u8 list"

definition at8 :: "image \<Rightarrow> nat \<Rightarrow> u8 res" where
  "at8 img p = (if p < length img then Inr (img ! p) else Inl Undefined)"

definition at16 :: "image \<Rightarrow> nat \<Rightarrow> u16 res" where
  "at16 img p = (if Suc p < length img then Inr (ucast (img ! p) OR push_bit 8 (ucast (img ! Suc p))) else Inl Undefined)"

definition at32 :: "image \<Rightarrow> nat \<Rightarrow> u32 res" where
  "at32 img p = (if p + 3 < length img then Inr (ucast (img ! p) OR push_bit 8 (ucast (img ! (p + 1))) OR
     push_bit 16 (ucast (img ! (p + 2))) OR push_bit 24 (ucast (img ! (p + 3)))) else Inl Undefined)"

definition bytes_at :: "image \<Rightarrow> nat \<Rightarrow> nat \<Rightarrow> u8 list res" where
  "bytes_at img p n = (if p + n \<le> length img then Inr (take n (drop p img)) else Inl Undefined)"

text \<open>The fields of the packed structures, in order; \<open>hdr_at\<close> and the like read them.\<close>

record fat32hdr =
  BS_jmpBoot :: "u8 list"
  BS_OEMName :: "u8 list"
  BPB_BytsPerSec :: u16
  BPB_SecPerClus :: u8
  BPB_RsvdSecCnt :: u16
  BPB_NumFATs :: u8
  BPB_RootEntCnt :: u16
  BPB_TotSec16 :: u16
  BPB_Media :: u8
  BPB_FATSz16 :: u16
  BPB_SecPerTrk :: u16
  BPB_NumHeads :: u16
  BPB_HiddSec :: u32
  BPB_TotSec32 :: u32
  BPB_FATSz32 :: u32
  BPB_ExtFlags :: u16
  BPB_FSVer :: u16
  BPB_RootClus :: u32
  BPB_FSInfo :: u16
  BPB_BkBootSec :: u16
  BPB_Reserved :: "u8 list"
  BS_DrvNum :: u8
  BS_Reserved1 :: u8
  BS_BootSig :: u8
  BS_VolID :: u32
  BS_VolLab :: "u8 list"
  BS_FilSysType :: "u8 list"
  padding_1 :: "u8 list"
  Signature_word :: u16

definition hdr_at :: "image \<Rightarrow> nat \<Rightarrow> fat32hdr res" where
  "hdr_at img p =
    res_bind (bytes_at img p 3) (\<lambda>jmp. res_bind (bytes_at img (p + 3) 8) (\<lambda>oem.
    res_bind (at16 img (p + 11)) (\<lambda>byts. res_bind (at8 img (p + 13)) (\<lambda>spc.
    res_bind (at16 img (p + 14)) (\<lambda>rsvd. res_bind (at8 img (p + 16)) (\<lambda>fats.
    res_bind (at16 img (p + 17)) (\<lambda>ents. res_bind (at16 img (p + 19)) (\<lambda>tot16.
    res_bind (at8 img (p + 21)) (\<lambda>media. res_bind (at16 img (p + 22)) (\<lambda>fsz16.
    res_bind (at16 img (p + 24)) (\<lambda>trk. res_bind (at16 img (p + 26)) (\<lambda>heads.
    res_bind (at32 img (p + 28)) (\<lambda>hidd. res_bind (at32 img (p + 32)) (\<lambda>tot32.
    res_bind (at32 img (p + 36)) (\<lambda>fsz32. res_bind (at16 img (p + 40)) (\<lambda>ext.
    res_bind (at16 img (p + 42)) (\<lambda>ver. res_bind (at32 img (p + 44)) (\<lambda>rootc.
    res_bind (at16 img (p + 48)) (\<lambda>info. res_bind (at16 img (p + 50)) (\<lambda>bk.
    res_bind (bytes_at img (p + 52) 12) (\<lambda>resv. res_bind (at8 img (p + 64)) (\<lambda>drv.
    res_bind (at8 img (p + 65)) (\<lambda>res1. res_bind (at8 img (p + 66)) (\<lambda>bootsig.
    res_bind (at32 img (p + 67)) (\<lambda>volid. res_bind (bytes_at img (p + 71) 11) (\<lambda>lab.
    res_bind (bytes_at img (p + 82) 8) (\<lambda>typ. res_bind (bytes_at img (p + 90) 420) (\<lambda>pad.
    res_bind (at16 img (p + 510)) (\<lambda>sig.
    Inr \<lparr>BS_jmpBoot = jmp, BS_OEMName = oem, BPB_BytsPerSec = byts, BPB_SecPerClus = spc, BPB_RsvdSecCnt = rsvd,
      BPB_NumFATs = fats, BPB_RootEntCnt = ents, BPB_TotSec16 = tot16, BPB_Media = media, BPB_FATSz16 = fsz16,
      BPB_SecPerTrk = trk, BPB_NumHeads = heads, BPB_HiddSec = hidd, BPB_TotSec32 = tot32, BPB_FATSz32 = fsz32,
      BPB_ExtFlags = ext, BPB_FSVer = ver, BPB_RootClus = rootc, BPB_FSInfo = info, BPB_BkBootSec = bk,
      BPB_Reserved = resv, BS_DrvNum = drv, BS_Reserved1 = res1, BS_BootSig = bootsig, BS_VolID = volid,
      BS_VolLab = lab, BS_FilSysType = typ, padding_1 = pad, Signature_word = sig\<rparr>)))))))))))))))))))))))))))))"

record fat32dent =
  DIR_Name :: "u8 list"
  DIR_Attr :: u8
  DIR_NTRes :: u8
  DIR_CrtTimeTenth :: u8
  DIR_CrtTime :: u16
  DIR_CrtDate :: u16
  DIR_LastAccDate :: u16
  DIR_FstClusHI :: u16
  DIR_WrtTime :: u16
  DIR_WrtDate :: u16
  DIR_FstClusLO :: u16
  DIR_FileSize :: u32

definition dent_at :: "image \<Rightarrow> nat \<Rightarrow> fat32dent res" where
  "dent_at img p =
    res_bind (bytes_at img p 11) (\<lambda>nm. res_bind (at8 img (p + 11)) (\<lambda>attr.
    res_bind (at8 img (p + 12)) (\<lambda>nt. res_bind (at8 img (p + 13)) (\<lambda>tenth.
    res_bind (at16 img (p + 14)) (\<lambda>ct. res_bind (at16 img (p + 16)) (\<lambda>cd.
    res_bind (at16 img (p + 18)) (\<lambda>ld. res_bind (at16 img (p + 20)) (\<lambda>hi.
    res_bind (at16 img (p + 22)) (\<lambda>wt. res_bind (at16 img (p + 24)) (\<lambda>wd.
    res_bind (at16 img (p + 26)) (\<lambda>lo. res_bind (at32 img (p + 28)) (\<lambda>sz.
    Inr \<lparr>DIR_Name = nm, DIR_Attr = attr, DIR_NTRes = nt, DIR_CrtTimeTenth = tenth, DIR_CrtTime = ct, DIR_CrtDate = cd,
      DIR_LastAccDate = ld, DIR_FstClusHI = hi, DIR_WrtTime = wt, DIR_WrtDate = wd, DIR_FstClusLO = lo,
      DIR_FileSize = sz\<rparr>))))))))))))"

text \<open>\<open>n\<close> words of 16 bits that follow each other.\<close>

fun words16 :: "image \<Rightarrow> nat \<Rightarrow> nat \<Rightarrow> u16 list res" where
  "words16 img p 0 = Inr []"
| "words16 img p (Suc n) = res_bind (at16 img p) (\<lambda>w. res_bind (words16 img (p + 2) n) (\<lambda>ws. Inr (w # ws)))"

record longentry =
  lfn_ord :: u8
  lfn_name1 :: "u16 list"
  lfn_attr :: u8
  lfn_type :: u8
  lfn_chksum :: u8
  lfn_name2 :: "u16 list"
  lfn_first_cluster :: u16
  lfn_name3 :: "u16 list"

definition lfn_at :: "image \<Rightarrow> nat \<Rightarrow> longentry res" where
  "lfn_at img p =
    res_bind (at8 img p) (\<lambda>od. res_bind (words16 img (p + 1) 5) (\<lambda>n1.
    res_bind (at8 img (p + 11)) (\<lambda>attr. res_bind (at8 img (p + 12)) (\<lambda>typ.
    res_bind (at8 img (p + 13)) (\<lambda>sum. res_bind (words16 img (p + 14) 6) (\<lambda>n2.
    res_bind (at16 img (p + 26)) (\<lambda>fc. res_bind (words16 img (p + 28) 2) (\<lambda>n3.
    Inr \<lparr>lfn_ord = od, lfn_name1 = n1, lfn_attr = attr, lfn_type = typ, lfn_chksum = sum, lfn_name2 = n2,
      lfn_first_cluster = fc, lfn_name3 = n3\<rparr>))))))))"

record BITMAPFILEHEADER =
  bf_type :: u16
  bf_size :: u32
  bf_reserved1 :: u16
  bf_reserved2 :: u16
  bf_offset :: u32

definition bmp_file_at :: "image \<Rightarrow> nat \<Rightarrow> BITMAPFILEHEADER res" where
  "bmp_file_at img p =
    res_bind (at16 img p) (\<lambda>t. res_bind (at32 img (p + 2)) (\<lambda>sz.
    res_bind (at16 img (p + 6)) (\<lambda>r1. res_bind (at16 img (p + 8)) (\<lambda>r2.
    res_bind (at32 img (p + 10)) (\<lambda>off.
    Inr \<lparr>bf_type = t, bf_size = sz, bf_reserved1 = r1, bf_reserved2 = r2, bf_offset = off\<rparr>)))))"

record BITMAPINFOHEADER =
  bi_size :: u32
  bi_width :: u32
  bi_height :: u32
  bi_planes :: u16
  bi_bits :: u16
  bi_compression :: u32
  bi_imagesize :: u32
  bi_xresolution :: u32
  bi_yresolution :: u32
  bi_ncolours :: u32
  bi_importantcolours :: u32

definition bmp_info_at :: "image \<Rightarrow> nat \<Rightarrow> BITMAPINFOHEADER res" where
  "bmp_info_at img p =
    res_bind (at32 img p) (\<lambda>sz. res_bind (at32 img (p + 4)) (\<lambda>w.
    res_bind (at32 img (p + 8)) (\<lambda>h. res_bind (at16 img (p + 12)) (\<lambda>pl.
    res_bind (at16 img (p + 14)) (\<lambda>b. res_bind (at32 img (p + 16)) (\<lambda>c.
    res_bind (at32 img (p + 20)) (\<lambda>is. res_bind (at32 img (p + 24)) (\<lambda>xr.
    res_bind (at32 img (p + 28)) (\<lambda>yr. res_bind (at32 img (p + 32)) (\<lambda>nc.
    res_bind (at32 img (p + 36)) (\<lambda>ic.
    Inr \<lparr>bi_size = sz, bi_width = w, bi_height = h, bi_planes = pl, bi_bits = b, bi_compression = c,
      bi_imagesize = is, bi_xresolution = xr, bi_yresolution = yr, bi_ncolours = nc, bi_importantcolours = ic\<rparr>)))))))))))"

section \<open>The state of the program\<close>

text \<open>
  The type of a cluster; \<open>TAKEN\<close> is the value -1 that marks a cluster put into a picture. The
  list of directories has the latest first. \<open>fr_files\<close> are the files written, \<open>fr_out\<close> what was
  printed.
\<close>

datatype clu_type = DIR | BMP_F | BMP_I | UNUSED | TAKEN

record frecov =
  fr_img :: image
  fr_hdr :: fat32hdr
  fr_dirs :: "u32 list"
  fr_cnt :: u32
  fr_table :: "clu_type list"
  fr_files :: "(u8 list \<times> u8 list) list"
  fr_out :: "u8 list"

definition text_of :: "string \<Rightarrow> u8 list" where "text_of cs = map (\<lambda>c. of_nat (of_char c)) cs"

text \<open>A C string in a block of memory: up to its first 0, which must be there.\<close>

fun c_string :: "u8 list \<Rightarrow> u8 list res" where
  "c_string [] = Inl Undefined"
| "c_string (b # bs) = (if b = 0 then Inr [] else res_bind (c_string bs) (\<lambda>cs. Inr (b # cs)))"

section \<open>Clusters\<close>

text \<open>The size of a cluster in bytes, an \<open>int\<close> product of a 16-bit and an 8-bit number.\<close>

definition clu_bytes :: "fat32hdr \<Rightarrow> nat" where
  "clu_bytes h = unat (BPB_BytsPerSec h) * unat (BPB_SecPerClus h)"

text \<open>
  The offset of a cluster. The part of the reserved sectors is an \<open>int\<close>, the rest wraps in 32 bits.
\<close>

definition Cluster_to_Addr :: "fat32hdr \<Rightarrow> u32 \<Rightarrow> nat res" where
  "Cluster_to_Addr h n =
    (let spc = unat (BPB_SecPerClus h); byts = unat (BPB_BytsPerSec h);
         spcw = ucast (BPB_SecPerClus h) :: u32; bytsw = ucast (BPB_BytsPerSec h) :: u32 in
     if spc = 0 then Inl Undefined
     else
       let rsvd = ((unat (BPB_RsvdSecCnt h) + (spc - 1)) div spc) * spc * byts in
       if 2 ^ 31 \<le> rsvd then Inl Undefined
       else
         let fats = ((ucast (BPB_NumFATs h) * BPB_FATSz32 h + (spcw - 1)) div spcw) * spcw * bytsw;
             first_cluster = rsvd + unat fats
         in Inr (first_cluster + unat ((n - 2) * spcw * bytsw)))"

definition judge_if_bmp_hdr :: "image \<Rightarrow> nat \<Rightarrow> bool res" where
  "judge_if_bmp_hdr img cluster =
    res_bind (bmp_file_at img cluster) (\<lambda>file_hdr.
      if bf_type file_hdr \<noteq> 0x4D42 then Inr False
      else if bf_reserved1 file_hdr \<noteq> 0 \<or> bf_reserved2 file_hdr \<noteq> 0 then Inr False
      else res_bind (bmp_info_at img (cluster + 14)) (\<lambda>info_hdr.
        if bi_size info_hdr \<noteq> 40 then Inr False else Inr True))"

fun all_zero16 :: "image \<Rightarrow> nat \<Rightarrow> nat \<Rightarrow> bool res" where
  "all_zero16 img p 0 = Inr True"
| "all_zero16 img p (Suc n) = res_bind (at16 img p) (\<lambda>w. if w \<noteq> 0 then Inr False else all_zero16 img (p + 2) n)"

definition judge_if_unused :: "fat32hdr \<Rightarrow> image \<Rightarrow> nat \<Rightarrow> bool res" where
  "judge_if_unused h img cluster =
    res_bind (all_zero16 img cluster 16) (\<lambda>z.
      if \<not> z then Inr False
      else res_bind (at16 img (cluster + 2 * (clu_bytes h div 4))) (\<lambda>w. if w \<noteq> 0 then Inr False else Inr True))"

text \<open>The number of places among the next \<open>n\<close> where \<open>BMP\<close> stands, in one of four spellings.\<close>

fun bmp_count :: "image \<Rightarrow> nat \<Rightarrow> nat \<Rightarrow> nat \<Rightarrow> nat res" where
  "bmp_count img p 0 cnt = Inr cnt"
| "bmp_count img p (Suc n) cnt =
    res_bind (at8 img p) (\<lambda>a.
      if a \<noteq> 0x42 \<and> a \<noteq> 0x62 then bmp_count img (Suc p) n cnt
      else res_bind (at8 img (p + 1)) (\<lambda>b. res_bind (at8 img (p + 2)) (\<lambda>c.
        if (b = 0x4D \<and> c = 0x50) \<or> (b = 0x6D \<and> c = 0x70)
        then bmp_count img (Suc p) n (Suc cnt) else bmp_count img (Suc p) n cnt)))"

definition judge_if_dir :: "fat32hdr \<Rightarrow> image \<Rightarrow> nat \<Rightarrow> bool res" where
  "judge_if_dir h img cluster =
    (if clu_bytes h < 2 then Inl Undefined
     else res_bind (bmp_count img cluster (clu_bytes h - 2) 0) (\<lambda>bmp_cnt. Inr (bmp_cnt > 2)))"

definition decide_clu_type :: "fat32hdr \<Rightarrow> image \<Rightarrow> nat \<Rightarrow> clu_type res" where
  "decide_clu_type h img cluster =
    res_bind (judge_if_bmp_hdr img cluster) (\<lambda>b.
      if b then Inr BMP_F
      else res_bind (judge_if_unused h img cluster) (\<lambda>u.
        if u then Inr UNUSED
        else res_bind (judge_if_dir h img cluster) (\<lambda>d. if d then Inr DIR else Inr BMP_I)))"

definition initialize_dir_begin :: "frecov \<Rightarrow> frecov" where
  "initialize_dir_begin s = s\<lparr>fr_dirs := []\<rparr>"

definition insert_dir_node :: "u32 \<Rightarrow> frecov \<Rightarrow> frecov" where
  "insert_dir_node clu_num s = s\<lparr>fr_dirs := clu_num # fr_dirs s\<rparr>"

text \<open>The loop over the clusters; \<open>n\<close> are left.\<close>

fun classify_loop :: "nat \<Rightarrow> nat \<Rightarrow> frecov \<Rightarrow> frecov res" where
  "classify_loop 0 clu_num s = Inr s"
| "classify_loop (Suc n) clu_num s =
    res_bind (Cluster_to_Addr (fr_hdr s) (of_nat clu_num)) (\<lambda>cluster.
    res_bind (decide_clu_type (fr_hdr s) (fr_img s) cluster) (\<lambda>the_type.
      if length (fr_table s) \<le> clu_num then Inl Undefined
      else
        let s1 = s\<lparr>fr_table := (fr_table s)[clu_num := the_type]\<rparr>;
            s2 = (if the_type = DIR then insert_dir_node (of_nat clu_num) s1 else s1)
        in classify_loop n (Suc clu_num) s2))"

definition classify_the_cluster :: "frecov \<Rightarrow> frecov res" where
  "classify_the_cluster s = classify_loop (unat (fr_cnt s) - 2) 2 s"

section \<open>The data of a picture\<close>

text \<open>The sum of the squares of the differences of \<open>n\<close> bytes of a cluster and of the last line.\<close>

fun line_dev :: "image \<Rightarrow> nat \<Rightarrow> u8 list \<Rightarrow> nat \<Rightarrow> nat \<Rightarrow> u32 \<Rightarrow> u32 res" where
  "line_dev img p buf q 0 dev = Inr dev"
| "line_dev img p buf q (Suc n) dev =
    res_bind (at8 img p) (\<lambda>a. res_bind (at8 buf q) (\<lambda>b.
      let diff = a - b in line_dev img (Suc p) buf (Suc q) n (dev + ucast diff * ucast diff)))"

text \<open>\<open>last_line\<close> is a position in the buffer, which may lie before its start.\<close>

definition try_cluster :: "u32 \<Rightarrow> u32 \<Rightarrow> u32 \<Rightarrow> u8 list \<Rightarrow> int \<Rightarrow> frecov \<Rightarrow> bool res" where
  "try_cluster clu_num line_size padding_size buf last_line s =
    (if fr_cnt s \<le> clu_num \<or> clu_num < 2 then Inr False
     else res_bind (Cluster_to_Addr (fr_hdr s) clu_num) (\<lambda>cluster.
       if last_line < 0 then Inl Undefined
       else res_bind (line_dev (fr_img s) cluster buf (nat last_line) (unat (line_size + padding_size)) 0) (\<lambda>dev.
         if line_size + padding_size = 0 then Inl Undefined
         else if dev div (line_size + padding_size) > 220 * 220 then Inr False else Inr True)))"

text \<open>\<open>memcpy\<close> of a cluster into the buffer.\<close>

definition put_cluster :: "u32 \<Rightarrow> nat \<Rightarrow> u8 list \<Rightarrow> frecov \<Rightarrow> u8 list res" where
  "put_cluster clu_num pos buf s =
    res_bind (Cluster_to_Addr (fr_hdr s) clu_num) (\<lambda>p.
    res_bind (bytes_at (fr_img s) p (clu_bytes (fr_hdr s))) (\<lambda>bs.
      if length buf < pos + length bs then Inl Undefined
      else Inr (take pos buf @ bs @ drop (pos + length bs) buf)))"

definition mark_taken :: "u32 \<Rightarrow> frecov \<Rightarrow> frecov res" where
  "mark_taken clu_num s =
    (if length (fr_table s) \<le> unat clu_num then Inl Undefined
     else Inr (s\<lparr>fr_table := (fr_table s)[unat clu_num := TAKEN]\<rparr>))"

text \<open>The inner loop: the first cluster from \<open>j\<close> on that continues the picture, if there is one.\<close>

fun first_fit :: "nat \<Rightarrow> nat \<Rightarrow> u32 \<Rightarrow> u32 \<Rightarrow> u8 list \<Rightarrow> int \<Rightarrow> frecov \<Rightarrow> nat option res" where
  "first_fit 0 j line_size padding_size buf last_line s = Inr None"
| "first_fit (Suc n) j line_size padding_size buf last_line s =
    res_bind (try_cluster (of_nat j) line_size padding_size buf last_line s) (\<lambda>ok.
      if ok then Inr (Some j) else first_fit n (Suc j) line_size padding_size buf last_line s)"

text \<open>The remainder of C, whose sign is that of the dividend.\<close>

definition crem :: "int \<Rightarrow> int \<Rightarrow> int" where
  "crem a b = (if 0 \<le> a then a mod b else - ((- a) mod b))"

text \<open>
  The loop over the clusters of a picture; \<open>pos\<close> is where the next one goes, \<open>img_pos\<close> the position
  \<open>img\<close>, both relative to the buffer.
\<close>

fun collect_loop :: "nat \<Rightarrow> u32 \<Rightarrow> u32 \<Rightarrow> nat \<Rightarrow> int \<Rightarrow> u32 \<Rightarrow> u8 list \<Rightarrow> frecov \<Rightarrow> (u8 list \<times> frecov) res" where
  "collect_loop 0 line_size padding_size pos img_pos last_clu buf s = Inr (buf, s)"
| "collect_loop (Suc n) line_size padding_size pos img_pos last_clu buf s =
    (let padded_line_size = line_size + padding_size; clu = clu_bytes (fr_hdr s) in
     if padded_line_size = 0 then Inl Undefined
     else
       let offset = of_int (uint padded_line_size - crem (int pos - img_pos) (uint padded_line_size)) :: u32;
           img_pos1 = int pos + uint offset; last_line = int pos - uint padded_line_size in
       res_bind (if last_clu + 1 < fr_cnt s then try_cluster (last_clu + 1) line_size padding_size buf last_line s
                 else Inr False) (\<lambda>next_fits.
         if next_fits then
           res_bind (put_cluster (last_clu + 1) pos buf s) (\<lambda>buf1.
           res_bind (mark_taken (last_clu + 1) s) (\<lambda>s1.
             collect_loop n line_size padding_size (pos + clu) img_pos1 (last_clu + 1) buf1 s1))
         else
           res_bind (first_fit (unat (fr_cnt s) - 2) 2 line_size padding_size buf last_line s) (\<lambda>found.
             case found of
               None \<Rightarrow> collect_loop n line_size padding_size pos img_pos1 last_clu buf s
             | Some j \<Rightarrow>
                 res_bind (put_cluster (of_nat j) pos buf s) (\<lambda>buf1.
                 res_bind (mark_taken (of_nat j) s) (\<lambda>s1.
                   collect_loop n line_size padding_size (pos + clu) img_pos1 (of_nat j) buf1 s1)))))"

section \<open>Writing a picture\<close>

text \<open>\<open>start\<close> are the bytes from the pointer on; \<open>fwrite\<close> reads \<open>fsize\<close> of them.\<close>

definition store_pic_in_tmp :: "(u8 list \<Rightarrow> bool) \<Rightarrow> u8 list \<Rightarrow> u32 \<Rightarrow> u8 list \<Rightarrow> frecov \<Rightarrow> (bool \<times> frecov) res" where
  "store_pic_in_tmp can_open start fsize file_name s =
    (if \<not> can_open file_name then Inr (False, s)
     else res_bind (bytes_at start 0 (unat fsize)) (\<lambda>data. Inr (True, s\<lparr>fr_files := fr_files s @ [(file_name, data)]\<rparr>)))"

text \<open>The name goes behind \<open>/tmp/\<close> into a block of 300 bytes.\<close>

definition build_file_name_with_tmp :: "u8 list \<Rightarrow> u8 list res" where
  "build_file_name_with_tmp file_name =
    (if 300 \<le> 5 + length file_name then Inl Undefined else Inr (text_of ''/tmp/'' @ file_name))"

text \<open>The command is cut to 255 characters, the line read to 42.\<close>

definition calculate_sha1sum :: "(u8 list \<Rightarrow> u8 list option) \<Rightarrow> u8 list \<Rightarrow> frecov \<Rightarrow> bool \<times> frecov" where
  "calculate_sha1sum sha file_name s =
    (case sha (take 255 (text_of ''sha1sum '' @ file_name)) of
       None \<Rightarrow> (False, s)
     | Some line \<Rightarrow> (True, s\<lparr>fr_out := fr_out s @ take 42 line\<rparr>))"

text \<open>What the body of the \<open>do\<close> leaves in \<open>data\<close>: the bytes from the pointer on.\<close>

definition picture_data :: "u32 \<Rightarrow> nat \<Rightarrow> u32 \<Rightarrow> u8 list \<Rightarrow> frecov \<Rightarrow> (u8 list \<times> frecov) res" where
  "picture_data clu_num cluster num_clus buf s =
    res_bind (bmp_file_at buf 0) (\<lambda>bf. res_bind (bmp_info_at buf 14) (\<lambda>bi.
      if bi_compression bi \<noteq> 0 then Inr (drop cluster (fr_img s), s)
      else
        let line_size = ucast (bi_bits bi div 8) * bi_width bi :: u32;
            padding_size = (4 - line_size mod 4) mod 4 in
        if padding_size = 0 then Inr (drop cluster (fr_img s), s)
        else collect_loop (unat num_clus - 1) line_size padding_size (clu_bytes (fr_hdr s)) (uint (bf_offset bf)) clu_num buf s))"

definition get_pic_sha_num_and_print ::
  "(u8 list \<Rightarrow> bool) \<Rightarrow> (u8 list \<Rightarrow> u8 list option) \<Rightarrow> (nat \<Rightarrow> u8) \<Rightarrow> u32 \<Rightarrow> u8 list \<Rightarrow> frecov \<Rightarrow> (bool \<times> frecov) res" where
  "get_pic_sha_num_and_print can_open sha junk clu_num file_name s =
    (if fr_cnt s \<le> clu_num \<or> clu_num < 2 then Inr (False, s)
     else if length (fr_table s) \<le> unat clu_num then Inl Undefined
     else if fr_table s ! unat clu_num \<noteq> BMP_F then Inr (False, s)
     else
       let clu_size = of_nat (clu_bytes (fr_hdr s)) :: u32 in
       res_bind (Cluster_to_Addr (fr_hdr s) clu_num) (\<lambda>cluster.
       res_bind (bmp_file_at (fr_img s) cluster) (\<lambda>bfhdr.
       let fsize = bf_size bfhdr in
       res_bind (build_file_name_with_tmp file_name) (\<lambda>tmp_name.
       if clu_size = 0 then Inl Undefined
       else
         let num_clus = (fsize + clu_size - 1) div clu_size;
             buf = map junk [0..<unat (clu_size * num_clus)] in
         res_bind (put_cluster clu_num 0 buf s) (\<lambda>buf1.
         res_bind (picture_data clu_num cluster num_clus buf1 s) (\<lambda>(data, s1).
         res_bind (store_pic_in_tmp can_open data fsize tmp_name s1) (\<lambda>(stored, s2).
           if \<not> stored then Inr (False, s2)
           else
             let (summed, s3) = calculate_sha1sum sha tmp_name s2 in
             if \<not> summed then Inr (False, s3)
             else Inr (True, s3\<lparr>fr_out := fr_out s3 @ file_name @ [10]\<rparr>))))))))"

section \<open>Directories\<close>

text \<open>The low bytes of the 13 characters of each of the entries \<open>n - 1\<close>, ..., 0.\<close>

fun long_name_loop :: "image \<Rightarrow> nat \<Rightarrow> nat \<Rightarrow> u8 list res" where
  "long_name_loop img entry 0 = Inr []"
| "long_name_loop img entry (Suc n) =
    res_bind (lfn_at img (entry + 32 * n)) (\<lambda>cur_dir.
    res_bind (long_name_loop img entry n) (\<lambda>cs.
      Inr (map ucast (lfn_name1 cur_dir) @ map ucast (lfn_name2 cur_dir) @ map ucast (lfn_name3 cur_dir) @ cs)))"

definition get_long_fill_name :: "image \<Rightarrow> nat \<Rightarrow> nat \<Rightarrow> u8 list res" where
  "get_long_fill_name img entry entry_cnt = res_bind (long_name_loop img entry entry_cnt) (\<lambda>cs. Inr (cs @ [0]))"

definition get_short_fill_name :: "fat32dent \<Rightarrow> u8 list" where
  "get_short_fill_name entry = take 8 (DIR_Name entry) @ [0x2E] @ drop 8 (DIR_Name entry)"

text \<open>The block of the name has 20 bytes, of which 12 are set: no 0 is put behind them.\<close>

definition recover_short_name_file ::
  "(u8 list \<Rightarrow> bool) \<Rightarrow> (u8 list \<Rightarrow> u8 list option) \<Rightarrow> (nat \<Rightarrow> u8) \<Rightarrow> nat \<Rightarrow> frecov \<Rightarrow> (u32 \<times> frecov) res" where
  "recover_short_name_file can_open sha junk p s =
    res_bind (dent_at (fr_img s) p) (\<lambda>entry.
    res_bind (c_string (get_short_fill_name entry @ map junk [12..<20])) (\<lambda>file_name.
    let pic_clu_num = push_bit 16 (ucast (DIR_FstClusHI entry)) OR ucast (DIR_FstClusLO entry) :: u32 in
    res_bind (get_pic_sha_num_and_print can_open sha junk pic_clu_num file_name s) (\<lambda>(is_success, s1). Inr (0, s1))))"

text \<open>The shift of the high half is one of an \<open>int\<close>.\<close>

definition recover_long_name_file ::
  "(u8 list \<Rightarrow> bool) \<Rightarrow> (u8 list \<Rightarrow> u8 list option) \<Rightarrow> (nat \<Rightarrow> u8) \<Rightarrow> nat \<Rightarrow> u32 \<Rightarrow> frecov \<Rightarrow> (u32 \<times> frecov) res" where
  "recover_long_name_file can_open sha junk p remain_dir s =
    res_bind (at8 (fr_img s) p) (\<lambda>od.
      if od AND 0x40 = 0 then Inr (0, s)
      else
        let entry_cnt = ucast (od AND 0x0f) :: u32 in
        if remain_dir < (entry_cnt + 1) * 32 then Inr (remain_dir, s)
        else
          res_bind (get_long_fill_name (fr_img s) p (unat entry_cnt)) (\<lambda>block.
          res_bind (c_string block) (\<lambda>file_name.
          res_bind (dent_at (fr_img s) (p + 32 * unat entry_cnt)) (\<lambda>SFN.
          if 0x8000 \<le> DIR_FstClusHI SFN then Inl Undefined
          else
            let pic_clu_num = push_bit 16 (ucast (DIR_FstClusHI SFN)) OR ucast (DIR_FstClusLO SFN) :: u32 in
            res_bind (get_pic_sha_num_and_print can_open sha junk pic_clu_num file_name s) (\<lambda>(is_success, s1).
              Inr (if is_success then entry_cnt * 32 else 0, s1))))))"

text \<open>The loop over a directory; \<open>i\<close> is the offset in the cluster, and the fuel bounds the rounds.\<close>

fun dir_loop ::
  "nat \<Rightarrow> (u8 list \<Rightarrow> bool) \<Rightarrow> (u8 list \<Rightarrow> u8 list option) \<Rightarrow> (nat \<Rightarrow> u8) \<Rightarrow> nat \<Rightarrow> u32 \<Rightarrow> frecov \<Rightarrow> frecov res" where
  "dir_loop 0 can_open sha junk cluster i s = Inl Hang"
| "dir_loop (Suc fuel) can_open sha junk cluster i s =
    (let clu_size = of_nat (clu_bytes (fr_hdr s)) :: u32 in
     if \<not> i < clu_size then Inr s
     else
       let entry = cluster + unat i in
       res_bind (at8 (fr_img s) entry) (\<lambda>b.
         if b = 0 then Inr s
         else if b = 0xE5 then dir_loop fuel can_open sha junk cluster (i + 32) s
         else res_bind (at8 (fr_img s) (entry + 11)) (\<lambda>attr.
           if attr = 0x0F then
             res_bind (recover_long_name_file can_open sha junk entry (clu_size - i * 32) s) (\<lambda>(d, s1).
               dir_loop fuel can_open sha junk cluster (i + d + 32) s1)
           else
             res_bind (recover_short_name_file can_open sha junk entry s) (\<lambda>(d, s1).
               dir_loop fuel can_open sha junk cluster (i + d + 32) s1))))"

definition recover_the_dir ::
  "(u8 list \<Rightarrow> bool) \<Rightarrow> (u8 list \<Rightarrow> u8 list option) \<Rightarrow> (nat \<Rightarrow> u8) \<Rightarrow> nat \<Rightarrow> frecov \<Rightarrow> frecov res" where
  "recover_the_dir can_open sha junk cluster s =
    dir_loop (Suc (clu_bytes (fr_hdr s) div 32 + 1)) can_open sha junk cluster 0 s"

fun recovery ::
  "(u8 list \<Rightarrow> bool) \<Rightarrow> (u8 list \<Rightarrow> u8 list option) \<Rightarrow> (nat \<Rightarrow> u8) \<Rightarrow> u32 list \<Rightarrow> frecov \<Rightarrow> frecov res" where
  "recovery can_open sha junk [] s = Inr s"
| "recovery can_open sha junk (clu_num # is) s =
    res_bind (Cluster_to_Addr (fr_hdr s) clu_num) (\<lambda>cluster.
    res_bind (recover_the_dir can_open sha junk cluster s) (\<lambda>s1. recovery can_open sha junk is s1))"

section \<open>The program\<close>

text \<open>A file that is not an image ends the program with a message.\<close>

definition map_disk :: "image \<Rightarrow> fat32hdr res" where
  "map_disk img =
    res_bind (hdr_at img 0) (\<lambda>h.
      if Signature_word h \<noteq> 0xaa55 \<or> uint (BPB_TotSec32 h * ucast (BPB_BytsPerSec h)) \<noteq> int (length img)
      then Inl (Panic ''Not a FAT file image'') else Inr h)"

definition clusters :: "fat32hdr \<Rightarrow> u32 res" where
  "clusters h =
    (if BPB_BytsPerSec h = 0 \<or> BPB_SecPerClus h = 0 then Inl Undefined
     else
       let RootDirSectors = of_nat ((unat (BPB_RootEntCnt h) * 32 + (unat (BPB_BytsPerSec h) - 1)) div unat (BPB_BytsPerSec h)) :: u32;
           DataSec_cnt = BPB_TotSec32 h - (ucast (BPB_RsvdSecCnt h) + ucast (BPB_NumFATs h) * BPB_FATSz32 h + RootDirSectors)
       in Inr (DataSec_cnt div ucast (BPB_SecPerClus h)))"

definition frecov_main ::
  "(u8 list \<Rightarrow> bool) \<Rightarrow> (u8 list \<Rightarrow> u8 list option) \<Rightarrow> (nat \<Rightarrow> u8) \<Rightarrow> clu_type list \<Rightarrow> image \<Rightarrow> frecov res" where
  "frecov_main can_open sha junk table img =
    res_bind (map_disk img) (\<lambda>h.
    res_bind (clusters h) (\<lambda>clu_cnt.
    let s = initialize_dir_begin \<lparr>fr_img = img, fr_hdr = h, fr_dirs = [], fr_cnt = clu_cnt,
              fr_table = take (unat clu_cnt) table, fr_files = [], fr_out = []\<rparr> in
    res_bind (classify_the_cluster s) (\<lambda>s1. recovery can_open sha junk (fr_dirs s1) s1)))"

section \<open>Nothing loops for ever\<close>

definition ends :: "'a res \<Rightarrow> bool" where "ends r \<longleftrightarrow> r \<noteq> Inl Hang"

lemma ends_bind [intro!]: "ends m \<Longrightarrow> (\<And>x. m = Inr x \<Longrightarrow> ends (f x)) \<Longrightarrow> ends (res_bind m f)"
  by (cases m) (auto simp: ends_def)

lemma ends_simps [simp]: "ends (Inr x)" "ends (Inl Undefined)" "ends (Inl Assert)" "ends (Inl (Panic p))"
  by (simp_all add: ends_def)

lemma ends_at [simp]: "ends (at8 img p)" "ends (at16 img p)" "ends (at32 img p)" "ends (bytes_at img p n)"
  by (simp_all add: at8_def at16_def at32_def bytes_at_def)

lemma ends_words16 [simp]: "ends (words16 img p n)"
  by (induction n arbitrary: p) auto

lemma ends_structs [simp]:
  "ends (hdr_at img p)" "ends (dent_at img p)" "ends (lfn_at img p)" "ends (bmp_file_at img p)" "ends (bmp_info_at img p)"
  unfolding hdr_at_def dent_at_def lfn_at_def bmp_file_at_def bmp_info_at_def by (intro ends_bind; simp)+

lemma ends_c_string [simp]: "ends (c_string bs)"
  by (induction bs) auto

lemma ends_cluster [simp]: "ends (Cluster_to_Addr h n)"
  by (simp add: Cluster_to_Addr_def Let_def)

lemma ends_line_dev [simp]: "ends (line_dev img p buf q n dev)"
  by (induction n arbitrary: p q dev) (auto simp: Let_def)

lemma ends_try [simp]: "ends (try_cluster clu line pad buf pos s)"
  by (auto simp: try_cluster_def)

lemma ends_put [simp]: "ends (put_cluster clu pos buf s)" "ends (mark_taken clu s)"
  by (auto simp: put_cluster_def mark_taken_def)

lemma ends_first_fit [simp]: "ends (first_fit n j line pad buf pos s)"
  by (induction n arbitrary: j) auto

lemma ends_collect [simp]: "ends (collect_loop n line pad pos img_pos clu buf s)"
proof (induction n arbitrary: pos img_pos clu buf s)
  case (Suc n)
  then show ?case by (auto simp: Let_def split: option.splits)
qed simp

lemma ends_store [simp]: "ends (store_pic_in_tmp op start n f s)" "ends (build_file_name_with_tmp f)"
  by (auto simp: store_pic_in_tmp_def build_file_name_with_tmp_def)

lemma ends_picture [simp]: "ends (picture_data clu cluster n buf s)"
  unfolding picture_data_def by (intro ends_bind) (auto simp: Let_def)

lemma ends_get_pic [simp]: "ends (get_pic_sha_num_and_print op sha junk clu name s)"
  unfolding get_pic_sha_num_and_print_def Let_def
  by (auto split: prod.splits)

lemma ends_long_name [simp]: "ends (long_name_loop img p n)" "ends (get_long_fill_name img p n)"
proof -
  show "ends (long_name_loop img p n)" by (induction n) auto
  then show "ends (get_long_fill_name img p n)" by (auto simp: get_long_fill_name_def)
qed

lemma ends_short [simp]: "ends (recover_short_name_file op sha junk p s)"
  by (auto simp: recover_short_name_file_def Let_def split: prod.splits)

lemma ends_long [simp]: "ends (recover_long_name_file op sha junk p rest s)"
  by (auto simp: recover_long_name_file_def Let_def split: prod.splits)

text \<open>The header stays as it is, and a long name skips less than 512 bytes.\<close>

lemma collect_hdr: "collect_loop n line pad pos img_pos clu buf s = Inr (b, s') \<Longrightarrow> fr_hdr s' = fr_hdr s"
proof (induction n arbitrary: pos img_pos clu buf s)
  case (Suc n)
  have mark: "fr_hdr s1 = fr_hdr s" if "mark_taken c s = Inr s1" for c s1 using that by (auto simp: mark_taken_def split: if_splits)
  from Suc.prems show ?case
    by (auto simp: Let_def res_bind_eq_Inr split: if_splits option.splits dest!: Suc.IH mark)
qed simp

lemma picture_hdr: "picture_data clu cluster n buf s = Inr (d, s') \<Longrightarrow> fr_hdr s' = fr_hdr s"
  by (auto simp: picture_data_def res_bind_eq_Inr Let_def split: if_splits dest: collect_hdr)

lemma get_pic_hdr: "get_pic_sha_num_and_print op sha junk clu name s = Inr (b, s') \<Longrightarrow> fr_hdr s' = fr_hdr s"
  by (auto simp: get_pic_sha_num_and_print_def store_pic_in_tmp_def calculate_sha1sum_def res_bind_eq_Inr Let_def
      split: if_splits option.splits prod.splits dest!: picture_hdr)

lemma recover_short_hdr: "recover_short_name_file op sha junk p s = Inr (d, s') \<Longrightarrow> fr_hdr s' = fr_hdr s \<and> d = 0"
  by (auto simp: recover_short_name_file_def res_bind_eq_Inr Let_def split: prod.splits dest!: get_pic_hdr)

lemma recover_long_hdr:
  assumes "recover_long_name_file op sha junk p rest s = Inr (d, s')"
  shows "fr_hdr s' = fr_hdr s \<and> unat d < 512"
proof -
  have cnt: "unat (ucast (od AND 0x0f :: u8) :: u32) \<le> 15" for od :: u8
  proof -
    have "od AND 0x0f = od AND mask 4" by (simp add: mask_eq_exp_minus_1)
    moreover have "unat (od AND mask 4) < 16" by (simp add: unat_and_mask)
    ultimately show ?thesis by (simp add: unat_ucast_up)
  qed
  have skip: "unat ((ucast (od AND 0x0f :: u8) :: u32) * 32) < 512" for od :: u8
    using cnt [of od] by (simp add: unat_word_ariths)
  have whole: "unat (((ucast (od AND 0x0f :: u8) :: u32) + 1) * 32) \<le> 512" for od :: u8
    using cnt [of od] by (simp add: unat_word_ariths)
  show ?thesis using assms skip whole
    by (auto simp: recover_long_name_file_def res_bind_eq_Inr Let_def word_less_nat_alt split: if_splits prod.splits
        dest!: get_pic_hdr intro: less_le_trans)
qed

lemma clu_bytes_less: "clu_bytes h < 2 ^ 24"
proof -
  have a: "unat (BPB_BytsPerSec h) < 65536" and b: "unat (BPB_SecPerClus h) < 256"
    using unsigned_less [of "BPB_BytsPerSec h", where 'a = nat] unsigned_less [of "BPB_SecPerClus h", where 'a = nat] by simp_all
  have "clu_bytes h \<le> 65535 * 255" unfolding clu_bytes_def using a b by (intro mult_le_mono) simp_all
  then show ?thesis by simp
qed

lemma dir_loop_ends:
  assumes "(clu_bytes (fr_hdr s) + 31 - unat i) div 32 < fuel"
  shows "ends (dir_loop fuel op sha junk cluster i s)"
  using assms
proof (induction fuel arbitrary: i s)
  case (Suc fuel)
  let ?c = "clu_bytes (fr_hdr s)"
  have c: "unat (of_nat ?c :: u32) = ?c" using clu_bytes_less [of "fr_hdr s"] by (intro unat_of_nat_small) simp
  show ?case
  proof (cases "i < (of_nat ?c :: u32)")
    case True
    then have i: "unat i < ?c" using c by (simp add: word_less_nat_alt)
    have next_round: "ends (dir_loop fuel op sha junk cluster (i + d + 32) s1)"
      if "fr_hdr s1 = fr_hdr s" "unat d < 512" for d s1
    proof (rule Suc.IH)
      have "unat i + unat d < 2 ^ 32" "unat i + unat d + 32 < 2 ^ 32" using i that(2) clu_bytes_less [of "fr_hdr s"] by simp_all
      then have "unat (i + d + 32) = unat i + unat d + 32"
        using unat_add_nowrap [of i d] unat_add_nowrap [of "i + d" 32] by simp
      then have "?c + 31 - unat (i + d + 32) \<le> ?c + 31 - unat i - 32" by simp
      then have "(?c + 31 - unat (i + d + 32)) div 32 \<le> (?c + 31 - unat i - 32) div 32" by (rule div_le_mono)
      moreover have "(?c + 31 - unat i - 32) div 32 < (?c + 31 - unat i) div 32" using i by (simp add: div_eq_dividend_iff)
      ultimately show "(clu_bytes (fr_hdr s1) + 31 - unat (i + d + 32)) div 32 < fuel" using Suc.prems that(1) by simp
    qed
    have skip: "ends (dir_loop fuel op sha junk cluster (i + 32) s1)" if "fr_hdr s1 = fr_hdr s" for s1
      using next_round [OF that, of 0] by simp
    show ?thesis using True
      by (auto simp: Let_def next_round skip split: prod.splits dest!: recover_short_hdr recover_long_hdr)
  qed (simp add: Let_def)
qed simp

lemma recover_the_dir_ends [simp]: "ends (recover_the_dir op sha junk cluster s)"
  unfolding recover_the_dir_def by (rule dir_loop_ends) simp

lemma recovery_ends [simp]: "ends (recovery op sha junk cl s)"
  by (induction cl arbitrary: s) auto

lemma ends_judges [simp]: "ends (judge_if_bmp_hdr img p)" "ends (judge_if_unused h img p)" "ends (judge_if_dir h img p)"
proof -
  have "ends (all_zero16 img p n)" for p n by (induction n arbitrary: p) auto
  then show "ends (judge_if_unused h img p)" by (auto simp: judge_if_unused_def)
  have "ends (bmp_count img p n cnt)" for n cnt by (induction n arbitrary: p cnt) auto
  then show "ends (judge_if_dir h img p)" by (auto simp: judge_if_dir_def)
qed (auto simp: judge_if_bmp_hdr_def)

lemma ends_decide [simp]: "ends (decide_clu_type h img p)"
  by (auto simp: decide_clu_type_def)

lemma ends_classify [simp]: "ends (classify_the_cluster s)"
proof -
  have "ends (classify_loop n clu s)" for n clu by (induction n arbitrary: clu s) (auto simp: Let_def)
  then show ?thesis by (simp add: classify_the_cluster_def)
qed

text \<open>
  C36: the recovery of pictures ends for every image, whatever the entries of its directories say:
  the offset of the loop over a directory grows by at least an entry in every round, does not wrap
  around, and passes the end of the cluster.
\<close>

theorem frecov_terminates: "frecov_main op sha junk table img \<noteq> Inl Hang"
proof -
  have "ends (map_disk img)" by (auto simp: map_disk_def)
  moreover have "ends (clusters h)" for h by (simp add: clusters_def Let_def)
  ultimately have "ends (frecov_main op sha junk table img)" unfolding frecov_main_def Let_def by auto
  then show ?thesis by (simp add: ends_def)
qed

section \<open>Long names\<close>

text \<open>
  How a name is stored: the entries of 13 characters each follow each other from the last part of
  the name to the first; the other fields may hold anything.
\<close>

definition lfn_bytes :: "u8 \<Rightarrow> u8 list \<Rightarrow> u8 list \<Rightarrow> u8 list \<Rightarrow> u8 list" where
  "lfn_bytes od rest fc cs = od # concat (map (\<lambda>c. [c, 0]) (take 5 cs)) @ take 3 rest @
     concat (map (\<lambda>c. [c, 0]) (take 6 (drop 5 cs))) @ take 2 fc @ concat (map (\<lambda>c. [c, 0]) (drop 11 cs))"

lemma at16_char:
  "drop p img = c # 0 # xs \<Longrightarrow> at16 img p = Inr (ucast c)"
proof -
  assume d: "drop p img = c # 0 # xs"
  then have "length img - p = Suc (Suc (length xs))" by (metis length_Cons length_drop)
  then have l: "Suc p < length img" by simp
  have "img ! p = c" "img ! Suc p = 0"
    using nth_drop [of p img 0] nth_drop [of p img 1] l d by simp_all
  then show ?thesis using l by (simp add: at16_def)
qed

lemma words16_chars:
  "drop p img = concat (map (\<lambda>c. [c, 0]) cs) @ xs \<Longrightarrow> words16 img p (length cs) = Inr (map ucast cs)"
proof (induction cs arbitrary: p)
  case (Cons c cs)
  then have "at16 img p = Inr (ucast c)" by (intro at16_char) simp
  moreover have "drop (p + 2) img = drop 2 (drop p img)" by (simp add: add.commute)
  then have "drop (p + 2) img = concat (map (\<lambda>c. [c, 0]) cs) @ xs" using Cons.prems by simp
  ultimately show ?case using Cons.IH [of "p + 2"] by simp
qed simp

lemma length_chars [simp]: "length (concat (map (\<lambda>c. [c, 0 :: u8]) cs)) = 2 * length cs"
  by (induction cs) auto

lemma lfn_entry:
  assumes img: "drop p img = lfn_bytes od rest fc cs @ xs" and len: "length cs = 13" "length rest = 3" "length fc = 2"
  shows "\<exists>e. lfn_at img p = Inr e \<and> lfn_name1 e @ lfn_name2 e @ lfn_name3 e = map ucast cs" and "p + 32 \<le> length img"
proof -
  let ?w = "\<lambda>cs. concat (map (\<lambda>c. [c, 0 :: u8]) cs)"
  have split: "drop p img = [od] @ ?w (take 5 cs) @ rest @ ?w (take 6 (drop 5 cs)) @ fc @ ?w (drop 11 cs) @ xs"
    using img len by (simp add: lfn_bytes_def)
  have l: "length (drop p img) = 32 + length xs" unfolding split using len by simp
  then show size: "p + 32 \<le> length img" by simp
  have sub: "drop (p + k) img = drop k (drop p img)" for k by (simp add: add.commute)
  have d1: "drop (p + 1) img = ?w (take 5 cs) @ rest @ ?w (take 6 (drop 5 cs)) @ fc @ ?w (drop 11 cs) @ xs"
    unfolding sub split by simp
  have d2: "drop (p + 14) img = ?w (take 6 (drop 5 cs)) @ fc @ ?w (drop 11 cs) @ xs"
    unfolding sub split using len by simp
  have d3: "drop (p + 28) img = ?w (drop 11 cs) @ xs" unfolding sub split using len by simp
  have w: "words16 img (p + 1) 5 = Inr (map ucast (take 5 cs))" "words16 img (p + 14) 6 = Inr (map ucast (take 6 (drop 5 cs)))"
    "words16 img (p + 28) 2 = Inr (map ucast (drop 11 cs))"
    using words16_chars [OF d1] words16_chars [OF d2] words16_chars [OF d3] len by simp_all
  have r: "\<exists>x. at8 img (p + k) = Inr x" "\<exists>x. at16 img (p + 26) = Inr x" if "k < 32" for k
    using size that by (simp_all add: at8_def at16_def)
  obtain a b c d e where f: "at8 img p = Inr a" "at8 img (p + 11) = Inr b" "at8 img (p + 12) = Inr c" "at8 img (p + 13) = Inr d"
    "at16 img (p + 26) = Inr e"
    using r(1) [of 0] r(1) [of 11] r(1) [of 12] r(1) [of 13] r(2) [of 0] by auto
  have "drop 11 cs = drop 6 (drop 5 cs)" by simp
  then have "cs = take 5 cs @ take 6 (drop 5 cs) @ drop 11 cs" by (simp only: append_take_drop_id)
  then have "map ucast (take 5 cs) @ map ucast (take 6 (drop 5 cs)) @ map ucast (drop 11 cs) = map ucast cs"
    by (simp only: flip: map_append)
  then show "\<exists>e. lfn_at img p = Inr e \<and> lfn_name1 e @ lfn_name2 e @ lfn_name3 e = map ucast cs"
    using w f by (simp add: lfn_at_def)
qed

text \<open>The entries of a long name, the last part of the name first.\<close>

fun lfn_region :: "(u8 \<times> u8 list \<times> u8 list \<times> u8 list) list \<Rightarrow> u8 list" where
  "lfn_region [] = []"
| "lfn_region ((od, rest, fc, cs) # es) = lfn_bytes od rest fc cs @ lfn_region es"

definition lfn_shape :: "(u8 \<times> u8 list \<times> u8 list \<times> u8 list) list \<Rightarrow> bool" where
  "lfn_shape es \<longleftrightarrow> (\<forall>(od, rest, fc, cs)\<in>set es. length rest = 3 \<and> length fc = 2 \<and> length cs = 13)"

lemma length_lfn_bytes: "length cs = 13 \<Longrightarrow> length rest = 3 \<Longrightarrow> length fc = 2 \<Longrightarrow> length (lfn_bytes od rest fc cs) = 32"
  by (simp add: lfn_bytes_def)

lemma lfn_region_append: "lfn_region (xs @ ys) = lfn_region xs @ lfn_region ys"
  by (induction xs rule: lfn_region.induct) auto

lemma length_lfn_region: "lfn_shape es \<Longrightarrow> length (lfn_region es) = 32 * length es"
  by (induction es rule: lfn_region.induct) (auto simp: lfn_shape_def length_lfn_bytes)

lemma long_name_parts:
  "lfn_shape es \<Longrightarrow> drop p img = lfn_region es @ xs \<Longrightarrow>
   long_name_loop img p (length es) = Inr (concat (map (\<lambda>(od, rest, fc, cs). cs) (rev es)))"
proof (induction es arbitrary: xs rule: rev_induct)
  case (snoc x es)
  obtain od rest fc cs where x: "x = (od, rest, fc, cs)" by (cases x) auto
  have shape: "lfn_shape es" and len: "length cs = 13" "length rest = 3" "length fc = 2"
    using snoc.prems(1) by (auto simp: lfn_shape_def x)
  have img: "drop p img = lfn_region es @ lfn_bytes od rest fc cs @ xs" using snoc.prems(2) by (simp add: lfn_region_append x)
  have "drop (p + 32 * length es) img = drop (32 * length es) (drop p img)" by (simp add: add.commute)
  then have "drop (p + 32 * length es) img = lfn_bytes od rest fc cs @ xs"
    using img length_lfn_region [OF shape] by simp
  then obtain e where e: "lfn_at img (p + 32 * length es) = Inr e" "lfn_name1 e @ lfn_name2 e @ lfn_name3 e = map ucast cs"
    using lfn_entry(1) [OF _ len] by blast
  have "map ucast (lfn_name1 e @ lfn_name2 e @ lfn_name3 e) = cs"
  proof -
    have "ucast (ucast c :: u16) = c" for c :: u8 by (rule bit_word_eqI) (simp add: bit_simps)
    then show ?thesis unfolding e(2) by (simp add: o_def)
  qed
  then show ?case using e(1) snoc.IH [OF shape img] by (simp add: x)
qed simp

text \<open>
  C37: a long name comes back as it was stored: from the entries of a name, the last part first,
  \<open>get_long_fill_name\<close> puts the parts together in the order of the name, whatever the other fields
  of the entries hold, and the name the program uses is what stands before the first 0.
\<close>

theorem long_name_roundtrip:
  assumes "lfn_shape es" and "drop p img = lfn_region es @ xs"
  shows "\<exists>block. get_long_fill_name img p (length es) = Inr block \<and>
     c_string block = Inr (takeWhile (\<lambda>c. c \<noteq> 0) (concat (map (\<lambda>(od, rest, fc, cs). cs) (rev es))))"
proof -
  have "c_string (cs @ [0]) = Inr (takeWhile (\<lambda>c. c \<noteq> 0) cs)" for cs by (induction cs) auto
  then show ?thesis using long_name_parts [OF assms] by (simp add: get_long_fill_name_def)
qed

theorem long_name_roundtrip_witness:
  "\<exists>block. get_long_fill_name ([1, 2] @ lfn_bytes 0x42 [0x0F, 0, 7] [0, 0] [46, 98, 109, 112, 0, 255, 255, 255, 255, 255, 255, 255, 255] @
      lfn_bytes 1 [0x0F, 0, 7] [0, 0] [104, 111, 108, 105, 100, 97, 121, 45, 112, 104, 111, 116, 111]) 2 (Suc (Suc 0)) = Inr block \<and>
     c_string block = Inr [104, 111, 108, 105, 100, 97, 121, 45, 112, 104, 111, 116, 111, 46, 98, 109, 112]"
  using long_name_roundtrip [of "[(0x42, [0x0F, 0, 7], [0, 0], [46, 98, 109, 112, 0, 255, 255, 255, 255, 255, 255, 255, 255]),
      (1, [0x0F, 0, 7], [0, 0], [104, 111, 108, 105, 100, 97, 121, 45, 112, 104, 111, 116, 111])]" 2
    "[1, 2] @ lfn_bytes 0x42 [0x0F, 0, 7] [0, 0] [46, 98, 109, 112, 0, 255, 255, 255, 255, 255, 255, 255, 255] @
      lfn_bytes 1 [0x0F, 0, 7] [0, 0] [104, 111, 108, 105, 100, 97, 121, 45, 112, 104, 111, 116, 111]" "[]"]
  by (simp add: lfn_shape_def)

end
