(* ===== verification/Fatree.thy ===== *)
theory Fatree
  imports Frecov
begin

text \<open>
  The tree of a FAT32 image (\<open>fatree.c\<close>). The structures of the image are the ones of
  \<open>Frecov\<close>, which the file repeats. The output is a list of bytes.
\<close>

section \<open>Clusters and names\<close>

definition CLUS_INVALID :: u32 where "CLUS_INVALID = 0xffffff7"
definition ATTR_HIDDEN :: u8 where "ATTR_HIDDEN = 0x02"
definition ATTR_DIRECTORY :: u8 where "ATTR_DIRECTORY = 0x10"

text \<open>The product of the two 16-bit numbers is an \<open>int\<close>.\<close>

definition next_cluster :: "fat32hdr \<Rightarrow> image \<Rightarrow> u32 \<Rightarrow> u32 res" where
  "next_cluster h img n =
    (let fat = unat (BPB_RsvdSecCnt h) * unat (BPB_BytsPerSec h)
     in if 2 ^ 31 \<le> fat then Inl Undefined else at32 img (fat + 4 * unat n))"

text \<open>The offset of a cluster: the second summand is an \<open>int\<close>, the rest wraps in 32 bits.\<close>

definition cluster_to_sec :: "fat32hdr \<Rightarrow> u32 \<Rightarrow> nat res" where
  "cluster_to_sec h n =
    (let DataSec = ucast (BPB_RsvdSecCnt h) + ucast (BPB_NumFATs h) * BPB_FATSz32 h :: u32;
         more_sec = (uint n - 2) * uint (BPB_SecPerClus h)
     in if more_sec < - (2 ^ 31) \<or> 2 ^ 31 \<le> more_sec then Inl Undefined
        else Inr (unat ((DataSec + of_int more_sec) * ucast (BPB_BytsPerSec h))))"

text \<open>The loop over the name: no blanks, and a dot before the first character of the extension.\<close>

fun filename_loop :: "nat \<Rightarrow> u8 list \<Rightarrow> u8 list" where
  "filename_loop i [] = []"
| "filename_loop i (c # cs) =
    (if c \<noteq> 0x20 then (if i = 8 then [0x2E] else []) @ [c] else []) @ filename_loop (Suc i) cs"

definition get_filename :: "fat32dent \<Rightarrow> u8 list" where
  "get_filename dent = filename_loop 0 (DIR_Name dent) @ [0]"

section \<open>Output\<close>

definition pad_right :: "nat \<Rightarrow> u8 list \<Rightarrow> u8 list" where
  "pad_right n cs = cs @ replicate (n - length cs) 0x20"

definition pad_left :: "nat \<Rightarrow> u8 list \<Rightarrow> u8 list" where
  "pad_left n cs = replicate (n - length cs) 0x20 @ cs"

text \<open>\<open>%6.1lf\<close> of a size over 1024.0, which is exact: rounded to tenths, half to even.\<close>

definition tenths :: "nat \<Rightarrow> nat" where
  "tenths n = (let q = 10 * n div 1024; r = 10 * n mod 1024 in
     if 2 * r < 1024 then q else if 2 * r > 1024 then q + 1 else if even q then q else q + 1)"

definition kib :: "u32 \<Rightarrow> u8 list" where
  "kib bytes = (let t = tenths (unat bytes) in pad_left 6 (text_of (decimal (t div 10) @ ''.'' @ decimal (t mod 10))))"

section \<open>The traversal\<close>

text \<open>The entries of the cluster from \<open>d\<close> on, of which \<open>n\<close> are left; \<open>sub\<close> is the recursive call.\<close>

fun dents_loop :: "(u32 \<Rightarrow> bool \<Rightarrow> u8 list res) \<Rightarrow> fat32hdr \<Rightarrow> image \<Rightarrow> u32 \<Rightarrow> nat \<Rightarrow> nat \<Rightarrow> nat \<Rightarrow> u8 list res" where
  "dents_loop sub h img clusId depth d 0 = Inr []"
| "dents_loop sub h img clusId depth d (Suc n) =
    res_bind (cluster_to_sec h clusId) (\<lambda>sec.
    res_bind (dent_at img (sec + 32 * d)) (\<lambda>dent.
    res_bind
      (if hd (DIR_Name dent) = 0 \<or> hd (DIR_Name dent) = 0xE5 \<or> DIR_Attr dent AND ATTR_HIDDEN \<noteq> 0 then Inr []
       else
         res_bind (c_string (get_filename dent)) (\<lambda>fname.
         let line = replicate (4 * depth) 0x20 @ text_of ''['' @ pad_right 12 fname @ text_of ''] '' @
               kib (DIR_FileSize dent) @ text_of '' KiB    '' in
         if 0x8000 \<le> DIR_FstClusHI dent then Inl Undefined
         else
           let dataClus = ucast (DIR_FstClusLO dent) OR push_bit 16 (ucast (DIR_FstClusHI dent)) :: u32 in
           if DIR_Attr dent AND ATTR_DIRECTORY \<noteq> 0 then
             if hd (DIR_Name dent) \<noteq> 0x2E then res_bind (sub dataClus True) (\<lambda>t. Inr (line @ [0x0A] @ t)) else Inr (line @ [0x0A])
           else res_bind (sub dataClus False) (\<lambda>t. Inr (line @ t @ [0x0A])))) (\<lambda>out.
    res_bind (dents_loop sub h img clusId depth (Suc d) n) (\<lambda>rest. Inr (out @ rest)))))"

definition cluster_text :: "u32 \<Rightarrow> u8 list" where
  "cluster_text clusId = text_of (''#'' @ decimal (unat clusId) @ '' '')"

text \<open>The fuel bounds the clusters of a chain and the depth of the calls together.\<close>

fun dfs :: "nat \<Rightarrow> fat32hdr \<Rightarrow> image \<Rightarrow> u32 \<Rightarrow> nat \<Rightarrow> bool \<Rightarrow> u8 list res" where
  "dfs 0 h img clusId depth is_dir = Inl Hang"
| "dfs (Suc fuel) h img clusId depth is_dir =
    (if \<not> clusId < CLUS_INVALID then Inr []
     else
       res_bind
         (if is_dir then
            dents_loop (\<lambda>c dir. dfs fuel h img c (Suc depth) dir) h img clusId depth 0 (clu_bytes h div 32)
          else Inr (cluster_text clusId)) (\<lambda>out.
       res_bind (next_cluster h img clusId) (\<lambda>nxt.
       res_bind (dfs fuel h img nxt depth is_dir) (\<lambda>rest. Inr (out @ rest)))))"

section \<open>The program\<close>

text \<open>\<open>%d\<close> of a 32-bit number, which is read as an \<open>int\<close>, and \<open>%x\<close>.\<close>

definition int_text :: "u32 \<Rightarrow> string" where
  "int_text w = (if sint w < 0 then ''-'' @ decimal (nat (- sint w)) else decimal (unat w))"

fun hex_text :: "nat \<Rightarrow> nat \<Rightarrow> string" where
  "hex_text 0 v = []"
| "hex_text (Suc n) v =
    (let c = ''0123456789abcdef'' ! (v mod 16) in if v < 16 then [c] else hex_text n (v div 16) @ [c])"

text \<open>The name of the maker is printed up to the first 0, wherever in the image that is.\<close>

definition fatree_map_disk :: "u8 list \<Rightarrow> image \<Rightarrow> (fat32hdr \<times> u8 list) res" where
  "fatree_map_disk fname img =
    res_bind (hdr_at img 0) (\<lambda>h.
      if Signature_word h \<noteq> 0xaa55 then Inl Assert
      else if uint (BPB_TotSec32 h * ucast (BPB_BytsPerSec h)) \<noteq> int (length img) then Inl Assert
      else res_bind (c_string (drop 3 img)) (\<lambda>oem.
        Inr (h, fname @ text_of '': DOS/MBR boot sector, '' @ text_of ''OEM-ID '' @ [0x22] @ oem @ [0x22] @ text_of '', '' @
          text_of (''sectors/cluster '' @ decimal (unat (BPB_SecPerClus h)) @ '', '') @
          text_of (''sectors '' @ int_text (BPB_TotSec32 h) @ '', '') @
          text_of (''sectors '' @ int_text (BPB_TotSec32 h) @ '', '') @
          text_of (''sectors/FAT '' @ int_text (BPB_FATSz32 h) @ '', '') @
          text_of (''serial number 0x'' @ hex_text 8 (unat (BS_VolID h))) @ [0x0A])))"

definition fatree_main :: "nat \<Rightarrow> u8 list \<Rightarrow> image \<Rightarrow> u8 list res" where
  "fatree_main fuel fname img =
    res_bind (fatree_map_disk fname img) (\<lambda>(h, head).
    res_bind (dfs fuel h img (BPB_RootClus h) 0 True) (\<lambda>tree. Inr (head @ tree)))"

section \<open>Where the clusters lie\<close>

text \<open>The numbers of the header, and the condition that nothing wraps for the cluster \<open>n\<close>.\<close>

definition spc :: "fat32hdr \<Rightarrow> nat" where "spc h = unat (BPB_SecPerClus h)"
definition byts :: "fat32hdr \<Rightarrow> nat" where "byts h = unat (BPB_BytsPerSec h)"
definition rsvd :: "fat32hdr \<Rightarrow> nat" where "rsvd h = unat (BPB_RsvdSecCnt h)"
definition fat_sectors :: "fat32hdr \<Rightarrow> nat" where "fat_sectors h = unat (BPB_NumFATs h) * unat (BPB_FATSz32 h)"

definition fits :: "fat32hdr \<Rightarrow> u32 \<Rightarrow> bool" where
  "fits h n \<longleftrightarrow> 2 \<le> unat n \<and> 0 < spc h \<and> 0 < byts h \<and> unat (n - 2) * spc h < 2 ^ 31 \<and> (rsvd h + spc h) * byts h < 2 ^ 31 \<and>
     (rsvd h + fat_sectors h + spc h + unat (n - 2) * spc h) * byts h < 2 ^ 32"

lemma of_nat_unat: "of_nat (unat (x :: u32)) = x"
  by simp

lemma unat_of_lt: "k < 2 ^ 32 \<Longrightarrow> unat (of_nat k :: u32) = k"
  by (simp add: unat_of_nat take_bit_eq_mod)

lemma le_of_mult: "(0::nat) < b \<Longrightarrow> a \<le> c \<Longrightarrow> c * b < m \<Longrightarrow> a < m"
  by (metis le_less_trans less_le_trans mult.right_neutral mult_le_mono not_less One_nat_def Suc_leI)

lemma header_words:
  "(ucast (BPB_SecPerClus h) :: u32) = of_nat (spc h)" "(ucast (BPB_BytsPerSec h) :: u32) = of_nat (byts h)"
  "(ucast (BPB_RsvdSecCnt h) :: u32) = of_nat (rsvd h)" "ucast (BPB_NumFATs h) * BPB_FATSz32 h = of_nat (fat_sectors h)"
  by (simp_all add: spc_def byts_def rsvd_def fat_sectors_def)

lemma cluster_to_sec_value:
  assumes "fits h n"
  shows "cluster_to_sec h n = Inr ((rsvd h + fat_sectors h + unat (n - 2) * spc h) * byts h)"
proof -
  let ?k = "unat (n - 2) * spc h"
  have f: "2 \<le> unat n" "?k < 2 ^ 31" "(rsvd h + fat_sectors h + spc h + ?k) * byts h < 2 ^ 32" using assms by (simp_all add: fits_def)
  have two: "unat (2 :: u32) = 2" by simp
  then have "2 \<le> n" using f(1) by (simp add: word_le_nat_alt)
  then have "unat (n - 2) = unat n - 2" using unat_sub [of 2 n] two by simp
  then have "int (unat (n - 2)) = int (unat n) - 2" using f(1) by linarith
  then have "int (unat (n - 2)) = uint n - 2" by (simp only: uint_nat [of n])
  moreover have "uint (BPB_SecPerClus h) = int (spc h)" by (simp add: spc_def)
  ultimately have more: "(uint n - 2) * uint (BPB_SecPerClus h) = int ?k" by simp
  have "(rsvd h + fat_sectors h + ?k) * byts h \<le> (rsvd h + fat_sectors h + spc h + ?k) * byts h" by (intro mult_le_mono1) simp
  then have lt: "(rsvd h + fat_sectors h + ?k) * byts h < 2 ^ 32" using f(3) by (rule le_less_trans)
  have "int ?k < 2 ^ 31" using f(2) by (metis of_nat_less_iff of_nat_numeral of_nat_power)
  then show ?thesis
    using unat_of_lt [OF lt]
    by (simp add: cluster_to_sec_def Let_def header_words more del: of_nat_mult)
      (simp add: algebra_simps)
qed

definition whole :: "nat \<Rightarrow> nat \<Rightarrow> nat" where "whole a b = (a + (b - 1)) div b * b"

lemma whole_bounds: "0 < b \<Longrightarrow> a \<le> whole a b \<and> whole a b \<le> a + (b - 1)"
proof -
  assume b: "0 < b"
  have "(a + (b - 1)) div b * b + (a + (b - 1)) mod b = a + (b - 1)" by simp
  moreover have "(a + (b - 1)) mod b < b" using b by simp
  ultimately show ?thesis unfolding whole_def using b by linarith
qed

lemma whole_eq: "0 < b \<Longrightarrow> whole a b = a \<longleftrightarrow> b dvd a"
proof
  assume b: "0 < b" and "b dvd a"
  then obtain k where k: "a = k * b" by (metis dvd_def mult.commute)
  have "(b - 1 + k * b) div b = k + (b - 1) div b" using b by (intro div_mult_self1) simp
  then have "(k * b + (b - 1)) div b = k" using b by (simp add: add.commute)
  then show "whole a b = a" by (simp add: whole_def k)
qed (metis dvd_triv_right whole_def)

lemma Cluster_to_Addr_value:
  assumes "fits h n"
  shows "Cluster_to_Addr h n = Inr ((whole (rsvd h) (spc h) + whole (fat_sectors h) (spc h) + unat (n - 2) * spc h) * byts h)"
proof -
  let ?k = "unat (n - 2) * spc h" and ?F = "fat_sectors h"
  have s: "0 < spc h" and b: "0 < byts h" and r31: "(rsvd h + spc h) * byts h < 2 ^ 31"
    and all: "(rsvd h + ?F + spc h + ?k) * byts h < 2 ^ 32"
    using assms by (simp_all add: fits_def)
  have lt: "c * byts h < 2 ^ 32" if "c \<le> rsvd h + ?F + spc h + ?k" for c using mult_le_mono1 [OF that] all by (rule le_less_trans)
  have small: "c < 2 ^ 32" if "c \<le> rsvd h + ?F + spc h + ?k" for c by (rule le_of_mult [OF b that all])
  have "spc h = Suc (spc h - 1)" using s by simp
  then have "(of_nat (spc h) :: u32) - 1 = of_nat (spc h - 1)" by (metis add_diff_cancel_left' of_nat_Suc)
  then have sum: "of_nat ?F + ((of_nat (spc h) :: u32) - 1) = of_nat (?F + (spc h - 1))" by simp
  have u: "unat (of_nat (?F + (spc h - 1)) :: u32) = ?F + (spc h - 1)" "unat (of_nat (spc h) :: u32) = spc h"
    by (rule unat_of_lt, rule small, simp)+
  have div: "(of_nat (?F + (spc h - 1)) :: u32) div of_nat (spc h) = of_nat ((?F + (spc h - 1)) div spc h)"
    using u by (metis of_nat_unat unat_div)
  have wF: "whole ?F (spc h) \<le> ?F + spc h" "whole (rsvd h) (spc h) \<le> rsvd h + spc h" 
    using whole_bounds [OF s, of ?F] whole_bounds [OF s, of "rsvd h"] by linarith+
  have "((of_nat ?F + ((of_nat (spc h) :: u32) - 1)) div of_nat (spc h)) * of_nat (spc h) * of_nat (byts h) = of_nat (whole ?F (spc h) * byts h)"
    unfolding sum div by (simp add: whole_def)
  then have fats: "unat (((of_nat ?F + ((of_nat (spc h) :: u32) - 1)) div of_nat (spc h)) * of_nat (spc h) * of_nat (byts h)) = whole ?F (spc h) * byts h"
    using unat_of_lt [OF lt, of "whole ?F (spc h)"] wF by simp
  have "(n - 2) * of_nat (spc h) * of_nat (byts h) = (of_nat (?k * byts h) :: u32)" by simp
  then have rest: "unat ((n - 2) * of_nat (spc h) * of_nat (byts h)) = ?k * byts h" using unat_of_lt [OF lt, of ?k] by simp
  have "whole (rsvd h) (spc h) * byts h \<le> (rsvd h + spc h) * byts h" using wF by (intro mult_le_mono1) simp
  then have first: "\<not> 2 ^ 31 \<le> whole (rsvd h) (spc h) * byts h" using r31 by linarith
  show ?thesis
    unfolding Cluster_to_Addr_def Let_def header_words spc_def [symmetric] byts_def [symmetric] rsvd_def [symmetric] fats rest
      whole_def [symmetric]
    using s first by (simp add: distrib_right)
qed

text \<open>
  C35: the two programs that read FAT images agree on where a cluster lies exactly when the sectors
  before the data fill whole clusters. As long as nothing wraps, the recovery places a cluster where the
  traversal of the tree does if the reserved sectors and the sectors of the tables are each a multiple of the
  sectors of a cluster, and otherwise behind it.
\<close>

theorem cluster_addresses_agree:
  assumes "fits h n"
  shows "\<exists>p q. Cluster_to_Addr h n = Inr p \<and> cluster_to_sec h n = Inr q \<and> q \<le> p \<and>
    (p = q \<longleftrightarrow> spc h dvd rsvd h \<and> spc h dvd fat_sectors h)"
proof -
  have s: "0 < spc h" and b: "0 < byts h" using assms by (simp_all add: fits_def)
  let ?k = "unat (n - 2) * spc h"
  let ?p = "whole (rsvd h) (spc h) + whole (fat_sectors h) (spc h) + ?k" and ?q = "rsvd h + fat_sectors h + ?k"
  have w: "rsvd h \<le> whole (rsvd h) (spc h)" "fat_sectors h \<le> whole (fat_sectors h) (spc h)" using whole_bounds [OF s] by simp_all
  have "?p = ?q \<longleftrightarrow> whole (rsvd h) (spc h) = rsvd h \<and> whole (fat_sectors h) (spc h) = fat_sectors h" using w by linarith
  then have "?p * byts h = ?q * byts h \<longleftrightarrow> spc h dvd rsvd h \<and> spc h dvd fat_sectors h" using b by (simp add: whole_eq [OF s])
  moreover have "?q * byts h \<le> ?p * byts h" using w by (intro mult_le_mono1) linarith
  ultimately show ?thesis using Cluster_to_Addr_value [OF assms] cluster_to_sec_value [OF assms] by blast
qed

definition example_hdr :: fat32hdr where
  "example_hdr = \<lparr>BS_jmpBoot = [], BS_OEMName = [], BPB_BytsPerSec = 512, BPB_SecPerClus = 8, BPB_RsvdSecCnt = 32,
     BPB_NumFATs = 2, BPB_RootEntCnt = 0, BPB_TotSec16 = 0, BPB_Media = 0xF8, BPB_FATSz16 = 0, BPB_SecPerTrk = 32,
     BPB_NumHeads = 8, BPB_HiddSec = 0, BPB_TotSec32 = 131072, BPB_FATSz32 = 126, BPB_ExtFlags = 0, BPB_FSVer = 0,
     BPB_RootClus = 2, BPB_FSInfo = 1, BPB_BkBootSec = 6, BPB_Reserved = [], BS_DrvNum = 0x80, BS_Reserved1 = 0,
     BS_BootSig = 0x29, BS_VolID = 1, BS_VolLab = [], BS_FilSysType = [], padding_1 = [], Signature_word = 0xaa55\<rparr>"

text \<open>An image of 64 MiB with 32 reserved sectors and two tables of 126: 252 sectors are no whole number of clusters.\<close>

theorem cluster_addresses_agree_witness:
  "\<exists>p q. Cluster_to_Addr example_hdr 5 = Inr p \<and> cluster_to_sec example_hdr 5 = Inr q \<and> q < p"
  using cluster_addresses_agree [of example_hdr 5]
  by (auto simp: fits_def spc_def byts_def rsvd_def fat_sectors_def example_hdr_def)

section \<open>Chains\<close>

fun chain :: "fat32hdr \<Rightarrow> image \<Rightarrow> u32 list \<Rightarrow> u32 \<Rightarrow> bool" where
  "chain h img [] c \<longleftrightarrow> \<not> c < CLUS_INVALID"
| "chain h img (x # xs) c \<longleftrightarrow> c = x \<and> c < CLUS_INVALID \<and> (\<exists>d. next_cluster h img c = Inr d \<and> chain h img xs d)"

text \<open>
  The traversal of a file prints the numbers of its clusters in the order of its chain and ends, for any
  fuel above the length of the chain.
\<close>

theorem dfs_prints_chain:
  assumes "chain h img cs c" and "length cs < fuel"
  shows "dfs fuel h img c depth False = Inr (concat (map cluster_text cs))"
  using assms
proof (induction cs arbitrary: c fuel)
  case Nil
  then show ?case by (cases fuel) auto
next
  case (Cons x xs)
  then obtain f d where f: "fuel = Suc f" "length xs < f" "next_cluster h img c = Inr d" "chain h img xs d" "c = x" "c < CLUS_INVALID"
    by (cases fuel) auto
  then show ?case using Cons.IH [OF f(4,2)] by simp
qed

definition example_fat :: image where
  "example_fat = replicate 8 0 @ [3, 0, 0, 0] @ [0xFF, 0xFF, 0xFF, 0x0F]"

theorem dfs_prints_chain_witness:
  "dfs 3 (example_hdr\<lparr>BPB_RsvdSecCnt := 0\<rparr>) example_fat 2 0 False = Inr (text_of ''#2 #3 '')"
proof -
  let ?h = "example_hdr\<lparr>BPB_RsvdSecCnt := 0\<rparr>"
  have n: "next_cluster ?h example_fat 2 = Inr 3" "next_cluster ?h example_fat 3 = Inr 0x0FFFFFFF"
    by (simp_all add: next_cluster_def at32_def example_fat_def example_hdr_def) code_simp+
  then have "chain ?h example_fat [2, 3] 2" by (simp add: CLUS_INVALID_def)
  then have "dfs 3 ?h example_fat 2 0 False = Inr (concat (map cluster_text [2, 3]))" by (rule dfs_prints_chain) simp
  moreover have "concat (map cluster_text [2, 3]) = text_of ''#2 #3 ''" by code_simp
  ultimately show ?thesis by simp
qed

text \<open>On a chain that comes back to one of its clusters the traversal never ends.\<close>

lemma dfs_cycle_hangs:
  assumes "\<forall>c\<in>S. c < CLUS_INVALID \<and> (\<exists>d\<in>S. next_cluster h img c = Inr d)" and "c \<in> S"
  shows "dfs fuel h img c depth False = Inl Hang"
  using assms(2)
proof (induction fuel arbitrary: c)
  case (Suc f)
  then obtain d where "d \<in> S" "next_cluster h img c = Inr d" "c < CLUS_INVALID" using assms(1) by blast
  then show ?case using Suc.IH by simp
qed simp

end
