(* ===== verification/Plcs.thy ===== *)
theory Plcs
  imports JYY_Prelude
begin

text \<open>
  The longest common subsequence, serial and parallel (\<open>plcs/plcs.c\<close>). The static arrays are
  functions of their indices, 0 at first; the serial table is indexed by row and column, the one of
  the parallel workers by diagonal (\<open>round\<close>) and row. Workers are numbered from 1 to \<open>T\<close>.
\<close>

definition MAXN :: nat where "MAXN = 10000"
definition MAX_THREAD :: nat where "MAX_THREAD = 20"

type_synonym table = "nat \<Rightarrow> nat \<Rightarrow> int"

definition DP :: "table \<Rightarrow> int \<Rightarrow> int \<Rightarrow> int" where
  "DP dp x y = (if x \<ge> 0 \<and> y \<ge> 0 then dp (nat x) (nat y) else 0)"

definition MAX3 :: "int \<Rightarrow> int \<Rightarrow> int \<Rightarrow> int" where
  "MAX3 x y z = (let m = (if x > y then x else y) in if m > z then m else z)"

definition eq_char :: "string \<Rightarrow> string \<Rightarrow> nat \<Rightarrow> nat \<Rightarrow> int" where
  "eq_char A B i j = (if A ! i = B ! j then 1 else 0)"

section \<open>The serial worker\<close>

definition set_cell :: "nat \<Rightarrow> nat \<Rightarrow> int \<Rightarrow> table \<Rightarrow> table" where
  "set_cell i j v dp = dp(i := (dp i)(j := v))"

fun serial_row :: "string \<Rightarrow> string \<Rightarrow> nat \<Rightarrow> nat \<Rightarrow> nat \<Rightarrow> table \<Rightarrow> table" where
  "serial_row A B i 0 j dp = dp"
| "serial_row A B i (Suc n) j dp =
    (let skip_a = DP dp (int i - 1) (int j);
         skip_b = DP dp (int i) (int j - 1);
         take_both = DP dp (int i - 1) (int j - 1) + eq_char A B i j
     in serial_row A B i n (Suc j) (set_cell i j (MAX3 skip_a skip_b take_both) dp))"

fun serial_rows :: "string \<Rightarrow> string \<Rightarrow> nat \<Rightarrow> nat \<Rightarrow> table \<Rightarrow> table" where
  "serial_rows A B 0 i dp = dp"
| "serial_rows A B (Suc n) i dp = serial_rows A B n (Suc i) (serial_row A B i (length B) 0 dp)"

text \<open>Only one worker is active; the others leave the table as it is.\<close>

definition Tworker :: "nat \<Rightarrow> string \<Rightarrow> string \<Rightarrow> table \<Rightarrow> table" where
  "Tworker w A B dp = (if w \<noteq> 1 then dp else serial_rows A B (length A) 0 dp)"

section \<open>The partition of the diagonals\<close>

text \<open>The part of a worker: its first column, its first row and its last row.\<close>

type_synonym todo = "nat \<Rightarrow> nat \<Rightarrow> int \<times> int \<times> int"

fun assign_parts :: "nat \<Rightarrow> nat \<Rightarrow> nat \<Rightarrow> int \<Rightarrow> int \<Rightarrow> int \<Rightarrow> int \<Rightarrow> int \<Rightarrow> todo \<Rightarrow> todo" where
  "assign_parts 0 i rnd start_col start_row block_size remain_part diagonal_end_row l = l"
| "assign_parts (Suc n) i rnd start_col start_row block_size remain_part diagonal_end_row l =
    (let thread_block_size = (if remain_part > 0 then block_size + 1 else block_size);
         remain1 = (if remain_part > 0 then remain_part - 1 else remain_part);
         end_row0 = start_row + thread_block_size - 1;
         end_row = (if end_row0 > diagonal_end_row then diagonal_end_row else end_row0);
         l1 = l(rnd := (l rnd)(i := (start_col, start_row, end_row)))
     in assign_parts n (Suc i) rnd (start_col - (end_row - start_row) - 1) (end_row + 1) block_size remain1 diagonal_end_row l1)"

text \<open>One round of the preprocessing, for \<open>T\<close> workers and texts of lengths \<open>N\<close> and \<open>M\<close>.\<close>

definition prepare_round :: "nat \<Rightarrow> nat \<Rightarrow> nat \<Rightarrow> nat \<Rightarrow> todo \<Rightarrow> todo" where
  "prepare_round T N M rnd l =
    (let diagonal_start_col = (if rnd < M then int rnd else int M - 1);
         diagonal_start_row = (if rnd < M then 0 else int rnd - int M + 1);
         diagonal_end_row = (if rnd < N then int rnd else int N - 1);
         diagonal_size = diagonal_end_row - diagonal_start_row + 1;
         few = (diagonal_size < int T);
         need_thread_num = (if few then nat diagonal_size else T);
         block_size = (if few then 1 else diagonal_size div int T);
         remain_part = (if few then 0 else diagonal_size mod int T)
     in assign_parts need_thread_num 1 rnd diagonal_start_col diagonal_start_row block_size remain_part diagonal_end_row l)"

definition prepare :: "nat \<Rightarrow> nat \<Rightarrow> nat \<Rightarrow> todo" where
  "prepare T N M = fold (prepare_round T N M) [0..<N + M - 1] (\<lambda>_ _. (0, 0, 0))"

section \<open>The parallel workers\<close>

text \<open>
  Where a worker stands in its round: before the cell \<open>k\<close> of its part; before it clears its flag;
  before it counts itself; the first worker then waits for all, resets the counter and sets the
  flags from \<open>k\<close> on; last, all wait for their flag.
\<close>

datatype point = Work nat | Clear | Count | Gather | Reset | Grant nat | Await

record par =
  cache :: table
  finished :: nat
  can_run :: "nat \<Rightarrow> bool"
  rounds :: "nat \<Rightarrow> nat"
  points :: "nat \<Rightarrow> point"

definition idle :: "todo \<Rightarrow> nat \<Rightarrow> nat \<Rightarrow> bool" where
  "idle l rnd w = (case l rnd w of (start_col, start_row, end_row) \<Rightarrow>
     start_col = start_row \<and> start_col = end_row \<and> start_col = 0 \<and> w \<noteq> 1)"

text \<open>The cell of the diagonal \<open>rnd\<close> in the row \<open>row\<close> of the text \<open>A\<close> and the column \<open>col\<close> of \<open>B\<close>.\<close>

definition fill_cell :: "string \<Rightarrow> string \<Rightarrow> nat \<Rightarrow> int \<Rightarrow> int \<Rightarrow> table \<Rightarrow> table" where
  "fill_cell A B rnd row col c =
    (let skip_a = DP c (int rnd - 1) row;
         skip_b = DP c (int rnd - 1) (row - 1);
         take_both = DP c (int rnd - 2) (row - 1) + eq_char A B (nat row) (nat col)
     in set_cell rnd (nat row) (MAX3 skip_a skip_b take_both) c)"

definition goto :: "nat \<Rightarrow> point \<Rightarrow> par \<Rightarrow> par" where
  "goto w p s = s\<lparr>points := (points s)(w := p)\<rparr>"

text \<open>
  A step of the worker \<open>w\<close>; a loop that waits makes no step until its condition holds. The value
  None says that there is none: the worker waits or its rounds are over.
\<close>

definition worker_step :: "nat \<Rightarrow> string \<Rightarrow> string \<Rightarrow> todo \<Rightarrow> nat \<Rightarrow> par \<Rightarrow> par res option" where
  "worker_step T A B l w s =
    (let rnd = rounds s w in
     if \<not> rnd < length A + length B - 1 then None
     else case points s w of
       Work k \<Rightarrow>
         (case l rnd w of (start_col, start_row, end_row) \<Rightarrow>
            if \<not> start_row \<le> end_row then Some (Inl Assert)
            else if idle l rnd w then Some (Inr (goto w Clear s))
            else if int k + start_row \<le> end_row then
              Some (Inr (goto w (Work (Suc k)) (s\<lparr>cache := fill_cell A B rnd (start_row + int k) (start_col - int k) (cache s)\<rparr>)))
            else Some (Inr (goto w Clear s)))
     | Clear \<Rightarrow> Some (Inr (goto w Count (s\<lparr>can_run := (can_run s)(w - 1 := False)\<rparr>)))
     | Count \<Rightarrow> Some (Inr (goto w (if w = 1 then Gather else Await) (s\<lparr>finished := finished s + 1\<rparr>)))
     | Gather \<Rightarrow> if finished s < T then None else Some (Inr (goto w Reset s))
     | Reset \<Rightarrow> Some (Inr (goto w (Grant 0) (s\<lparr>finished := 0\<rparr>)))
     | Grant k \<Rightarrow>
         if k < T then Some (Inr (goto w (Grant (Suc k)) (s\<lparr>can_run := (can_run s)(k := True)\<rparr>)))
         else Some (Inr (goto w Await s))
     | Await \<Rightarrow> if can_run s (w - 1) then Some (Inr (goto w (Work 0) (s\<lparr>rounds := (rounds s)(w := Suc rnd)\<rparr>))) else None)"

text \<open>All workers together: one of them makes a step.\<close>

inductive par_step :: "nat \<Rightarrow> string \<Rightarrow> string \<Rightarrow> todo \<Rightarrow> par \<Rightarrow> par res \<Rightarrow> bool" for T A B l where
  "1 \<le> w \<Longrightarrow> w \<le> T \<Longrightarrow> worker_step T A B l w s = Some r \<Longrightarrow> par_step T A B l s r"

inductive_cases par_stepE: "par_step T A B l s r"

inductive par_run :: "nat \<Rightarrow> string \<Rightarrow> string \<Rightarrow> todo \<Rightarrow> par \<Rightarrow> par \<Rightarrow> bool" for T A B l s where
  par_start: "par_run T A B l s s"
| par_more: "par_run T A B l s s1 \<Longrightarrow> par_step T A B l s1 (Inr s2) \<Longrightarrow> par_run T A B l s s2"

definition par_init :: par where
  "par_init = \<lparr>cache = (\<lambda>_ _. 0), finished = 0, can_run = (\<lambda>_. False), rounds = (\<lambda>_. 0), points = (\<lambda>_. Work 0)\<rparr>"

definition all_over :: "nat \<Rightarrow> string \<Rightarrow> string \<Rightarrow> par \<Rightarrow> bool" where
  "all_over T A B s \<longleftrightarrow> (\<forall>w\<in>{1..T}. rounds s w = length A + length B - 1)"

section \<open>The results\<close>

definition serial_result :: "string \<Rightarrow> string \<Rightarrow> int" where
  "serial_result A B = Tworker 1 A B (\<lambda>_ _. 0) (length A - 1) (length B - 1)"

definition par_result :: "string \<Rightarrow> string \<Rightarrow> par \<Rightarrow> int" where
  "par_result A B s = cache s (length A + length B - 2) (length A - 1)"

text \<open>The condition the workers of an older version wait for; \<open>filled\<close> is \<open>is_dp_cache_filled\<close>.\<close>

definition is_cond_satisfied :: "(nat \<Rightarrow> nat \<Rightarrow> bool) \<Rightarrow> int \<Rightarrow> int \<Rightarrow> nat \<Rightarrow> bool" where
  "is_cond_satisfied filled i j rnd =
    (let cond_1 = (if rnd > 0 \<and> j > 0 then filled (rnd - 1) (nat i) else True);
         cond_2 = (if i > 0 \<and> rnd > 0 then filled (rnd - 1) (nat (i - 1)) else True);
         cond_3 = (if i > 0 \<and> j > 0 \<and> rnd > 1 then filled (rnd - 2) (nat (i - 1)) else True)
     in cond_1 \<and> cond_2 \<and> cond_3)"

end
