(* ===== verification/Plcs_Serial.thy ===== *)
theory Plcs_Serial
  imports Plcs "HOL-Library.Sublist"
begin

text \<open>
  The serial worker of \<open>plcs/plcs.c\<close> computes the length of a longest common subsequence.
\<close>

section \<open>The recurrence\<close>

text \<open>The value for the first \<open>i\<close> characters of one text and the first \<open>j\<close> of the other.\<close>

fun lcs_len :: "string \<Rightarrow> string \<Rightarrow> nat \<Rightarrow> nat \<Rightarrow> int" where
  "lcs_len A B 0 j = 0"
| "lcs_len A B (Suc i) 0 = 0"
| "lcs_len A B (Suc i) (Suc j) = MAX3 (lcs_len A B i (Suc j)) (lcs_len A B (Suc i) j) (lcs_len A B i j + eq_char A B i j)"

lemma MAX3_max: "MAX3 x y z = max (max x y) z"
  by (auto simp: MAX3_def Let_def)

lemma lcs_len_0 [simp]: "lcs_len A B i 0 = 0"
  by (cases i) auto

lemma subseq_snoc:
  "subseq xs (ys @ [y]) \<longleftrightarrow> subseq xs ys \<or> (\<exists>us. xs = us @ [y] \<and> subseq us ys)"
proof
  assume "subseq xs (ys @ [y])"
  then obtain us vs where "xs = us @ vs" "subseq us ys" "subseq vs [y]" unfolding subseq_append_iff by blast
  moreover have "vs = [] \<or> vs = [y]" using \<open>subseq vs [y]\<close> by (cases vs) (auto split: if_splits elim: list_emb.cases)
  ultimately show "subseq xs ys \<or> (\<exists>us. xs = us @ [y] \<and> subseq us ys)" by auto
next
  assume "subseq xs ys \<or> (\<exists>us. xs = us @ [y] \<and> subseq us ys)"
  then show "subseq xs (ys @ [y])" by (auto intro: subseq_append_iff [THEN iffD2] list_emb_append_mono)
qed

lemma lcs_len_upper:
  "i \<le> length A \<Longrightarrow> j \<le> length B \<Longrightarrow> subseq xs (take i A) \<Longrightarrow> subseq xs (take j B) \<Longrightarrow> int (length xs) \<le> lcs_len A B i j"
proof (induction A B i j arbitrary: xs rule: lcs_len.induct)
  case (3 A B i j)
  have A: "take (Suc i) A = take i A @ [A ! i]" and B: "take (Suc j) B = take j B @ [B ! j]"
    using 3(4,5) by (simp_all add: take_Suc_conv_app_nth)
  consider "subseq xs (take i A)" | "subseq xs (take j B)"
    | us where "xs = us @ [A ! i]" "A ! i = B ! j" "subseq us (take i A)" "subseq us (take j B)"
    using 3(6,7) unfolding A B subseq_snoc by auto
  then show ?case
  proof cases
    case 1
    then show ?thesis using 3(1) [of xs] 3(4-7) by (simp add: MAX3_max)
  next
    case 2
    then show ?thesis using 3(2) [of xs] 3(4-7) by (simp add: MAX3_max)
  next
    case (3 us)
    then show ?thesis using "3.IH"(3) [of us] "3.prems" by (simp add: MAX3_max eq_char_def)
  qed
qed auto

lemma lcs_len_attained:
  "i \<le> length A \<Longrightarrow> j \<le> length B \<Longrightarrow> \<exists>xs. subseq xs (take i A) \<and> subseq xs (take j B) \<and> int (length xs) = lcs_len A B i j"
proof (induction A B i j rule: lcs_len.induct)
  case (3 A B i j)
  have A: "take (Suc i) A = take i A @ [A ! i]" and B: "take (Suc j) B = take j B @ [B ! j]"
    using 3(4,5) by (simp_all add: take_Suc_conv_app_nth)
  obtain a b c where a: "subseq a (take i A)" "subseq a (take (Suc j) B)" "int (length a) = lcs_len A B i (Suc j)"
    and b: "subseq b (take (Suc i) A)" "subseq b (take j B)" "int (length b) = lcs_len A B (Suc i) j"
    and c: "subseq c (take i A)" "subseq c (take j B)" "int (length c) = lcs_len A B i j"
    using 3 by auto
  have a': "subseq a (take (Suc i) A)" and b': "subseq b (take (Suc j) B)"
    using a(1) b(2) unfolding A B subseq_snoc by auto
  let ?d = "if A ! i = B ! j then c @ [A ! i] else c"
  have d: "subseq ?d (take (Suc i) A)" "subseq ?d (take (Suc j) B)" "int (length ?d) = lcs_len A B i j + eq_char A B i j"
    using c unfolding A B subseq_snoc by (auto simp: eq_char_def)
  have "lcs_len A B (Suc i) (Suc j) \<in> {int (length a), int (length b), int (length ?d)}"
    using a(3) b(3) d(3) by (simp add: MAX3_max max_def)
  then show ?case using a(2) a' b(1) b' d(1,2) by (metis empty_iff insert_iff)
qed auto

section \<open>The table\<close>

lemma set_cell_apply: "set_cell i j v dp x y = (if x = i \<and> y = j then v else dp x y)"
  by (simp add: set_cell_def)

lemma serial_row_fills:
  assumes "\<forall>a<i. \<forall>b<length B. dp a b = lcs_len A B (Suc a) (Suc b)" and "\<forall>b<j. dp i b = lcs_len A B (Suc i) (Suc b)"
    and "j + n = length B"
  shows "(\<forall>b<length B. serial_row A B i n j dp i b = lcs_len A B (Suc i) (Suc b)) \<and> (\<forall>a. a \<noteq> i \<longrightarrow> serial_row A B i n j dp a = dp a)"
  using assms
proof (induction A B i n j dp rule: serial_row.induct)
  case (2 A B i n j dp)
  let ?v = "MAX3 (DP dp (int i - 1) (int j)) (DP dp (int i) (int j - 1)) (DP dp (int i - 1) (int j - 1) + eq_char A B i j)"
  have up: "DP dp (int i - 1) (int b) = lcs_len A B i (Suc b)" if "b < length B" for b
    using 2(2) that by (cases i) (auto simp: DP_def)
  have left: "DP dp (int i) (int j - 1) = lcs_len A B (Suc i) j" using 2(3) by (cases j) (auto simp: DP_def)
  have diag: "DP dp (int i - 1) (int j - 1) = lcs_len A B i j" using up 2(4) by (cases j) (auto simp: DP_def)
  have v: "?v = lcs_len A B (Suc i) (Suc j)" using up [of j] left diag 2(4) by simp
  let ?dp = "set_cell i j ?v dp"
  have h: "\<forall>a<i. \<forall>b<length B. ?dp a b = lcs_len A B (Suc a) (Suc b)" "\<forall>b<Suc j. ?dp i b = lcs_len A B (Suc i) (Suc b)"
    using 2(2,3) v by (auto simp: set_cell_apply less_Suc_eq simp del: lcs_len.simps)
  have rest: "?dp a = dp a" if "a \<noteq> i" for a using that by (simp add: set_cell_def)
  have "serial_row A B i (Suc n) j dp = serial_row A B i n (Suc j) ?dp" by (simp add: Let_def)
  then show ?case using 2(1) [OF refl refl refl h] 2(4) rest by (simp del: lcs_len.simps)
qed simp

lemma serial_rows_fills:
  assumes "\<forall>a<i. \<forall>b<length B. dp a b = lcs_len A B (Suc a) (Suc b)"
  shows "\<forall>a<i + n. \<forall>b<length B. serial_rows A B n i dp a b = lcs_len A B (Suc a) (Suc b)"
  using assms
proof (induction n arbitrary: i dp)
  case (Suc n)
  have "\<forall>a<Suc i. \<forall>b<length B. serial_row A B i (length B) 0 dp a b = lcs_len A B (Suc a) (Suc b)"
    using serial_row_fills [OF Suc.prems, of 0 "length B"] Suc.prems by (auto simp: less_Suc_eq)
  then show ?case using Suc.IH by simp
qed simp

lemma serial_result_lcs: "A \<noteq> [] \<Longrightarrow> B \<noteq> [] \<Longrightarrow> serial_result A B = lcs_len A B (length A) (length B)"
proof -
  assume "A \<noteq> []" "B \<noteq> []"
  then obtain n m where nm: "length A = Suc n" "length B = Suc m" by (metis list.size(3) not0_implies_Suc length_0_conv)
  have "serial_rows A B (Suc n) 0 (\<lambda>_ _. 0) n m = lcs_len A B (Suc n) (Suc m)"
    using serial_rows_fills [of 0 B "\<lambda>_ _. 0" A "Suc n"] nm(2) by simp
  then show ?thesis by (simp only: serial_result_def Tworker_def nm) simp
qed

text \<open>
  C32: the serial worker computes the length of a longest common subsequence: some common
  subsequence of the two texts has the length it returns, and none is longer.
\<close>

theorem plcs_serial_optimal:
  assumes "A \<noteq> []" and "B \<noteq> []"
  shows "(\<exists>xs. subseq xs A \<and> subseq xs B \<and> int (length xs) = serial_result A B) \<and>
    (\<forall>xs. subseq xs A \<and> subseq xs B \<longrightarrow> int (length xs) \<le> serial_result A B)"
  using lcs_len_attained [of "length A" A "length B" B] lcs_len_upper [of "length A" A "length B" B]
  by (simp add: serial_result_lcs [OF assms])

theorem plcs_serial_optimal_witness:
  "\<exists>xs. subseq xs ''abcbdab'' \<and> subseq xs ''bdcaba'' \<and> int (length xs) = serial_result ''abcbdab'' ''bdcaba''"
  using plcs_serial_optimal [of "''abcbdab''" "''bdcaba''"] by simp

end
