(* ===== verification/Plcs_Par.thy ===== *)
theory Plcs_Par
  imports Plcs_Serial
begin

text \<open>
  The parallel workers of \<open>plcs/plcs.c\<close>: their parts cover every diagonal, their barrier keeps them
  in step however they are interleaved, and the table they fill is the one of the recurrence.
\<close>

section \<open>The parts of the workers\<close>

definition in_matrix :: "nat \<Rightarrow> nat \<Rightarrow> nat \<Rightarrow> int \<Rightarrow> bool" where
  "in_matrix N M r y \<longleftrightarrow> 0 \<le> y \<and> y < int N \<and> y \<le> int r \<and> int r - y < int M"

definition part :: "todo \<Rightarrow> nat \<Rightarrow> nat \<Rightarrow> int \<Rightarrow> int \<Rightarrow> bool" where
  "part l r w a e \<longleftrightarrow> l r w = (int r - a, a, e) \<and> a \<le> e"

definition round_ok :: "nat \<Rightarrow> nat \<Rightarrow> nat \<Rightarrow> todo \<Rightarrow> nat \<Rightarrow> bool" where
  "round_ok T N M l r \<longleftrightarrow>
     (\<forall>w\<in>{1..T}. w \<noteq> 1 \<and> l r w = (0, 0, 0) \<or> (\<exists>a e. part l r w a e \<and> in_matrix N M r a \<and> in_matrix N M r e)) \<and>
     (\<forall>y. in_matrix N M r y \<longrightarrow> (\<exists>w\<in>{1..T}. \<exists>a e. part l r w a e \<and> a \<le> y \<and> y \<le> e))"

lemma assign_parts_covers:
  assumes "c + a = int r" and "1 \<le> bs" and "0 \<le> rem" and "rem \<le> int n" and "int n * bs + rem = hi - a + 1"
  shows "(\<forall>w. w < i \<or> i + n \<le> w \<longrightarrow> assign_parts n i r c a bs rem hi l r w = l r w) \<and>
    (\<forall>q. q \<noteq> r \<longrightarrow> assign_parts n i r c a bs rem hi l q = l q) \<and>
    (\<forall>w. i \<le> w \<and> w < i + n \<longrightarrow> (\<exists>b e. part (assign_parts n i r c a bs rem hi l) r w b e \<and> a \<le> b \<and> e \<le> hi)) \<and>
    (\<forall>y. a \<le> y \<and> y \<le> hi \<longrightarrow> (\<exists>w\<ge>i. w < i + n \<and> (\<exists>b e. part (assign_parts n i r c a bs rem hi l) r w b e \<and> b \<le> y \<and> y \<le> e)))"
  using assms
proof (induction n arbitrary: i c a rem l)
  case 0
  then have "hi < a" by simp
  then show ?case by auto
next
  case (Suc n)
  define tbs where "tbs = (if rem > 0 then bs + 1 else bs)"
  define rem1 where "rem1 = (if rem > 0 then rem - 1 else rem)"
  define e where "e = a + tbs - 1"
  have total: "int n * bs + rem1 = hi - e" and rem1: "0 \<le> rem1" "rem1 \<le> int n"
    using Suc.prems by (auto simp: tbs_def rem1_def e_def algebra_simps)
  have nonneg: "0 \<le> int n * bs" using Suc.prems(2) by simp
  then have ehi: "e \<le> hi" using total rem1(1) by linarith
  have ae: "a \<le> e" using Suc.prems(2) by (simp add: e_def tbs_def)
  let ?l1 = "l(r := (l r)(i := (c, a, e)))"
  let ?L = "assign_parts n (Suc i) r (c - (e - a) - 1) (e + 1) bs rem1 hi ?l1"
  have step: "assign_parts (Suc n) i r c a bs rem hi l = ?L"
    using ehi by (simp add: Let_def tbs_def rem1_def e_def)
  have IH: "(\<forall>w. w < Suc i \<or> Suc i + n \<le> w \<longrightarrow> ?L r w = ?l1 r w) \<and> (\<forall>q. q \<noteq> r \<longrightarrow> ?L q = ?l1 q) \<and>
    (\<forall>w. Suc i \<le> w \<and> w < Suc i + n \<longrightarrow> (\<exists>b f. part ?L r w b f \<and> e + 1 \<le> b \<and> f \<le> hi)) \<and>
    (\<forall>y. e + 1 \<le> y \<and> y \<le> hi \<longrightarrow> (\<exists>w\<ge>Suc i. w < Suc i + n \<and> (\<exists>b f. part ?L r w b f \<and> b \<le> y \<and> y \<le> f)))"
    by (rule Suc.IH) (use Suc.prems(1,2) total rem1 in simp_all)
  have own: "part ?L r i a e" using IH ae Suc.prems(1) by (auto simp: part_def)
  show ?case unfolding step
  proof (intro conjI allI impI)
    fix w assume "w < i \<or> i + Suc n \<le> w"
    then show "?L r w = l r w" using IH by auto
  next
    fix q assume "q \<noteq> r"
    then show "?L q = l q" using IH by simp
  next
    fix w assume w: "i \<le> w \<and> w < i + Suc n"
    show "\<exists>b f. part ?L r w b f \<and> a \<le> b \<and> f \<le> hi"
    proof (cases "w = i")
      case True
      then show ?thesis using own ehi by blast
    next
      case False
      then have "Suc i \<le> w \<and> w < Suc i + n" using w by simp
      then obtain b f where "part ?L r w b f" "e + 1 \<le> b" "f \<le> hi" using IH by blast
      then show ?thesis using ae by (intro exI [of _ b] exI [of _ f]) simp
    qed
  next
    fix y assume y: "a \<le> y \<and> y \<le> hi"
    show "\<exists>w\<ge>i. w < i + Suc n \<and> (\<exists>b f. part ?L r w b f \<and> b \<le> y \<and> y \<le> f)"
    proof (cases "y \<le> e")
      case True
      then show ?thesis using own y by (intro exI [of _ i]) auto
    next
      case False
      then have "e + 1 \<le> y \<and> y \<le> hi" using y by simp
      then obtain w b f where "Suc i \<le> w" "w < Suc i + n" "part ?L r w b f" "b \<le> y" "y \<le> f"
        using IH [THEN conjunct2, THEN conjunct2, THEN conjunct2, rule_format, of y] by blast
      then show ?thesis by (intro exI [of _ w]) auto
    qed
  qed
qed

lemma prepare_round_ok:
  assumes T: "1 \<le> T" and N: "1 \<le> N" "1 \<le> M" and r: "r < N + M - 1" and l: "\<forall>w. l r w = (0, 0, 0)"
  shows "round_ok T N M (prepare_round T N M r l) r" and "q \<noteq> r \<Longrightarrow> prepare_round T N M r l q = l q"
proof -
  define c where "c = (if r < M then int r else int M - 1)"
  define a where "a = (if r < M then 0 else int r - int M + 1)"
  define hi where "hi = (if r < N then int r else int N - 1)"
  define size where "size = hi - a + 1"
  define few where "few \<longleftrightarrow> size < int T"
  define n where "n = (if few then nat size else T)"
  define bs where "bs = (if few then 1 else size div int T)"
  define rem where "rem = (if few then 0 else size mod int T)"
  have size: "1 \<le> size" using N r by (auto simp: size_def hi_def a_def)
  have in_m: "in_matrix N M r y \<longleftrightarrow> a \<le> y \<and> y \<le> hi" for y
    using N r by (auto simp: in_matrix_def a_def hi_def)
  have "size div int T * int T + size mod int T = size" by simp
  then have total: "int n * bs + rem = hi - a + 1"
    using size by (auto simp: n_def bs_def rem_def size_def mult.commute)
  have bs: "1 \<le> bs" using T by (auto simp: bs_def few_def pos_imp_zdiv_pos_iff intro: zdiv_mono1 [of "int T" size "int T", simplified])
  have rem: "0 \<le> rem" "rem \<le> int n" using T by (auto simp: rem_def n_def few_def intro: less_imp_le)
  have n: "1 \<le> n" "n \<le> T" using size T by (auto simp: n_def few_def)
  have eq: "prepare_round T N M r l = assign_parts n 1 r c a bs rem hi l"
    by (simp add: prepare_round_def Let_def c_def a_def hi_def size_def few_def n_def bs_def rem_def)
  have ca: "c + a = int r" by (simp add: c_def a_def)
  note P = assign_parts_covers [OF ca bs rem total, of 1 l]
  show "q \<noteq> r \<Longrightarrow> prepare_round T N M r l q = l q" using P unfolding eq by blast
  show "round_ok T N M (prepare_round T N M r l) r"
    unfolding round_ok_def eq
  proof (intro conjI ballI allI impI)
    fix w assume w: "w \<in> {1..T}"
    show "w \<noteq> 1 \<and> assign_parts n 1 r c a bs rem hi l r w = (0, 0, 0) \<or>
      (\<exists>b e. part (assign_parts n 1 r c a bs rem hi l) r w b e \<and> in_matrix N M r b \<and> in_matrix N M r e)"
    proof (cases "w < 1 + n")
      case True
      then have "1 \<le> w \<and> w < 1 + n" using w by simp
      then obtain b e where "part (assign_parts n 1 r c a bs rem hi l) r w b e" "a \<le> b" "e \<le> hi"
        using P [THEN conjunct2, THEN conjunct2, THEN conjunct1, rule_format, of w] by blast
      then show ?thesis by (intro disjI2 exI [of _ b] exI [of _ e]) (auto simp: in_m part_def)
    next
      case False
      then have "w \<noteq> 1" using n(1) by simp
      then show ?thesis using P l False by simp
    qed
  next
    fix y assume "in_matrix N M r y"
    then obtain w where "1 \<le> w" "w < 1 + n" "\<exists>b e. part (assign_parts n 1 r c a bs rem hi l) r w b e \<and> b \<le> y \<and> y \<le> e"
      using P unfolding in_m by blast
    then show "\<exists>w\<in>{1..T}. \<exists>b e. part (assign_parts n 1 r c a bs rem hi l) r w b e \<and> b \<le> y \<and> y \<le> e"
      using n(2) by (intro bexI [of _ w]) auto
  qed
qed

lemma prepare_ok:
  assumes "1 \<le> T" and "1 \<le> N" and "1 \<le> M" and "r < N + M - 1"
  shows "round_ok T N M (prepare T N M) r"
proof -
  have "(\<forall>r<n. round_ok T N M (fold (prepare_round T N M) [0..<n] (\<lambda>_ _. (0, 0, 0))) r) \<and>
      (\<forall>r\<ge>n. fold (prepare_round T N M) [0..<n] (\<lambda>_ _. (0, 0, 0)) r = (\<lambda>_. (0, 0, 0)))" if "n \<le> N + M - 1" for n
    using that
  proof (induction n)
    case (Suc n)
    let ?l = "fold (prepare_round T N M) [0..<n] (\<lambda>_ _. (0, 0, 0))"
    have IH: "\<forall>r<n. round_ok T N M ?l r" "\<forall>r\<ge>n. ?l r = (\<lambda>_. (0, 0, 0))" using Suc by simp_all
    have z: "\<forall>w. ?l n w = (0, 0, 0)" using IH(2) by simp
    have "n < N + M - 1" using Suc.prems by simp
    note P = prepare_round_ok [where r = n and l = ?l, OF assms(1-3) this z]
    have "round_ok T N M (prepare_round T N M n ?l) r" if "r < Suc n" for r
    proof (cases "r = n")
      case False
      then have "prepare_round T N M n ?l r = ?l r" by (rule P(2))
      then show ?thesis using IH(1) that False by (simp add: round_ok_def part_def)
    qed (use P(1) in simp)
    moreover have "prepare_round T N M n ?l r = (\<lambda>_. (0, 0, 0))" if "Suc n \<le> r" for r
      using P(2) [of r] IH(2) that by simp
    ultimately show ?case by simp
  qed simp
  then show ?thesis unfolding prepare_def using assms(4) by blast
qed

end
