(* ===== verification/Plcs_Barrier.thy ===== *)
theory Plcs_Barrier
  imports Plcs_Par
begin

text \<open>
  The barrier of the parallel workers of \<open>plcs/plcs.c\<close>: however their steps interleave, no worker
  starts a round before all have finished the one before, and no worker waits for ever.
\<close>

section \<open>The invariant of the barrier\<close>

text \<open>
  The round in progress; the followers (all workers but the first) that the first has still to let
  go; those let go that have not noticed yet; those that have counted themselves in this round.
\<close>

definition cur :: "par \<Rightarrow> nat" where
  "cur s = (case points s 1 of Grant k \<Rightarrow> Suc (rounds s 1) | Await \<Rightarrow> Suc (rounds s 1) | _ \<Rightarrow> rounds s 1)"

definition pending :: "par \<Rightarrow> nat \<Rightarrow> bool" where
  "pending s w = (case points s 1 of Grant k \<Rightarrow> k \<le> w - 1 | _ \<Rightarrow> False)"

definition granted :: "par \<Rightarrow> nat \<Rightarrow> bool" where
  "granted s w \<longleftrightarrow> points s w = Await \<and> can_run s (w - 1)"

definition arrived :: "par \<Rightarrow> nat \<Rightarrow> bool" where
  "arrived s w \<longleftrightarrow> points s w = Await \<and> \<not> can_run s (w - 1) \<and> rounds s w = cur s"

definition follower_point :: "point \<Rightarrow> bool" where
  "follower_point p = (case p of Gather \<Rightarrow> False | Reset \<Rightarrow> False | Grant k \<Rightarrow> False | _ \<Rightarrow> True)"

definition follower :: "par \<Rightarrow> nat \<Rightarrow> bool" where
  "follower s w \<longleftrightarrow> follower_point (points s w) \<and> (points s w = Count \<longrightarrow> \<not> can_run s (w - 1)) \<and>
     (if pending s w then points s w = Await \<and> \<not> can_run s (w - 1) \<and> Suc (rounds s w) = cur s
      else rounds s w + (if granted s w then 1 else 0) = cur s)"

definition barrier :: "nat \<Rightarrow> par \<Rightarrow> bool" where
  "barrier T s \<longleftrightarrow> (\<forall>w\<in>{2..T}. follower s w) \<and>
     finished s = card {w \<in> {2..T}. arrived s w} + (if points s 1 = Gather \<or> points s 1 = Reset then 1 else 0) \<and>
     (points s 1 = Reset \<longrightarrow> (\<forall>w\<in>{2..T}. arrived s w)) \<and>
     (\<forall>k. points s 1 = Grant k \<and> 0 < k \<longrightarrow> can_run s 0) \<and> (points s 1 = Await \<longrightarrow> can_run s 0)"

lemma barrier_init: "barrier T par_init"
  by (auto simp: barrier_def par_init_def follower_def follower_point_def pending_def granted_def arrived_def cur_def)

text \<open>A step of a follower changes its own flag, round and point, and the counter.\<close>

lemma follower_moves:
  assumes inv: "barrier T s" and w: "2 \<le> w" "w \<le> T"
    and s1: "points s1 = (points s)(w := p)" "rounds s1 = (rounds s)(w := r)" "can_run s1 = (can_run s)(w - 1 := c)"
    and own: "follower s1 w" "\<not> arrived s w" and count: "finished s1 = finished s + (if arrived s1 w then 1 else 0)"
  shows "barrier T s1"
proof -
  have cur: "cur s1 = cur s" using w by (simp add: cur_def s1 split: point.split)
  have same: "follower s1 v = follower s v" "arrived s1 v = arrived s v" if "v \<noteq> w" "2 \<le> v" for v
  proof -
    have "v - 1 \<noteq> w - 1" using that w by simp
    then show "follower s1 v = follower s v" "arrived s1 v = arrived s v"
      using that w by (simp_all add: follower_def arrived_def granted_def pending_def cur s1)
  qed
  have set: "{v \<in> {2..T}. arrived s1 v} = (if arrived s1 w then insert w {v \<in> {2..T}. arrived s v} else {v \<in> {2..T}. arrived s v})"
  proof (rule set_eqI)
    fix v
    show "v \<in> {v \<in> {2..T}. arrived s1 v} \<longleftrightarrow>
      v \<in> (if arrived s1 w then insert w {v \<in> {2..T}. arrived s v} else {v \<in> {2..T}. arrived s v})"
      using same(2) [of v] own(2) w by (cases "v = w") auto
  qed
  have card: "card {v \<in> {2..T}. arrived s1 v} = card {v \<in> {2..T}. arrived s v} + (if arrived s1 w then 1 else 0)"
    unfolding set using own(2) by simp
  have first: "can_run s1 0 = can_run s 0" "points s1 1 = points s 1" using w by (simp_all add: s1)
  have "points s 1 \<noteq> Reset" using inv own(2) w by (auto simp: barrier_def)
  moreover have "follower s1 v" if "v \<in> {2..T}" for v
    using inv own(1) same(1) [of v] that by (cases "v = w") (auto simp: barrier_def)
  ultimately show ?thesis using inv card count unfolding barrier_def first by simp
qed

lemma follower_points [simp]:
  "follower_point (Work k)" "follower_point Clear" "follower_point Count" "follower_point Await"
  "\<not> follower_point Gather" "\<not> follower_point Reset" "\<not> follower_point (Grant k)"
  by (simp_all add: follower_point_def)

lemma follower_steps:
  assumes inv: "barrier T s" and w: "2 \<le> w" "w \<le> T"
    and s1: "points s1 = (points s)(w := p)" "rounds s1 = (rounds s)(w := r)" "can_run s1 = (can_run s)(w - 1 := c)"
    and active: "points s w \<noteq> Await \<or> can_run s (w - 1)"
    and p: "follower_point p" "p = Count \<longrightarrow> \<not> c"
    and r: "r + (if p = Await \<and> c then 1 else 0) = rounds s w + (if granted s w then 1 else 0)"
    and count: "finished s1 = finished s + (if p = Await \<and> \<not> c then 1 else 0)"
  shows "barrier T s1"
proof -
  have cur: "cur s1 = cur s" using w by (simp add: cur_def s1 split: point.split)
  have pend: "pending s1 w = pending s w" using w by (simp add: pending_def s1)
  have f: "follower s w" using inv w by (simp add: barrier_def)
  have np: "\<not> pending s w" using f active by (auto simp: follower_def)
  then have now: "rounds s w + (if granted s w then 1 else 0) = cur s" using f by (simp add: follower_def)
  have arr: "arrived s1 w \<longleftrightarrow> p = Await \<and> \<not> c" using r now cur by (auto simp: arrived_def s1)
  show ?thesis
  proof (rule follower_moves [OF inv w s1])
    show "follower s1 w" using p r np now by (simp add: follower_def granted_def cur pend) (simp add: s1 split: if_splits)
    show "\<not> arrived s w" using active by (simp add: arrived_def)
    show "finished s1 = finished s + (if arrived s1 w then 1 else 0)" using count arr by simp
  qed
qed

lemma barrier_follower:
  assumes inv: "barrier T s" and w: "2 \<le> w" "w \<le> T" and step: "worker_step T A B l w s = Some (Inr s1)"
  shows "barrier T s1"
proof -
  have f: "follower s w" using inv w by (simp add: barrier_def)
  then have fp: "follower_point (points s w)" "points s w = Count \<longrightarrow> \<not> can_run s (w - 1)" by (simp_all add: follower_def)
  show ?thesis
  proof (cases "points s w")
    case (Work k)
    then obtain q where "points s1 = (points s)(w := q)" "q = Clear \<or> q = Work (Suc k)"
      "rounds s1 = rounds s" "can_run s1 = can_run s" "finished s1 = finished s"
      using step by (auto simp: worker_step_def Let_def goto_def split: prod.splits if_splits)
    then show ?thesis using Work
      by (intro follower_steps [OF inv w, of s1 q "rounds s w" "can_run s (w - 1)"]) (auto simp: follower_point_def granted_def)
  next
    case Clear
    then have "s1 = goto w Count (s\<lparr>can_run := (can_run s)(w - 1 := False)\<rparr>)"
      using step by (auto simp: worker_step_def Let_def split: if_splits)
    then show ?thesis using Clear
      by (intro follower_steps [OF inv w, of s1 Count "rounds s w" False]) (auto simp: follower_point_def granted_def goto_def)
  next
    case Count
    then have "s1 = goto w Await (s\<lparr>finished := finished s + 1\<rparr>)"
      using step w by (auto simp: worker_step_def Let_def split: if_splits)
    then show ?thesis using Count fp(2) fun_upd_triv [of "can_run s" "w - 1"]
      by (intro follower_steps [OF inv w, of s1 Await "rounds s w" False]) (auto simp: follower_point_def granted_def goto_def)
  next
    case Await
    then have "can_run s (w - 1)" "s1 = goto w (Work 0) (s\<lparr>rounds := (rounds s)(w := Suc (rounds s w))\<rparr>)"
      using step by (auto simp: worker_step_def Let_def split: if_splits)
    then show ?thesis using Await fun_upd_triv [of "can_run s" "w - 1"]
      by (intro follower_steps [OF inv w, of s1 "Work 0" "Suc (rounds s w)" True]) (auto simp: follower_point_def granted_def goto_def)
  qed (use fp in \<open>simp_all add: follower_point_def\<close>)
qed

text \<open>The steps of the first worker.\<close>

lemma all_arrived:
  assumes "barrier T s" and "points s 1 = Gather" and "T \<le> finished s" and "1 \<le> T" and "w \<in> {2..T}"
  shows "arrived s w"
proof -
  have "card {2..T} \<le> card {w \<in> {2..T}. arrived s w}" using assms(1-4) by (simp add: barrier_def)
  then have "{w \<in> {2..T}. arrived s w} = {2..T}" by (intro card_seteq) auto
  then show ?thesis using assms(5) by blast
qed

lemma barrier_first:
  assumes inv: "barrier T s" and T: "1 \<le> T" and step: "worker_step T A B l 1 s = Some (Inr s1)"
  shows "barrier T s1"
proof -
  have idx: "w - 1 \<noteq> 0" "w \<noteq> 1" if "w \<in> {2..T}" for w using that by auto
  have others: "barrier T s1" if s1: "points s1 = (points s)(1 := q)" "rounds s1 = (rounds s)(1 := r)" "can_run s1 = (can_run s)(0 := c)"
    and count: "finished s1 = finished s + (if q = Gather then 1 else 0)"
    and q: "q \<notin> {Reset, Await} \<and> (\<forall>k. q \<noteq> Grant k)" "points s 1 \<notin> {Gather, Reset} \<and> (\<forall>k. points s 1 \<noteq> Grant k)"
    and now: "r = rounds s 1 + (if points s 1 = Await then 1 else 0)" for q r c
  proof -
    have cur: "cur s1 = cur s" using q now by (auto simp: cur_def s1 split: point.split)
    have pend: "\<not> pending s1 w" "\<not> pending s w" for w using q by (auto simp: pending_def s1 split: point.split)
    have same: "follower s1 w = follower s w" "arrived s1 w = arrived s w" if "w \<in> {2..T}" for w
      using idx [OF that] by (simp_all add: follower_def arrived_def granted_def cur pend s1)
    have "{w \<in> {2..T}. arrived s1 w} = {w \<in> {2..T}. arrived s w}" using same(2) by blast
    then show ?thesis using inv same count q by (simp add: barrier_def s1)
  qed
  show ?thesis
  proof (cases "points s 1")
    case (Work k)
    then obtain q where "points s1 = (points s)(1 := q)" "q = Clear \<or> q = Work (Suc k)"
      "rounds s1 = rounds s" "can_run s1 = can_run s" "finished s1 = finished s"
      using step by (auto simp: worker_step_def Let_def goto_def split: prod.splits if_splits)
    then show ?thesis using Work by (intro others [of q "rounds s 1" "can_run s 0"]) auto
  next
    case Clear
    then have "s1 = goto 1 Count (s\<lparr>can_run := (can_run s)(0 := False)\<rparr>)"
      using step by (auto simp: worker_step_def Let_def split: if_splits)
    then show ?thesis using Clear by (intro others [of Count "rounds s 1" False]) (auto simp: goto_def)
  next
    case Count
    then have "s1 = goto 1 Gather (s\<lparr>finished := finished s + 1\<rparr>)"
      using step by (auto simp: worker_step_def Let_def split: if_splits)
    then show ?thesis using Count by (intro others [of Gather "rounds s 1" "can_run s 0"]) (auto simp: goto_def)
  next
    case Await
    then have "s1 = goto 1 (Work 0) (s\<lparr>rounds := (rounds s)(1 := Suc (rounds s 1))\<rparr>)"
      using step by (auto simp: worker_step_def Let_def split: if_splits)
    then show ?thesis using Await by (intro others [of "Work 0" "Suc (rounds s 1)" "can_run s 0"]) (auto simp: goto_def)
  next
    case Gather
    then have s1: "s1 = goto 1 Reset s" and fin: "T \<le> finished s"
      using step by (auto simp: worker_step_def Let_def split: if_splits)
    have cur: "cur s1 = cur s" by (simp add: cur_def s1 goto_def Gather [simplified])
    have pend: "\<not> pending s1 w" "\<not> pending s w" for w using Gather by (simp_all add: pending_def s1 goto_def)
    have same: "follower s1 w = follower s w" "arrived s1 w = arrived s w" if "w \<in> {2..T}" for w
      using idx [OF that] by (auto simp: follower_def arrived_def granted_def cur pend) (simp_all add: s1 goto_def)
    have "{w \<in> {2..T}. arrived s1 w} = {w \<in> {2..T}. arrived s w}" using same(2) by blast
    then show ?thesis using inv same Gather all_arrived [OF inv Gather fin T] by (simp add: barrier_def) (simp add: s1 goto_def)
  next
    case Reset
    then have s1: "s1 = goto 1 (Grant 0) (s\<lparr>finished := 0\<rparr>)" using step by (auto simp: worker_step_def Let_def split: if_splits)
    have arr: "arrived s w" if "w \<in> {2..T}" for w using inv Reset that by (simp add: barrier_def)
    have "cur s1 = Suc (rounds s 1)" "cur s = rounds s 1" using Reset by (simp_all add: cur_def s1 goto_def)
    then have "follower s1 w \<and> \<not> arrived s1 w" if "w \<in> {2..T}" for w
      using arr [OF that] idx [OF that] by (auto simp: arrived_def follower_def follower_point_def pending_def s1 goto_def)
    then show ?thesis by (simp add: barrier_def) (simp add: s1 goto_def)
  next
    case (Grant k)
    have fols: "\<forall>w\<in>{2..T}. follower s w" using inv by (simp add: barrier_def)
    have later: "follower s1 w = follower s w" "arrived s1 w = arrived s w"
      if "w \<in> {2..T}" "w - 1 \<noteq> k" "points s1 = (points s)(1 := q)" "rounds s1 = rounds s"
        "can_run s1 (w - 1) = can_run s (w - 1)" "cur s1 = cur s" "pending s1 w = pending s w" for w q
      using idx [OF that(1)] that by (simp_all add: follower_def arrived_def granted_def)
    show ?thesis
    proof (cases "k < T")
      case True
      then have s1: "s1 = goto 1 (Grant (Suc k)) (s\<lparr>can_run := (can_run s)(k := True)\<rparr>)"
        using step Grant by (auto simp: worker_step_def Let_def split: if_splits)
      have cur: "cur s1 = cur s" using Grant by (simp add: cur_def s1 goto_def)
      have pend: "pending s1 w \<longleftrightarrow> Suc k \<le> w - 1" "pending s w \<longleftrightarrow> k \<le> w - 1" for w using Grant by (simp_all add: pending_def s1 goto_def)
      have fol: "follower s1 w \<and> arrived s1 w = arrived s w" if w: "w \<in> {2..T}" for w
      proof (cases "w - 1 = k")
        case True
        then have "points s w = Await" "\<not> can_run s k" "Suc (rounds s w) = cur s"
          using bspec [OF fols w] pend(2) [of w] by (simp_all add: follower_def split: if_splits)
        then show ?thesis using True idx [OF w] pend(1) [of w]
          by (simp add: follower_def arrived_def granted_def cur) (simp add: s1 goto_def)
      next
        case False
        have "pending s1 w = pending s w" using pend [of w] False by auto
        then have "follower s1 w = follower s w" "arrived s1 w = arrived s w"
          using later [where q = "Grant (Suc k)", OF w False] cur False by (simp_all add: s1 goto_def)
        then show ?thesis using inv w by (simp add: barrier_def)
      qed
      then have "{w \<in> {2..T}. arrived s1 w} = {w \<in> {2..T}. arrived s w}" by blast
      then show ?thesis using inv fol Grant by (simp add: barrier_def) (simp add: s1 goto_def)
    next
      case False
      then have s1: "s1 = goto 1 Await s" using step Grant by (auto simp: worker_step_def Let_def split: if_splits)
      have cur: "cur s1 = cur s" using Grant by (simp add: cur_def s1 goto_def)
      have fol: "follower s1 w = follower s w \<and> arrived s1 w = arrived s w" if w: "w \<in> {2..T}" for w
      proof -
        have "pending s1 w = pending s w" using Grant False w by (auto simp: pending_def s1 goto_def)
        moreover have "w - 1 \<noteq> k" using False w by auto
        ultimately show ?thesis using later [where q = Await, OF w] cur by (simp add: s1 goto_def)
      qed
      then have "{w \<in> {2..T}. arrived s1 w} = {w \<in> {2..T}. arrived s w}" by blast
      then show ?thesis using inv fol Grant False T by (simp add: barrier_def) (simp add: s1 goto_def)
    qed
  qed
qed

end
