(* ===== verification/Plcs_Fill.thy ===== *)
theory Plcs_Fill
  imports Plcs_Barrier
begin

text \<open>
  The table the parallel workers of \<open>plcs/plcs.c\<close> fill is the one of the recurrence, however their
  steps interleave, and their run ends.
\<close>

section \<open>A cell\<close>

definition filled :: "string \<Rightarrow> string \<Rightarrow> table \<Rightarrow> nat \<Rightarrow> bool" where
  "filled A B c r \<longleftrightarrow> (\<forall>y. in_matrix (length A) (length B) r (int y) \<longrightarrow> c r y = lcs_len A B (Suc y) (Suc (r - y)))"

definition clear_outside :: "string \<Rightarrow> string \<Rightarrow> table \<Rightarrow> bool" where
  "clear_outside A B c \<longleftrightarrow> (\<forall>r y. \<not> in_matrix (length A) (length B) r (int y) \<longrightarrow> c r y = 0)"

lemma DP_diagonal:
  assumes "\<forall>r'<r. filled A B c r'" and "clear_outside A B c" and "i \<le> length A" and "j \<le> length B" and "i + j \<le> Suc r"
  shows "DP c (int (i + j) - 2) (int i - 1) = lcs_len A B i j"
proof (cases "i = 0 \<or> j = 0")
  case True
  show ?thesis
  proof (cases "i = 0")
    case False
    then have j: "j = 0" using True by simp
    have "\<not> in_matrix (length A) (length B) (nat (int i - 2)) (int (nat (int i - 1)))" if "2 \<le> i" using that by (simp add: in_matrix_def)
    then show ?thesis using assms(2) j False by (cases "2 \<le> i") (auto simp: DP_def clear_outside_def)
  qed (simp add: DP_def)
next
  case False
  then obtain i1 j1 where ij: "i = Suc i1" "j = Suc j1" by (metis not0_implies_Suc)
  then have "filled A B c (i1 + j1)" "in_matrix (length A) (length B) (i1 + j1) (int i1)"
    using assms by (auto simp: in_matrix_def)
  then show ?thesis by (simp add: filled_def DP_def ij nat_int_add del: lcs_len.simps)
qed

lemma fill_cell_value:
  assumes "\<forall>r'<r. filled A B c r'" and "clear_outside A B c" and "in_matrix (length A) (length B) r (int y)"
  shows "fill_cell A B r (int y) (int r - int y) c = set_cell r y (lcs_len A B (Suc y) (Suc (r - y))) c"
proof -
  have y: "y \<le> r" "y < length A" "r - y < length B" using assms(3) by (auto simp: in_matrix_def)
  have "DP c (int r - 1) (int y) = lcs_len A B (Suc y) (r - y)"
    using DP_diagonal [OF assms(1,2), of "Suc y" "r - y"] y by (simp add: of_nat_diff)
  moreover have "DP c (int r - 1) (int y - 1) = lcs_len A B y (Suc (r - y))"
    using DP_diagonal [OF assms(1,2), of y "Suc (r - y)"] y by (simp add: of_nat_diff)
  moreover have "DP c (int r - 2) (int y - 1) = lcs_len A B y (r - y)"
    using DP_diagonal [OF assms(1,2), of y "r - y"] y by (simp add: of_nat_diff)
  moreover have "nat (int r - int y) = r - y" by simp
  ultimately show ?thesis by (simp add: fill_cell_def Let_def MAX3_max max.commute)
qed

section \<open>The cells that are done\<close>

text \<open>
  A cell of the part of a worker that is not idle is done when the worker is past it. The
  invariant: a cell that is done has its value, and the cells outside the matrix are 0.
\<close>

definition done_cell :: "nat \<Rightarrow> todo \<Rightarrow> par \<Rightarrow> nat \<Rightarrow> nat \<Rightarrow> nat \<Rightarrow> bool" where
  "done_cell n l s w r y \<longleftrightarrow> r < n \<and> \<not> idle l r w \<and> (\<exists>a e. part l r w a e \<and> a \<le> int y \<and> int y \<le> e \<and>
     (r < rounds s w \<or> r = rounds s w \<and> (\<forall>k. points s w = Work k \<longrightarrow> int y < a + int k)))"

definition cells_ok :: "nat \<Rightarrow> string \<Rightarrow> string \<Rightarrow> todo \<Rightarrow> par \<Rightarrow> bool" where
  "cells_ok T A B l s \<longleftrightarrow>
     (\<forall>w\<in>{1..T}. \<forall>r y. done_cell (length A + length B - 1) l s w r y \<longrightarrow> cache s r y = lcs_len A B (Suc y) (Suc (r - y))) \<and>
     clear_outside A B (cache s)"

lemma part_fun: "part l r w a e \<Longrightarrow> part l r w a1 e1 \<Longrightarrow> a1 = a \<and> e1 = e"
  by (simp add: part_def)

lemma cells_init: "cells_ok T A B l par_init"
  by (auto simp: cells_ok_def done_cell_def par_init_def clear_outside_def)

lemma busy_cover:
  assumes ok: "round_ok T N M l r" and y: "in_matrix N M r y" and T: "1 \<le> T"
  shows "\<exists>w\<in>{1..T}. \<not> idle l r w \<and> (\<exists>a e. part l r w a e \<and> a \<le> y \<and> y \<le> e)"
proof -
  obtain w a e where w: "w \<in> {1..T}" "part l r w a e" "a \<le> y" "y \<le> e" using ok y unfolding round_ok_def by blast
  show ?thesis
  proof (cases "idle l r w")
    case True
    then have 0: "r = 0" "y = 0" using w by (auto simp: idle_def part_def)
    obtain b f where "part l r 1 b f" "in_matrix N M r b" "in_matrix N M r f" using ok T by (auto simp: round_ok_def)
    moreover from this have "b = 0" "f = 0" using 0 by (auto simp: in_matrix_def)
    ultimately show ?thesis using 0 T by (intro bexI [of _ 1]) (auto simp: idle_def)
  qed (use w in blast)
qed

lemma working_cur: "barrier T s \<Longrightarrow> w \<in> {1..T} \<Longrightarrow> points s w = Work k \<Longrightarrow> rounds s w = cur s"
proof (cases "w = 1")
  case False
  assume "barrier T s" "w \<in> {1..T}" "points s w = Work k"
  then have "follower s w" using False by (simp add: barrier_def)
  then show ?thesis using \<open>points s w = Work k\<close> by (simp add: follower_def granted_def split: if_splits)
qed (simp add: cur_def)

lemma past_round:
  assumes inv: "barrier T s" and w: "w \<in> {1..T}" and r: "r < cur s"
  shows "r < rounds s w \<or> r = rounds s w \<and> (\<forall>k. points s w \<noteq> Work k)"
proof (cases "w = 1")
  case True
  then show ?thesis using r by (auto simp: cur_def split: point.splits)
next
  case False
  then have "follower s w" using inv w by (simp add: barrier_def)
  then show ?thesis using r by (auto simp: follower_def granted_def split: if_splits)
qed

lemma filled_before:
  assumes inv: "barrier T s" and cells: "cells_ok T A B l s" and r: "r < cur s" "r < length A + length B - 1"
    and ok: "round_ok T (length A) (length B) l r" and T: "1 \<le> T"
  shows "filled A B (cache s) r"
  unfolding filled_def
proof (intro allI impI)
  fix y assume "in_matrix (length A) (length B) r (int y)"
  then obtain w a e where w: "w \<in> {1..T}" "\<not> idle l r w" "part l r w a e" "a \<le> int y" "int y \<le> e"
    using busy_cover [OF ok _ T] by blast
  then have "done_cell (length A + length B - 1) l s w r y"
    using past_round [OF inv w(1) r(1)] r(2) unfolding done_cell_def by blast
  then show "cache s r y = lcs_len A B (Suc y) (Suc (r - y))" using cells w(1) by (simp add: cells_ok_def)
qed

lemma cells_keep:
  assumes "cells_ok T A B l s" and "cache s1 = cache s"
    and "\<forall>v\<in>{1..T}. \<forall>r y. done_cell (length A + length B - 1) l s1 v r y \<longrightarrow> done_cell (length A + length B - 1) l s v r y"
  shows "cells_ok T A B l s1"
  using assms unfolding cells_ok_def by metis

lemma cells_move:
  assumes cells: "cells_ok T A B l s" and s1: "cache s1 = cache s" "points s1 = (points s)(w := p)" "rounds s1 = rounds s"
    and past: "\<forall>k a e. points s w = Work k \<and> \<not> idle l (rounds s w) w \<and> part l (rounds s w) w a e \<longrightarrow> e < a + int k"
  shows "cells_ok T A B l s1"
proof (rule cells_keep [OF cells s1(1)], intro ballI allI impI)
  fix v r y assume "done_cell (length A + length B - 1) l s1 v r y"
  then obtain a e where h: "r < length A + length B - 1" "\<not> idle l r v" "part l r v a e" "a \<le> int y" "int y \<le> e"
    "r < rounds s v \<or> r = rounds s v \<and> (\<forall>k. points s1 v = Work k \<longrightarrow> int y < a + int k)"
    using s1(3) unfolding done_cell_def by auto
  have "int y < a + int k" if "r = rounds s v" "points s v = Work k" for k
  proof (cases "v = w")
    case True
    then have "e < a + int k" using past h(2,3) that by blast
    then show ?thesis using h(5) by simp
  next
    case False
    then show ?thesis using h(6) that s1(2) by simp
  qed
  then show "done_cell (length A + length B - 1) l s v r y" using h unfolding done_cell_def by blast
qed

lemma cells_next_round:
  assumes cells: "cells_ok T A B l s" and s1: "cache s1 = cache s" "points s1 = (points s)(w := Work 0)"
      "rounds s1 = (rounds s)(w := Suc (rounds s w))"
    and await: "points s w = Await"
  shows "cells_ok T A B l s1"
proof (rule cells_keep [OF cells s1(1)], intro ballI allI impI)
  fix v r y assume "done_cell (length A + length B - 1) l s1 v r y"
  then show "done_cell (length A + length B - 1) l s v r y"
    using await unfolding done_cell_def by (cases "v = w") (auto simp: s1(2,3) less_Suc_eq)
qed

lemma cells_fill:
  assumes cells: "cells_ok T A B l s" and w: "w \<in> {1..T}" "points s w = Work k"
    and part: "part l (rounds s w) w a e" and y: "int y = a + int k" "in_matrix (length A) (length B) (rounds s w) (int y)"
    and s1: "cache s1 = set_cell (rounds s w) y (lcs_len A B (Suc y) (Suc (rounds s w - y))) (cache s)"
      "points s1 = (points s)(w := Work (Suc k))" "rounds s1 = rounds s"
  shows "cells_ok T A B l s1"
  unfolding cells_ok_def
proof (intro conjI ballI allI impI)
  fix v r z assume v: "v \<in> {1..T}" and d: "done_cell (length A + length B - 1) l s1 v r z"
  show "cache s1 r z = lcs_len A B (Suc z) (Suc (r - z))"
  proof (cases "r = rounds s w \<and> z = y")
    case False
    have "done_cell (length A + length B - 1) l s v r z"
    proof (cases "v = w")
      case True
      obtain b f where h: "r < length A + length B - 1" "\<not> idle l r w" "part l r w b f" "b \<le> int z" "int z \<le> f"
        "r < rounds s w \<or> r = rounds s w \<and> int z < b + int (Suc k)"
        using d unfolding done_cell_def True s1(2,3) by auto
      have "int z < b + int k" if r: "r = rounds s w"
      proof -
        have "b = a" using part_fun [OF h(3)] part r by blast
        then show ?thesis using h(6) r y(1) \<open>\<not> (r = rounds s w \<and> z = y)\<close> by auto
      qed
      then show ?thesis using h w(2) unfolding done_cell_def True by auto
    next
      case False
      then show ?thesis using d unfolding done_cell_def s1(2,3) by simp
    qed
    then show ?thesis using cells v False by (simp add: cells_ok_def s1(1) set_cell_apply)
  qed (simp add: s1(1) set_cell_apply)
next
  show "clear_outside A B (cache s1)" using cells y(2) by (auto simp: cells_ok_def clear_outside_def s1(1) set_cell_apply)
qed

section \<open>Every run\<close>

definition par_inv :: "nat \<Rightarrow> string \<Rightarrow> string \<Rightarrow> todo \<Rightarrow> par \<Rightarrow> bool" where
  "par_inv T A B l s \<longleftrightarrow> barrier T s \<and> cells_ok T A B l s \<and> 
     (\<forall>w\<in>{1..T}. rounds s w < length A + length B - 1 \<or> rounds s w = length A + length B - 1 \<and> points s w = Work 0)"

definition parts_ok :: "nat \<Rightarrow> string \<Rightarrow> string \<Rightarrow> todo \<Rightarrow> bool" where
  "parts_ok T A B l \<longleftrightarrow> 1 \<le> T \<and> (\<forall>r<length A + length B - 1. round_ok T (length A) (length B) l r)"

lemma in_matrix_between: "in_matrix N M r a \<Longrightarrow> in_matrix N M r e \<Longrightarrow> a \<le> y \<Longrightarrow> y \<le> e \<Longrightarrow> in_matrix N M r y"
  by (simp add: in_matrix_def)

lemma step_running: "worker_step T A B l w s = Some res \<Longrightarrow> rounds s w < length A + length B - 1"
  by (auto simp: worker_step_def Let_def split: if_splits)

lemma cells_work:
  assumes ok: "parts_ok T A B l" and inv: "par_inv T A B l s" and w: "w \<in> {1..T}" "points s w = Work k"
    and step: "worker_step T A B l w s = Some res"
  obtains s1 where "res = Inr s1" "cells_ok T A B l s1"
proof -
  define r where "r = rounds s w"
  have r: "r < length A + length B - 1" using step_running [OF step] by (simp add: r_def)
  then have round: "round_ok T (length A) (length B) l r" using ok by (simp add: parts_ok_def)
  have cells: "cells_ok T A B l s" and bar: "barrier T s" using inv by (simp_all add: par_inv_def)
  show ?thesis
  proof (cases "idle l r w")
    case True
    then have "res = Inr (goto w Clear s)"
      using step w r by (auto simp: worker_step_def Let_def r_def idle_def split: prod.splits)
    moreover have "cells_ok T A B l (goto w Clear s)"
      using True by (intro cells_move [OF cells, where w = w]) (auto simp: goto_def r_def)
    ultimately show ?thesis by (rule that)
  next
    case False
    then have "\<not> (w \<noteq> 1 \<and> l r w = (0, 0, 0))" by (auto simp: idle_def)
    then obtain a e where p: "part l r w a e" "in_matrix (length A) (length B) r a" "in_matrix (length A) (length B) r e"
      using round w(1) unfolding round_ok_def by blast
    then have l: "l (rounds s w) w = (int r - a, a, e)" "a \<le> e" by (simp_all add: part_def r_def)
    show ?thesis
    proof (cases "int k + a \<le> e")
      case True
      define y where "y = nat (a + int k)"
      have y: "int y = a + int k" using p(2) by (simp add: y_def in_matrix_def)
      have ym: "in_matrix (length A) (length B) r (int y)" using in_matrix_between [OF p(2,3)] True y by simp
      have before: "\<forall>q<r. filled A B (cache s) q"
        using filled_before [OF bar cells] working_cur [OF bar w] ok r by (simp add: parts_ok_def r_def)
      have "fill_cell A B r (int y) (int r - int y) (cache s) = set_cell r y (lcs_len A B (Suc y) (Suc (r - y))) (cache s)"
        using fill_cell_value [OF before _ ym] cells by (simp add: cells_ok_def)
      then have c: "fill_cell A B r (a + int k) (int r - a - int k) (cache s) = set_cell r y (lcs_len A B (Suc y) (Suc (r - y))) (cache s)"
        by (simp add: y algebra_simps)
      let ?s1 = "goto w (Work (Suc k)) (s\<lparr>cache := set_cell r y (lcs_len A B (Suc y) (Suc (r - y))) (cache s)\<rparr>)"
      have "res = Inr ?s1" using step w(2) r False True l c by (simp add: worker_step_def Let_def r_def [symmetric])
      moreover have "cells_ok T A B l ?s1"
        by (rule cells_fill [OF cells w, where y = y]) (use p(1) y ym in \<open>simp_all add: r_def goto_def\<close>)
      ultimately show ?thesis by (rule that)
    next
      case past: False
      have "res = Inr (goto w Clear s)" using step w(2) r False past l by (simp add: worker_step_def Let_def r_def [symmetric])
      moreover have "cells_ok T A B l (goto w Clear s)"
        using past part_fun [OF p(1)] w(2) by (intro cells_move [OF cells, where w = w]) (auto simp: goto_def r_def [symmetric])
      ultimately show ?thesis by (rule that)
    qed
  qed
qed

lemma cells_worker:
  assumes ok: "parts_ok T A B l" and inv: "par_inv T A B l s" and w: "w \<in> {1..T}"
    and step: "worker_step T A B l w s = Some res"
  obtains s1 where "res = Inr s1" "cells_ok T A B l s1"
proof (cases "\<exists>k. points s w = Work k")
  case True
  then show ?thesis using cells_work [OF ok inv w _ step] that by blast
next
  case other: False
  have cells: "cells_ok T A B l s" using inv by (simp add: par_inv_def)
  show ?thesis
  proof (cases "points s w = Await")
    case True
    then have "res = Inr (goto w (Work 0) (s\<lparr>rounds := (rounds s)(w := Suc (rounds s w))\<rparr>))"
      using step by (simp add: worker_step_def Let_def split: if_splits)
    moreover have "cells_ok T A B l (goto w (Work 0) (s\<lparr>rounds := (rounds s)(w := Suc (rounds s w))\<rparr>))"
      using True by (intro cells_next_round [OF cells, where w = w]) (simp_all add: goto_def)
    ultimately show ?thesis by (rule that)
  next
    case False
    then obtain s1 p where "res = Inr s1" "cache s1 = cache s" "points s1 = (points s)(w := p)" "rounds s1 = rounds s"
      using step other by (cases "points s w") (auto simp: worker_step_def Let_def goto_def split: if_splits)
    then show ?thesis using other cells_move [OF cells, of s1 w p] that by blast
  qed
qed

lemma rounds_worker:
  assumes "worker_step T A B l w s = Some (Inr s1)"
  shows "\<exists>p. points s1 = (points s)(w := p) \<and> (rounds s1 = rounds s \<or> rounds s1 = (rounds s)(w := Suc (rounds s w)) \<and> p = Work 0)"
  using assms by (cases "points s w") (auto simp: worker_step_def Let_def goto_def split: if_splits prod.splits)

lemma par_inv_step:
  assumes ok: "parts_ok T A B l" and inv: "par_inv T A B l s" and w: "w \<in> {1..T}" and step: "worker_step T A B l w s = Some res"
  obtains s1 where "res = Inr s1" "par_inv T A B l s1"
proof -
  obtain s1 where s1: "res = Inr s1" "cells_ok T A B l s1" by (rule cells_worker [OF ok inv w step])
  have "barrier T s1"
    using inv ok w step s1(1) barrier_first [of T s A B l s1] barrier_follower [of T s w A B l s1]
    by (cases "w = 1") (auto simp: par_inv_def parts_ok_def)
  moreover have "rounds s1 v < length A + length B - 1 \<or> rounds s1 v = length A + length B - 1 \<and> points s1 v = Work 0"
    if "v \<in> {1..T}" for v
    using rounds_worker [OF step [unfolded s1(1)]] step_running [OF step] inv that by (cases "v = w") (auto simp: par_inv_def)
  ultimately show ?thesis using that s1 by (simp add: par_inv_def)
qed

lemma par_inv_run:
  assumes ok: "parts_ok T A B l"
  shows "par_run T A B l par_init s \<Longrightarrow> par_inv T A B l s"
proof (induction rule: par_run.induct)
  case par_start
  show ?case using barrier_init cells_init by (simp add: par_inv_def) (auto simp: par_init_def)
next
  case (par_more s1 s2)
  from par_more.hyps(2) show ?case
    by (cases rule: par_step.cases) (use par_inv_step [OF ok par_more.IH] in force)
qed

lemma prepare_parts: "1 \<le> T \<Longrightarrow> A \<noteq> [] \<Longrightarrow> B \<noteq> [] \<Longrightarrow> parts_ok T A B (prepare T (length A) (length B))"
  using prepare_ok [of T "length A" "length B"] by (cases A; cases B) (auto simp: parts_ok_def)

lemma over_result:
  assumes ok: "parts_ok T A B l" and inv: "par_inv T A B l s" and over: "all_over T A B s" and AB: "A \<noteq> []" "B \<noteq> []"
  shows "par_result A B s = lcs_len A B (length A) (length B)"
proof -
  obtain n m where nm: "length A = Suc n" "length B = Suc m" using AB by (metis length_0_conv not0_implies_Suc)
  let ?r = "n + m"
  have r: "?r < length A + length B - 1" by (simp add: nm)
  have "in_matrix (length A) (length B) ?r (int n)" by (simp add: in_matrix_def nm)
  then obtain w a e where w: "w \<in> {1..T}" "\<not> idle l ?r w" "part l ?r w a e" "a \<le> int n" "int n \<le> e"
    using busy_cover [of T "length A" "length B" l ?r] ok r unfolding parts_ok_def by blast
  then have "done_cell (length A + length B - 1) l s w ?r n"
    using r over unfolding done_cell_def all_over_def by (metis)
  then have "cache s ?r n = lcs_len A B (Suc n) (Suc (?r - n))" using inv w(1) by (simp add: par_inv_def cells_ok_def del: lcs_len.simps)
  then show ?thesis by (simp add: par_result_def nm del: lcs_len.simps)
qed

text \<open>A worker that makes no step has no rounds left, or waits.\<close>

lemma no_step:
  assumes "worker_step T A B l w s = None" and "rounds s w < length A + length B - 1"
  shows "(points s w = Gather \<and> finished s < T) \<or> (points s w = Await \<and> \<not> can_run s (w - 1))"
  using assms by (cases "points s w") (auto simp: worker_step_def Let_def split: if_splits prod.splits)

lemma stuck_over:
  assumes T: "1 \<le> T" and inv: "par_inv T A B l s" and stuck: "\<forall>w\<in>{1..T}. worker_step T A B l w s = None"
  shows "all_over T A B s"
proof -
  let ?n = "length A + length B - 1"
  have bar: "barrier T s" and le: "\<forall>w\<in>{1..T}. rounds s w < ?n \<or> rounds s w = ?n \<and> points s w = Work 0"
    using inv by (simp_all add: par_inv_def)
  have fol: "follower s w" if "w \<in> {2..T}" for w using bar that by (simp add: barrier_def)
  have wait: "(points s w = Gather \<and> finished s < T) \<or> (points s w = Await \<and> \<not> can_run s (w - 1))"
    if "w \<in> {1..T}" "rounds s w < ?n" for w using no_step stuck that by blast
  show ?thesis
  proof (cases "rounds s 1 < ?n")
    case True
    have "points s 1 = Gather" "finished s < T" using wait [of 1] True T bar by (auto simp: barrier_def)
    moreover have "arrived s w" if w: "w \<in> {2..T}" for w
    proof -
      have c: "cur s = rounds s 1" "\<not> pending s w" using \<open>points s 1 = Gather\<close> by (simp_all add: cur_def pending_def)
      then have eq: "rounds s w + (if granted s w then 1 else 0) = cur s" using fol [OF w] by (simp add: follower_def)
      then have lt: "rounds s w < ?n" using c True by simp
      have "points s w = Await \<and> \<not> can_run s (w - 1)" using wait [OF _ lt] w fol [OF w] by (auto simp: follower_def)
      then show ?thesis using eq by (simp add: arrived_def granted_def)
    qed
    then have "{w \<in> {2..T}. arrived s w} = {2..T}" by blast
    ultimately have False using bar T by (simp add: barrier_def)
    then show ?thesis ..
  next
    case False
    then have last: "rounds s 1 = ?n" "points s 1 = Work 0" using bspec [OF le, of 1] T by simp_all
    have "rounds s w = ?n" if w: "w \<in> {2..T}" for w
    proof (rule ccontr)
      assume "rounds s w \<noteq> ?n"
      then have lt: "rounds s w < ?n" using bspec [OF le, of w] w by simp
      have "points s w = Await" "\<not> can_run s (w - 1)" using wait [OF _ lt] w fol [OF w] by (auto simp: follower_def)
      then show False using fol [OF w] lt last by (simp add: follower_def granted_def pending_def cur_def)
    qed
    moreover have "w = 1 \<or> w \<in> {2..T}" if "w \<in> {1..T}" for w using that by auto
    ultimately show ?thesis using last(1) unfolding all_over_def by blast
  qed
qed


text \<open>A run given by the order in which the workers make their steps.\<close>

fun par_sched :: "nat \<Rightarrow> string \<Rightarrow> string \<Rightarrow> todo \<Rightarrow> nat list \<Rightarrow> par \<Rightarrow> par option" where
  "par_sched T A B l [] s = Some s"
| "par_sched T A B l (w # ws) s =
    (if 1 \<le> w \<and> w \<le> T then case worker_step T A B l w s of Some (Inr s1) \<Rightarrow> par_sched T A B l ws s1 | _ \<Rightarrow> None else None)"

lemma par_run_trans: "par_run T A B l s1 s2 \<Longrightarrow> par_run T A B l s s1 \<Longrightarrow> par_run T A B l s s2"
  by (induction rule: par_run.induct) (auto intro: par_run.intros)

lemma par_sched_run: "par_sched T A B l ws s = Some s2 \<Longrightarrow> par_run T A B l s s2"
proof (induction ws arbitrary: s)
  case Nil
  then show ?case by (simp add: par_start)
next
  case (Cons w ws)
  then obtain s1 where "1 \<le> w" "w \<le> T" "worker_step T A B l w s = Some (Inr s1)" "par_run T A B l s1 s2"
    by (auto split: if_splits option.splits sum.splits)
  then show ?case using par_run_trans [of T A B l s1 s2 s] by (blast intro: par_run.intros par_step.intros)
qed

text \<open>Two workers and texts of one character: the second worker is idle and waits for the first.\<close>

definition par_example :: par where
  "par_example = the (par_sched 2 ''a'' ''a'' (prepare 2 1 1) [1, 2, 1, 2, 2, 1, 1, 1, 1, 1, 1, 2, 1, 1] par_init)"

lemmas par_eval = worker_step_def goto_def idle_def fill_cell_def prepare_def prepare_round_def par_init_def set_cell_def Let_def

lemma par_example_run: "par_sched 2 ''a'' ''a'' (prepare 2 1 1) [1, 2, 1, 2, 2, 1, 1, 1, 1, 1, 1, 2, 1, 1] par_init = Some par_example"
  unfolding par_example_def by (simp add: par_eval numeral_2_eq_2)

lemma par_example_over: "rounds par_example 1 = 1" "rounds par_example 2 = 1"
  unfolding par_example_def by (simp_all add: par_eval numeral_2_eq_2)


section \<open>Every run ends\<close>

text \<open>The steps a worker has left in its round, and in all its rounds.\<close>

definition steps_left :: "nat \<Rightarrow> todo \<Rightarrow> nat \<Rightarrow> nat \<Rightarrow> point \<Rightarrow> nat" where
  "steps_left T l r w p = (case p of
     Work k \<Rightarrow> T + 7 + nat (snd (snd (l r w)) + 1 - fst (snd (l r w)) - int k)
   | Clear \<Rightarrow> T + 6 | Count \<Rightarrow> T + 5 | Gather \<Rightarrow> T + 4 | Reset \<Rightarrow> T + 3 | Grant k \<Rightarrow> 2 + (T - k) | Await \<Rightarrow> 1)"

definition worker_left :: "nat \<Rightarrow> nat \<Rightarrow> todo \<Rightarrow> nat \<Rightarrow> par \<Rightarrow> nat" where
  "worker_left n T l w s = (if rounds s w < n
     then steps_left T l (rounds s w) w (points s w) + (\<Sum>r\<in>{Suc (rounds s w)..<n}. steps_left T l r w (Work 0)) else 0)"

lemma worker_left_less:
  assumes "worker_step T A B l w s = Some (Inr s1)"
  shows "worker_left (length A + length B - 1) T l w s1 < worker_left (length A + length B - 1) T l w s"
proof -
  let ?n = "length A + length B - 1"
  have r: "rounds s w < ?n" by (rule step_running [OF assms])
  show ?thesis
  proof (cases "points s w = Await")
    case True
    then have s1: "s1 = goto w (Work 0) (s\<lparr>rounds := (rounds s)(w := Suc (rounds s w))\<rparr>)"
      using assms by (simp add: worker_step_def Let_def split: if_splits)
    have "(\<Sum>r\<in>{Suc (rounds s w)..<?n}. steps_left T l r w (Work 0)) = worker_left ?n T l w s1"
      by (cases "Suc (rounds s w) < ?n") (simp_all add: worker_left_def s1 goto_def sum.atLeast_Suc_lessThan)
    then show ?thesis using r True by (simp add: worker_left_def [of _ _ _ _ s] steps_left_def [of _ _ _ _ Await])
  next
    case False
    then have same: "rounds s1 w = rounds s w" and less: "steps_left T l (rounds s w) w (points s1 w) < steps_left T l (rounds s w) w (points s w)"
      using assms by (cases "points s w"; auto simp: worker_step_def Let_def goto_def steps_left_def idle_def split: if_splits prod.splits)+
    then show ?thesis using r by (simp add: worker_left_def)
  qed
qed

lemma worker_left_other:
  assumes "worker_step T A B l w s = Some (Inr s1)" and "v \<noteq> w"
  shows "worker_left n T l v s1 = worker_left n T l v s"
proof -
  have "points s1 v = points s v" "rounds s1 v = rounds s v" using rounds_worker [OF assms(1)] assms(2) by auto
  then show ?thesis by (simp add: worker_left_def)
qed

text \<open>
  C33: the parallel workers make finitely many steps, whatever the parts they are given and however
  their steps interleave: there is no infinite sequence of steps (a loop that waits makes none while
  its condition does not hold), even from a state that no run reaches.
\<close>

theorem plcs_parallel_terminates: "wf {(s1, s). par_step T A B l s (Inr s1)}"
proof (rule wf_subset [OF wf_measure])
  let ?n = "length A + length B - 1"
  show "{(s1, s). par_step T A B l s (Inr s1)} \<subseteq> measure (\<lambda>s. \<Sum>w\<in>{1..T}. worker_left ?n T l w s)"
  proof clarify
    fix s1 s assume "par_step T A B l s (Inr s1)"
    then obtain w where w: "w \<in> {1..T}" and step: "worker_step T A B l w s = Some (Inr s1)" by (auto elim: par_stepE)
    have le: "worker_left ?n T l v s1 \<le> worker_left ?n T l v s" for v
      using worker_left_less [OF step] worker_left_other [OF step, of v ?n] by (cases "v = w") auto
    have "(\<Sum>w\<in>{1..T}. worker_left ?n T l w s1) < (\<Sum>w\<in>{1..T}. worker_left ?n T l w s)"
      by (rule sum_strict_mono_ex1) (use w le worker_left_less [OF step] in auto)
    then show "(s1, s) \<in> measure (\<lambda>s. \<Sum>w\<in>{1..T}. worker_left ?n T l w s)" by simp
  qed
qed

end
