(* ===== verification/Pstree.thy ===== *)
theory Pstree
  imports JYY_Prelude "HOL-Library.Char_ord"
begin

text \<open>
  The process tree (\<open>pstree/pstree.c\<close>). What the operating system shows under \<open>/proc\<close> is an
  argument: the entries of the directory in the order \<open>readdir\<close> gives them, each with the answer of
  \<open>fstatat\<close> (None if it fails, else whether it is a directory), and the content of a file by its path
  (None if \<open>fopen\<close> fails). Texts hold no character 0 but the one that \<open>fgets\<close> may read.
\<close>

section \<open>Numbers\<close>

fun is_num :: "string \<Rightarrow> bool" where
  "is_num [] = True"
| "is_num (c # cs) = (if of_char c < (48::nat) \<or> of_char c > (57::nat) then False else is_num cs)"

text \<open>
  \<open>sscanf\<close> with \<open>%d\<close>: white space, a sign, digits; None is a failure to match. A number that does
  not fit an \<open>int\<close> is undefined.
\<close>

definition is_digit :: "char \<Rightarrow> bool" where
  "is_digit c \<longleftrightarrow> 48 \<le> (of_char c :: nat) \<and> (of_char c :: nat) \<le> 57"

definition is_space :: "char \<Rightarrow> bool" where
  "is_space c \<longleftrightarrow> (of_char c :: nat) = 32 \<or> 9 \<le> (of_char c :: nat) \<and> (of_char c :: nat) \<le> 13"

fun number :: "int \<Rightarrow> string \<Rightarrow> int" where
  "number n [] = n"
| "number n (c # cs) = (if is_digit c then number (10 * n + (of_char c - 48)) cs else n)"

definition scan_int :: "string \<Rightarrow> int option res" where
  "scan_int s =
    (let s1 = dropWhile is_space s;
         (sign, s2) = (case s1 of [] \<Rightarrow> (1, s1) | c # cs \<Rightarrow>
            if c = CHR ''-'' then (-1, cs) else if c = CHR ''+'' then (1, cs) else (1, s1))
     in case s2 of
          [] \<Rightarrow> Inr None
        | c # cs \<Rightarrow>
            if \<not> is_digit c then Inr None
            else let n = sign * number 0 s2 in if n < - (2 ^ 31) \<or> 2 ^ 31 \<le> n then Inl Undefined else Inr (Some n))"

section \<open>The status of a process\<close>

text \<open>\<open>fgets\<close> reads at most \<open>n\<close> characters, up to the end of the line.\<close>

fun fgets :: "nat \<Rightarrow> string \<Rightarrow> string \<times> string" where
  "fgets 0 cs = ([], cs)"
| "fgets (Suc n) [] = ([], [])"
| "fgets (Suc n) (c # cs) = (if c = CHR 0x0A then ([c], cs) else case fgets n cs of (l, rest) \<Rightarrow> (c # l, rest))"

lemma fgets_le: "fgets n cs = (l, rest) \<Longrightarrow> length rest \<le> length cs"
  by (induction n cs arbitrary: l rest rule: fgets.induct) (force split: if_splits prod.splits)+

lemma fgets_shorter: "fgets (Suc n) (c # cs) = (l, rest) \<Longrightarrow> length rest \<le> length cs"
  using fgets_le by (auto split: if_splits prod.splits)

text \<open>The second token that \<open>strtok\<close> gives with the tabulator, when the first starts the text.\<close>

definition second_token :: "string \<Rightarrow> string option" where
  "second_token buffer =
    (case dropWhile (\<lambda>c. c = CHR 0x09) (dropWhile (\<lambda>c. c \<noteq> CHR 0x09) buffer) of
       [] \<Rightarrow> None | c # cs \<Rightarrow> Some (takeWhile (\<lambda>c. c \<noteq> CHR 0x09) (c # cs)))"

text \<open>
  The loop over the lines. \<open>ppid\<close> is None while the variable has no value, \<open>cur_name\<close> is None
  until the line of the name has been read.
\<close>

function find_loop :: "string \<Rightarrow> int option \<Rightarrow> string option \<Rightarrow> bool \<Rightarrow> (int option \<times> string option) res" where
  "find_loop [] ppid cur_name found = Inr (ppid, None)"
| "find_loop (c # cs) ppid cur_name found =
    (let (line, rest) = fgets 49 (c # cs); buffer = takeWhile (\<lambda>c. c \<noteq> CHR 0x00) line in
     res_bind
       (if take 5 buffer = ''Name:'' then
          (case second_token buffer of None \<Rightarrow> Inl Undefined | Some token \<Rightarrow> Inr (Some (butlast token)))
        else Inr cur_name) (\<lambda>cur_name1.
     res_bind
       (if take 5 buffer = ''PPid:'' then
          (case second_token buffer of None \<Rightarrow> Inl Undefined | Some token \<Rightarrow>
             res_bind (scan_int (butlast token)) (\<lambda>v. Inr (case v of None \<Rightarrow> ppid | Some p \<Rightarrow> Some p, True)))
        else Inr (ppid, found)) (\<lambda>(ppid1, found1).
     if found1 \<and> cur_name1 \<noteq> None then Inr (ppid1, cur_name1) else find_loop rest ppid1 cur_name1 found1)))"
  by pat_completeness auto

termination find_loop
proof (relation "measure (\<lambda>(cs, _, _, _). length cs)", simp, goal_cases)
  case (1 c cs ppid cur_name found x line rest buffer cur_name1 v ppid1 found1)
  then have "fgets (Suc 48) (c # cs) = (line, rest)" by (simp add: eval_nat_numeral)
  then show ?case using fgets_shorter [of 48 c cs line rest] by auto
qed

section \<open>The tree\<close>

definition MAX_PID :: int where "MAX_PID = 4194304"

record pstree =
  fa_node :: "int \<Rightarrow> int list"
  names :: "int \<Rightarrow> string"

definition pid_ok :: "int \<Rightarrow> bool" where
  "pid_ok p \<longleftrightarrow> 0 \<le> p \<and> p < MAX_PID"

definition find_fpid_and_name :: "(string \<Rightarrow> string option) \<Rightarrow> string \<Rightarrow> int \<Rightarrow> pstree \<Rightarrow> (int \<times> pstree) res" where
  "find_fpid_and_name files path pid s =
    (case files (path @ ''/status'') of
       None \<Rightarrow> Inl Undefined
     | Some content \<Rightarrow>
         res_bind (find_loop content None None False) (\<lambda>(ppid, cur_name).
         res_bind
           (case cur_name of None \<Rightarrow> Inr s
            | Some n \<Rightarrow> if pid_ok pid then Inr (s\<lparr>names := (names s)(pid := n)\<rparr>) else Inl Undefined) (\<lambda>s1.
         case ppid of None \<Rightarrow> Inl Undefined | Some p \<Rightarrow> Inr (p, s1))))"

text \<open>The loop of \<open>add_edge\<close>; the first entry always stays the first.\<close>

fun insert_neighbour :: "int \<Rightarrow> int list \<Rightarrow> int list" where
  "insert_neighbour pid [] = [pid]"
| "insert_neighbour pid [x] = [x, pid]"
| "insert_neighbour pid (x # y # r) =
    (if x \<le> pid \<and> y \<ge> pid then x # pid # y # r else x # insert_neighbour pid (y # r))"

definition add_edge :: "int \<Rightarrow> int \<Rightarrow> pstree \<Rightarrow> pstree res" where
  "add_edge ppid pid s =
    (if pid_ok ppid then Inr (s\<lparr>fa_node := (fa_node s)(ppid := insert_neighbour pid (fa_node s ppid))\<rparr>) else Inl Undefined)"

fun build_tree :: "(string \<Rightarrow> string option) \<Rightarrow> (string \<times> bool option) list \<Rightarrow> pstree \<Rightarrow> pstree res" where
  "build_tree files [] s = Inr s"
| "build_tree files ((d_name, st) # dents) s =
    (if d_name = ''.'' \<or> d_name = ''..'' then build_tree files dents s
     else if st = None then build_tree files dents s
     else if st = Some True \<and> is_num d_name then
       res_bind (scan_int d_name) (\<lambda>v.
       let pid = (case v of None \<Rightarrow> 0 | Some p \<Rightarrow> p) in
       res_bind (find_fpid_and_name files (''/proc/'' @ d_name) pid s) (\<lambda>(ppid, s1).
       res_bind (add_edge ppid pid s1) (build_tree files dents)))
     else build_tree files dents s)"

section \<open>Printing\<close>

text \<open>The loop over the children: what is printed for one after the other.\<close>

fun print_children :: "(int \<Rightarrow> string res) \<Rightarrow> int list \<Rightarrow> string res" where
  "print_children pr [] = Inr []"
| "print_children pr (p # ps) = res_bind (pr p) (\<lambda>a. res_bind (print_children pr ps) (\<lambda>b. Inr (a @ b)))"

definition tree_line :: "bool \<Rightarrow> (int \<Rightarrow> string) \<Rightarrow> int \<Rightarrow> nat \<Rightarrow> string" where
  "tree_line if_print_line_number nm pid count =
    concat (replicate count ''  '') @ nm pid @ (if if_print_line_number then ''('' @ decimal (nat pid) @ '')'' else []) @ [CHR 0x0A]"

text \<open>The fuel bounds the depth of the recursion, which does not end on a cycle.\<close>

fun tree_print :: "nat \<Rightarrow> pstree \<Rightarrow> bool \<Rightarrow> int \<Rightarrow> nat \<Rightarrow> string res" where
  "tree_print 0 s if_print_line_number pid count = Inl Hang"
| "tree_print (Suc fuel) s if_print_line_number pid count =
    (if \<not> pid_ok pid then Inl Undefined
     else res_bind (print_children (\<lambda>p. tree_print fuel s if_print_line_number p (count + 1)) (fa_node s pid)) (\<lambda>sub.
       Inr (tree_line if_print_line_number (names s) pid count @ sub)))"

definition thread_tree_print :: "nat \<Rightarrow> (string \<Rightarrow> string option) \<Rightarrow> (string \<times> bool option) list \<Rightarrow> bool \<Rightarrow> string res" where
  "thread_tree_print fuel files dents if_print_line_number =
    res_bind (build_tree files dents \<lparr>fa_node = (\<lambda>_. []), names = (\<lambda>_. [])\<rparr>) (\<lambda>s.
      tree_print fuel s if_print_line_number 1 0)"

text \<open>
  The options: what has gone to the standard output, what has gone to the standard error, and
  whether to go on (and then whether to print numbers).
\<close>

definition is_opt :: "string \<Rightarrow> string \<Rightarrow> string \<Rightarrow> bool" where
  "is_opt a short long \<longleftrightarrow> a = short \<or> a = long"

definition version_text :: string where
  "version_text = ''pstree (PSmisc) APPLETREE SPECIAL VERSION'' @ [CHR 0x0A]"

definition sort_text :: string where "sort_text = ''here'' @ [CHR 0x0A]"

fun parse_args :: "string list \<Rightarrow> bool \<Rightarrow> string \<Rightarrow> string \<times> string \<times> bool option" where
  "parse_args [] is_p out = (out, [], Some is_p)"
| "parse_args (a # as) is_p out =
    (if is_opt a ''-V'' ''--version'' then (out, version_text, None)
     else if is_opt a ''-n'' ''--numeric-sort'' then parse_args as is_p (out @ sort_text)
     else if is_opt a ''-p'' ''--show-pids'' then parse_args as True out
     else (out, [], None))"

definition pstree_main :: "nat \<Rightarrow> (string \<Rightarrow> string option) \<Rightarrow> (string \<times> bool option) list \<Rightarrow> string list \<Rightarrow> (string \<times> string) res" where
  "pstree_main fuel files dents args =
    (case parse_args args False [] of
       (out, err, None) \<Rightarrow> Inr (out, err)
     | (out, err, Some is_p) \<Rightarrow> res_bind (thread_tree_print fuel files dents is_p) (\<lambda>t. Inr (out @ t, err)))"

section \<open>What the tree holds\<close>

text \<open>The names of the directories of processes, the number of one, and the number of its parent.\<close>

definition procs :: "(string \<times> bool option) list \<Rightarrow> string list" where
  "procs dents = map fst (filter (\<lambda>(d, st). d \<noteq> ''.'' \<and> d \<noteq> ''..'' \<and> st = Some True \<and> is_num d) dents)"

definition pid_of :: "string \<Rightarrow> int" where
  "pid_of d = (case scan_int d of Inr (Some p) \<Rightarrow> p | _ \<Rightarrow> 0)"

definition parent_of :: "(string \<Rightarrow> string option) \<Rightarrow> string \<Rightarrow> int option" where
  "parent_of files d = (case files (''/proc/'' @ d @ ''/status'') of None \<Rightarrow> None | Some content \<Rightarrow>
     (case find_loop content None None False of Inr (p, n) \<Rightarrow> p | _ \<Rightarrow> None))"

definition child_rel :: "(string \<Rightarrow> string option) \<Rightarrow> (string \<times> bool option) list \<Rightarrow> (int \<times> int) set" where
  "child_rel files dents = {(p, q). \<exists>d\<in>set (procs dents). pid_of d = q \<and> parent_of files d = Some p}"

lemma set_insert_neighbour [simp]: "set (insert_neighbour q xs) = insert q (set xs)"
  by (induction q xs rule: insert_neighbour.induct) auto

lemma distinct_insert_neighbour [simp]: "q \<notin> set xs \<Longrightarrow> distinct (insert_neighbour q xs) = distinct xs"
  by (induction q xs rule: insert_neighbour.induct) auto

lemma build_process:
  assumes "build_tree files ((d, st) # dents) s0 = Inr s" and "d \<noteq> ''.''" "d \<noteq> ''..''" "st = Some True" "is_num d"
  obtains p s1 where "parent_of files d = Some p" "pid_ok p" "fa_node s1 = (fa_node s0)(p := insert_neighbour (pid_of d) (fa_node s0 p))"
    "build_tree files dents s1 = Inr s"
proof -
  obtain v p s2 s1 where v: "scan_int d = Inr v"
    and f: "find_fpid_and_name files (''/proc/'' @ d) (case v of None \<Rightarrow> 0 | Some p \<Rightarrow> p) s0 = Inr (p, s2)"
    and e: "add_edge p (case v of None \<Rightarrow> 0 | Some p \<Rightarrow> p) s2 = Inr s1" and b: "build_tree files dents s1 = Inr s"
    using assms by (auto simp: res_bind_eq_Inr Let_def)
  have pid: "(case v of None \<Rightarrow> 0 | Some p \<Rightarrow> p) = pid_of d" using v by (simp add: pid_of_def split: option.split)
  have par: "parent_of files d = Some p" and fa: "fa_node s2 = fa_node s0"
    using f by (auto simp: find_fpid_and_name_def parent_of_def res_bind_eq_Inr split: option.splits if_splits)
  have "pid_ok p" "fa_node s1 = (fa_node s0)(p := insert_neighbour (pid_of d) (fa_node s0 p))"
    using e fa pid by (auto simp: add_edge_def split: if_splits)
  then show ?thesis using that par b by blast
qed

lemma build_tree_children:
  assumes "build_tree files dents s0 = Inr s" and "distinct (map pid_of (procs dents))"
    and "\<forall>p. distinct (fa_node s0 p) \<and> (\<forall>d\<in>set (procs dents). pid_of d \<notin> set (fa_node s0 p))"
  shows "distinct (fa_node s p) \<and> set (fa_node s p) = set (fa_node s0 p) \<union> {q. (p, q) \<in> child_rel files dents}"
  using assms
proof (induction dents arbitrary: s0)
  case Nil
  then show ?case by (simp add: child_rel_def procs_def)
next
  case (Cons e dents)
  obtain d st where e: "e = (d, st)" by (cases e)
  show ?case
  proof (cases "d \<noteq> ''.'' \<and> d \<noteq> ''..'' \<and> st = Some True \<and> is_num d")
    case False
    then have same: "procs (e # dents) = procs dents" by (auto simp: procs_def e)
    then have "child_rel files (e # dents) = child_rel files dents" by (simp add: child_rel_def)
    moreover have "build_tree files dents s0 = Inr s" using Cons.prems(1) False by (auto simp: e split: if_splits)
    ultimately show ?thesis using Cons.IH [of s0] Cons.prems(2,3) same by simp
  next
    case True
    then have ps: "procs (e # dents) = d # procs dents" by (simp add: procs_def e)
    obtain p1 s1 where s1: "parent_of files d = Some p1" "fa_node s1 = (fa_node s0)(p1 := insert_neighbour (pid_of d) (fa_node s0 p1))"
        "build_tree files dents s1 = Inr s"
      using build_process [of files d st dents s0 s] Cons.prems(1) True unfolding e by metis
    have rel: "child_rel files (e # dents) = insert (p1, pid_of d) (child_rel files dents)"
      using s1(1) by (auto simp: child_rel_def ps)
    have new: "\<forall>p. pid_of d \<notin> set (fa_node s0 p)" "\<forall>x\<in>set (procs dents). pid_of x \<noteq> pid_of d"
      using Cons.prems(2,3) by (auto simp: ps) (metis imageI)
    have "\<forall>p. distinct (fa_node s1 p) \<and> (\<forall>x\<in>set (procs dents). pid_of x \<notin> set (fa_node s1 p))"
      using Cons.prems(3) new by (simp add: s1(2) ps)
    then have "distinct (fa_node s p) \<and> set (fa_node s p) = set (fa_node s1 p) \<union> {q. (p, q) \<in> child_rel files dents}"
      using Cons.IH [OF s1(3)] Cons.prems(2) by (simp add: ps)
    then show ?thesis using rel by (auto simp: s1(2))
  qed
qed

section \<open>What is printed\<close>

fun preorder :: "nat \<Rightarrow> (int \<Rightarrow> int list) \<Rightarrow> int \<Rightarrow> nat \<Rightarrow> (int \<times> nat) list" where
  "preorder 0 fa p d = []"
| "preorder (Suc n) fa p d = (p, d) # concat (map (\<lambda>q. preorder n fa q (Suc d)) (fa p))"

text \<open>A forest: every child has one parent and a greater rank, below \<open>N\<close>.\<close>

definition forest :: "(int \<times> int) set \<Rightarrow> (int \<Rightarrow> int list) \<Rightarrow> (int \<Rightarrow> nat) \<Rightarrow> nat \<Rightarrow> bool" where
  "forest R fa rank N \<longleftrightarrow> (\<forall>p. distinct (fa p) \<and> set (fa p) = {q. (p, q) \<in> R}) \<and> single_valued (R\<inverse>) \<and>
     (\<forall>p q. (p, q) \<in> R \<longrightarrow> rank p < rank q \<and> rank q < N \<and> pid_ok q)"

lemma print_children_all: "\<forall>q\<in>set qs. pr q = Inr (f q) \<Longrightarrow> print_children pr qs = Inr (concat (map f qs))"
  by (induction qs) auto

lemma map_concat_out: "concat (map f (concat (map g qs))) = concat (map (\<lambda>q. concat (map f (g q))) qs)"
  by (induction qs) auto

lemma tree_print_preorder:
  assumes f: "forest R (fa_node s) rank N"
  shows "pid_ok p \<Longrightarrow> rank p < N \<Longrightarrow> N \<le> rank p + n \<Longrightarrow>
    tree_print n s b p d = Inr (concat (map (\<lambda>(q, e). tree_line b (names s) q e) (preorder n (fa_node s) p d)))"
proof (induction n arbitrary: p d)
  case (Suc n)
  have "tree_print n s b q (d + 1) = Inr (concat (map (\<lambda>(q, e). tree_line b (names s) q e) (preorder n (fa_node s) q (Suc d))))"
    if "q \<in> set (fa_node s p)" for q
    using Suc.IH [of q "Suc d"] Suc.prems f that unfolding forest_def by fastforce
  then have "print_children (\<lambda>q. tree_print n s b q (d + 1)) (fa_node s p) =
      Inr (concat (map (\<lambda>q. concat (map (\<lambda>(q, e). tree_line b (names s) q e) (preorder n (fa_node s) q (Suc d)))) (fa_node s p)))"
    by (intro print_children_all) blast
  then show ?case using Suc.prems(1) by (simp add: map_concat_out)
qed simp

lemma preorder_members:
  assumes f: "forest R fa rank N"
  shows "rank p < N \<Longrightarrow> N \<le> rank p + n \<Longrightarrow> (q, e) \<in> set (preorder n fa p d) \<longleftrightarrow> (\<exists>k. e = d + k \<and> (p, q) \<in> R ^^ k)"
proof (induction n arbitrary: p d)
  case (Suc n)
  have sub: "(q, e) \<in> set (preorder n fa c (Suc d)) \<longleftrightarrow> (\<exists>k. e = Suc d + k \<and> (c, q) \<in> R ^^ k)" if "(p, c) \<in> R" for c
  proof -
    have "rank p < rank c \<and> rank c < N" using f that by (simp add: forest_def)
    then show ?thesis using Suc.IH [of c "Suc d"] Suc.prems by simp
  qed
  have "(q, e) \<in> set (preorder (Suc n) fa p d) \<longleftrightarrow> (q, e) = (p, d) \<or> (\<exists>c. (p, c) \<in> R \<and> (q, e) \<in> set (preorder n fa c (Suc d)))"
    using f by (auto simp: forest_def)
  also have "\<dots> \<longleftrightarrow> (q, e) = (p, d) \<or> (\<exists>c k. (p, c) \<in> R \<and> e = Suc d + k \<and> (c, q) \<in> R ^^ k)" using sub by blast
  also have "\<dots> \<longleftrightarrow> (\<exists>k. e = d + k \<and> (p, q) \<in> R ^^ k)"
  proof
    assume "(q, e) = (p, d) \<or> (\<exists>c k. (p, c) \<in> R \<and> e = Suc d + k \<and> (c, q) \<in> R ^^ k)"
    then show "\<exists>k. e = d + k \<and> (p, q) \<in> R ^^ k"
      by (elim disjE exE conjE) (rule exI [of _ 0], simp, metis add_Suc_shift relpow_Suc_I2)
  next
    assume "\<exists>k. e = d + k \<and> (p, q) \<in> R ^^ k"
    then obtain k where k: "e = d + k" "(p, q) \<in> R ^^ k" by blast
    show "(q, e) = (p, d) \<or> (\<exists>c k. (p, c) \<in> R \<and> e = Suc d + k \<and> (c, q) \<in> R ^^ k)"
    proof (cases k)
      case (Suc j)
      then obtain c where "(p, c) \<in> R" "(c, q) \<in> R ^^ j" using k(2) relpow_Suc_D2 by metis
      then show ?thesis using k(1) Suc by auto
    qed (use k in simp)
  qed
  finally show ?case .
qed simp

lemma rank_reach:
  assumes f: "forest R fa rank N"
  shows "(p, q) \<in> R\<^sup>* \<Longrightarrow> rank p \<le> rank q"
proof (induction rule: rtrancl_induct)
  case (step y z)
  then have "rank y < rank z" using f by (simp add: forest_def)
  then show ?case using step.IH by simp
qed simp

lemma siblings_disjoint:
  assumes f: "forest R fa rank N" and c: "(p, a) \<in> R" "(p, b) \<in> R" "a \<noteq> b" and q: "(a, q) \<in> R\<^sup>*"
  shows "(b, q) \<notin> R\<^sup>*"
proof
  assume q2: "(b, q) \<in> R\<^sup>*"
  have no: "(x, y) \<notin> R\<^sup>*" if xy: "(p, x) \<in> R" "(p, y) \<in> R" "x \<noteq> y" for x y
  proof
    assume "(x, y) \<in> R\<^sup>*"
    then obtain z where z: "(x, z) \<in> R\<^sup>*" "(z, y) \<in> R" using xy(3) by (metis rtranclE)
    then have "z = p" using f xy(2) by (auto simp: forest_def single_valued_def)
    then have "rank x \<le> rank p" using rank_reach [OF f z(1)] by simp
    moreover have "rank p < rank x" using f xy(1) by (simp add: forest_def)
    ultimately show False by simp
  qed
  have "(q, a) \<in> (R\<inverse>)\<^sup>*" "(q, b) \<in> (R\<inverse>)\<^sup>*" using q q2 by (simp_all add: rtrancl_converse)
  then have "(a, b) \<in> (R\<inverse>)\<^sup>* \<or> (b, a) \<in> (R\<inverse>)\<^sup>*"
    using f single_valued_confluent [of "R\<inverse>" q a b] by (simp add: forest_def)
  then show False using no [OF c] no [OF c(2,1)] c(3) by (auto simp: rtrancl_converse)
qed

lemma distinct_concat_map:
  "distinct qs \<Longrightarrow> (\<And>q. q \<in> set qs \<Longrightarrow> distinct (f q)) \<Longrightarrow>
   (\<And>a b. a \<in> set qs \<Longrightarrow> b \<in> set qs \<Longrightarrow> a \<noteq> b \<Longrightarrow> set (f a) \<inter> set (f b) = {}) \<Longrightarrow> distinct (concat (map f qs))"
proof (induction qs)
  case (Cons a qs)
  have "set (f a) \<inter> set (f b) = {}" if "b \<in> set qs" for b using Cons.prems(1) Cons.prems(3) [of a b] that by auto
  then show ?case using Cons by auto
qed simp

lemma preorder_distinct:
  assumes f: "forest R fa rank N"
  shows "rank p < N \<Longrightarrow> N \<le> rank p + n \<Longrightarrow> distinct (map fst (preorder n fa p d))"
proof (induction n arbitrary: p d)
  case (Suc n)
  have kids: "distinct (fa p)" "set (fa p) = {q. (p, q) \<in> R}" using f by (simp_all add: forest_def)
  have rk: "rank p < rank c \<and> rank c < N \<and> N \<le> rank c + n" if "(p, c) \<in> R" for c
    using f that Suc.prems unfolding forest_def by fastforce
  have sub: "fst ` set (preorder n fa c (Suc d)) = {q. (c, q) \<in> R\<^sup>*}" if "(p, c) \<in> R" for c
  proof -
    have "rank c < N" "N \<le> rank c + n" using rk [OF that] by simp_all
    then have mem: "(q, e) \<in> set (preorder n fa c (Suc d)) \<longleftrightarrow> (\<exists>k. e = Suc d + k \<and> (c, q) \<in> R ^^ k)" for q e
      by (rule preorder_members [OF f])
    show ?thesis using mem by (force simp: rtrancl_power)
  qed
  have "distinct (concat (map (\<lambda>c. map fst (preorder n fa c (Suc d))) (fa p)))"
  proof (rule distinct_concat_map [OF kids(1)])
    fix c assume "c \<in> set (fa p)"
    then show "distinct (map fst (preorder n fa c (Suc d)))" using Suc.IH rk kids(2) by simp
  next
    fix a b assume "a \<in> set (fa p)" "b \<in> set (fa p)" "a \<noteq> b"
    then show "set (map fst (preorder n fa a (Suc d))) \<inter> set (map fst (preorder n fa b (Suc d))) = {}"
      using siblings_disjoint [OF f, of p a b] kids(2) sub by auto
  qed
  moreover have "p \<notin> fst ` set (preorder n fa c (Suc d))" if "(p, c) \<in> R" for c
    using sub [OF that] rank_reach [OF f, of c p] rk [OF that] by auto
  ultimately show ?case using kids(2) by (auto simp: map_concat comp_def)
qed simp

lemma build_tree_forest:
  assumes built: "build_tree files dents \<lparr>fa_node = (\<lambda>_. []), names = nm\<rparr> = Inr s" and pids: "distinct (map pid_of (procs dents))"
    and rank: "\<forall>d\<in>set (procs dents). \<forall>p. parent_of files d = Some p \<longrightarrow> rank p < rank (pid_of d)"
    and ok: "\<forall>d\<in>set (procs dents). pid_ok (pid_of d) \<and> rank (pid_of d) < N"
  shows "forest (child_rel files dents) (fa_node s) rank N"
proof -
  have "distinct (fa_node s p) \<and> set (fa_node s p) = {q. (p, q) \<in> child_rel files dents}" for p
    using build_tree_children [OF built pids] by simp
  moreover have "single_valued ((child_rel files dents)\<inverse>)"
  proof (rule single_valuedI)
    fix q a b assume "(q, a) \<in> (child_rel files dents)\<inverse>" "(q, b) \<in> (child_rel files dents)\<inverse>"
    then obtain d e where "d \<in> set (procs dents)" "e \<in> set (procs dents)" "pid_of d = q" "pid_of e = q"
        "parent_of files d = Some a" "parent_of files e = Some b"
      by (auto simp: child_rel_def)
    moreover from this have "d = e" using pids by (metis distinct_map inj_onD)
    ultimately show "a = b" by simp
  qed
  ultimately show ?thesis using rank ok by (auto simp: forest_def child_rel_def)
qed

text \<open>
  C34: the tree of processes is printed whole and without repetition. When no two directories have
  the same number and the parents form no cycle, the output is one line for each process that
  descends from the process 1 and for that process itself, indented by its depth below it; no process has
  two lines. The fuel is enough when it exceeds the rank of every process.
\<close>

theorem pstree_prints_descendants:
  assumes built: "build_tree files dents \<lparr>fa_node = (\<lambda>_. []), names = (\<lambda>_. [])\<rparr> = Inr s"
    and pids: "distinct (map pid_of (procs dents))"
    and rank: "\<forall>d\<in>set (procs dents). \<forall>p. parent_of files d = Some p \<longrightarrow> rank p < rank (pid_of d)"
    and ok: "\<forall>d\<in>set (procs dents). pid_ok (pid_of d) \<and> rank (pid_of d) < fuel" and one: "rank 1 < fuel"
  shows "\<exists>ns. thread_tree_print fuel files dents show_pids = Inr (concat (map (\<lambda>(q, d). tree_line show_pids (names s) q d) ns)) \<and>
    distinct (map fst ns) \<and> (\<forall>q d. (q, d) \<in> set ns \<longleftrightarrow> (1, q) \<in> child_rel files dents ^^ d)"
proof -
  have f: "forest (child_rel files dents) (fa_node s) rank fuel" by (rule build_tree_forest [OF built pids rank ok])
  have "pid_ok 1" by (simp add: pid_ok_def MAX_PID_def)
  then have "thread_tree_print fuel files dents show_pids =
      Inr (concat (map (\<lambda>(q, e). tree_line show_pids (names s) q e) (preorder fuel (fa_node s) 1 0)))"
    using built tree_print_preorder [OF f _ one] by (simp add: thread_tree_print_def)
  moreover have "(q, d) \<in> set (preorder fuel (fa_node s) 1 0) \<longleftrightarrow> (1, q) \<in> child_rel files dents ^^ d" for q d
    using preorder_members [OF f one, of fuel q d 0] by simp
  moreover have "distinct (map fst (preorder fuel (fa_node s) 1 0))" using preorder_distinct [OF f one, of fuel 0] by simp
  ultimately show ?thesis by blast
qed

text \<open>Two processes, the second a child of the first.\<close>

definition status_1 :: string where
  "status_1 = ''Name:'' @ [CHR 0x09] @ ''init'' @ [CHR 0x0A] @ ''PPid:'' @ [CHR 0x09] @ ''0'' @ [CHR 0x0A]"

definition status_2 :: string where
  "status_2 = ''Name:'' @ [CHR 0x09] @ ''sh'' @ [CHR 0x0A] @ ''PPid:'' @ [CHR 0x09] @ ''1'' @ [CHR 0x0A]"

definition example_files :: "string \<Rightarrow> string option" where
  "example_files path =
    (if path = ''/proc/1/status'' then Some status_1 else if path = ''/proc/2/status'' then Some status_2 else None)"

definition example_dents :: "(string \<times> bool option) list" where
  "example_dents = [(''.'', Some True), (''..'', Some True), (''1'', Some True), (''2'', Some True), (''stat'', Some False)]"

definition example_tree :: pstree where
  "example_tree = \<lparr>fa_node = (\<lambda>_. [])(0 := [1], 1 := [2]), names = (\<lambda>_. [])(1 := ''init'', 2 := ''sh'')\<rparr>"

lemma example_procs: "procs example_dents = [''1'', ''2'']"
  by (simp add: procs_def example_dents_def)

lemma example_pids: "pid_of ''1'' = 1" "pid_of ''2'' = 2"
  by (simp_all add: pid_of_def scan_int_def is_space_def is_digit_def)

lemma example_status:
  "find_loop status_1 None None False = Inr (Some 0, Some ''init'')"
  "find_loop status_2 None None False = Inr (Some 1, Some ''sh'')"
  by code_simp+

lemma example_paths: "example_files ''/proc/1/status'' = Some status_1" "example_files ''/proc/2/status'' = Some status_2"
  by (simp_all add: example_files_def)

lemma example_parents: "parent_of example_files ''1'' = Some 0" "parent_of example_files ''2'' = Some 1"
  by (simp_all add: parent_of_def example_paths example_status)

lemma example_built: "build_tree example_files example_dents \<lparr>fa_node = (\<lambda>_. []), names = (\<lambda>_. [])\<rparr> = Inr example_tree"
proof -
  have scan: "scan_int ''1'' = Inr (Some 1)" "scan_int ''2'' = Inr (Some 2)" by code_simp+
  have one: "find_fpid_and_name example_files ''/proc/1'' 1 s = Inr (0, s\<lparr>names := (names s)(1 := ''init'')\<rparr>)"
    and two: "find_fpid_and_name example_files ''/proc/2'' 2 s = Inr (1, s\<lparr>names := (names s)(2 := ''sh'')\<rparr>)" for s
    by (simp_all add: find_fpid_and_name_def example_paths example_status pid_ok_def MAX_PID_def)
  show ?thesis
    using scan one two by (simp add: example_dents_def add_edge_def pid_ok_def MAX_PID_def example_tree_def)
qed

theorem pstree_prints_descendants_witness:
  "\<exists>ns. thread_tree_print 3 example_files example_dents True =
      Inr (concat (map (\<lambda>(q, d). tree_line True (names example_tree) q d) ns)) \<and> (2, 1) \<in> set ns"
proof -
  have "(1, 2) \<in> child_rel example_files example_dents ^^ 1"
    using example_parents example_pids by (auto simp: child_rel_def example_procs)
  moreover have "\<exists>ns. thread_tree_print 3 example_files example_dents True =
      Inr (concat (map (\<lambda>(q, d). tree_line True (names example_tree) q d) ns)) \<and> distinct (map fst ns) \<and>
      (\<forall>q d. (q, d) \<in> set ns \<longleftrightarrow> (1, q) \<in> child_rel example_files example_dents ^^ d)"
    by (rule pstree_prints_descendants [OF example_built, where rank = nat])
      (simp_all add: example_parents example_pids example_procs pid_ok_def MAX_PID_def)
  ultimately show ?thesis by metis
qed

end
