(* ===== verification/Spec2Isabelle.thy ===== *)
theory Spec2Isabelle
  imports JYY_Prelude Lock_Align Buddy_Props Pmm Klib_String Klib_Stdio Cte Kmt_Sched Kmt_Sem Trap Uproc Pf_Props Ring Dev_Input Dev_Video Tty_Line Tty_Screen Devices Fatree Plcs_Fill Pstree
begin

text \<open>
  Verification of a small multiprocessor operating system for x86-64 on QEMU (\<open>src/kernel\<close>,
  \<open>src/abstract-machine\<close>) and of four programs of the same repository that run on a host
  (\<open>src/frecov\<close>, \<open>src/fatree.c\<close>, \<open>src/plcs\<close>, \<open>src/pstree\<close>).

  \<^bold>\<open>The program.\<close> The machine layer (\<open>abstract-machine\<close>) saves and restores processor contexts, turns
  interrupts into events, walks page tables and offers a C library. On it stands the kernel: the
  memory manager (\<open>pmm.c\<close>: a buddy allocator, \<open>tbma.c\<close>, for whole pages and a slab allocator, \<open>slab.c\<close>,
  for small blocks), threads, semaphores and the scheduler (\<open>kmt.c\<close>), the trap dispatcher (\<open>os.c\<close>), processes
  with demand paging and system calls (\<open>uproc.c\<close>), and the drivers (\<open>dev/\<close>). A trap enters
  \<open>os_trap\<close>, which calls the handlers in the order of their numbers: the first saves the context of the current
  task, the last picks the next one, and between them come the handlers of \<open>uproc.c\<close>. Every part takes its
  memory from \<open>pmm\<close> and protects its data with the nested spin locks of \<open>kmt.c\<close>.

  \<^bold>\<open>How C is modelled.\<close> \<open>JYY_Prelude\<close> fixes the widths of the integers (words, with wrap-around; an
  \<open>int\<close> is an integer whose overflow is written out where it can happen) and the result type: a value or a
  failure (\<open>Panic\<close>, \<open>Assert\<close>, \<open>Undefined\<close> for undefined behaviour such as a null pointer or an index out of
  range, \<open>Hang\<close> for a loop or a spin that never ends). A struct is a record, a pointer to one is its
  address in a map of the state or, where the code keeps a list and nothing else refers to the nodes, an entry of
  a list; shared words of memory (page tables, the bytes behind C strings) are maps from addresses. State is passed
  explicitly. Definitions carry the names of the C functions; one with a name that HOL has taken, or one that
  stands for a part of a function (a loop, a critical section), has a name of its own.

  \<^bold>\<open>The theories.\<close>

  \<^item> \<open>Lock_Align\<close>: \<open>kernel/src/lock.c\<close>. The exchange lock as a routine and as a step relation of
    several CPUs (mutual exclusion by rule induction), and the alignment helpers.
  \<^item> \<open>Buddy_Tree\<close>, \<open>Buddy_System\<close>: \<open>tbma.c\<close> and \<open>cbma.h\<close>. One tree of block sizes in an array, and the table
    of trees with their locks. \<open>Buddy_Refine\<close> reads the array as a binary tree and shows that each operation
    refines one on trees; \<open>Buddy_Spec\<close> has the invariant and the set of blocks handed out; \<open>Buddy_Props\<close>
    start-up, the interface \<open>block_allocator\<close> and its interpretation by \<open>bbma_alloc\<close> and \<open>bbma_free\<close>.
  \<^item> \<open>Slab\<close>: \<open>slab.c\<close> and \<open>pmm.c\<close>. \<open>Slab_Spec\<close> has the invariant of the pages and their free lists;
    \<open>Pmm\<close> the set of ranges a client holds, the interface \<open>memory_manager\<close> and its interpretation by \<open>kalloc\<close>
    and \<open>kfree\<close>, and what \<open>pmm_init\<close> sets up. \<open>Palloc\<close> gives the same facts for the allocator as the kernel calls it.
  \<^item> \<open>Klib_String\<close>, \<open>Klib_Stdio\<close>: \<open>klib/src/string.c\<close>, \<open>stdlib.c\<close>, \<open>stdio.c\<close>. Every function, over bytes in memory.
  \<^item> \<open>Cte\<close>: \<open>cte.c\<close> of the machine layer: contexts, events, gates, resumption.
  \<^item> \<open>Kernel_State\<close>: \<open>os.h\<close>, \<open>task.c\<close> and the locks of \<open>kmt.c\<close> with \<open>push_off\<close> and \<open>pop_off\<close>.
    \<open>Kmt\<close>: the rest of \<open>kmt.c\<close>. \<open>Kmt_Sched\<close>: the system of all CPUs, whose steps are whole traps, its invariant
    and its consequences; \<open>Kmt_Sem\<close>: the semaphores against an abstract counting semaphore (\<open>counting_semaphore\<close>).
  \<^item> \<open>Trap\<close>: \<open>os_on_irq\<close> and \<open>os_trap\<close> of \<open>os.c\<close>, with the interface \<open>ordered_registry\<close> of sorted handlers.
  \<^item> \<open>Page_Table\<close>: \<open>vme.c\<close>. \<open>Pt_Tree\<close> reads the tables as a tree of pages in memory and shows what a change of one
    word does to it; \<open>Pt_Spec\<close> states the contract: the tables implement a map from pages to entries, which
    \<open>protect\<close> makes empty and \<open>map_page\<close> (\<open>map\<close>) changes at one page.
  \<^item> \<open>Vm_Area\<close>: process numbers, areas, mapped pages and \<open>kmmap\<close> of \<open>uproc.c\<close>; \<open>Uproc\<close>: fork, wait, kill, exit,
    sleep, page faults, system calls and start-up. \<open>Vm_Props\<close> has the properties of areas and of single calls, \<open>Pf_Props\<close>
    demand paging, which rests on the memory manager, the page tables, the areas and the locks together.
  \<^item> \<open>Ring\<close>: arrays with wrapping indices as lists, and the interface \<open>fifo\<close> of a queue, interpreted by the
    queues of the keyboard (\<open>Dev_Input\<close>) and of the consoles (\<open>Tty_Line\<close>).
  \<^item> \<open>Dev_Input\<close>, \<open>Dev_Video\<close>, \<open>Dev_Tty\<close>, \<open>Dev_Sd\<close>, \<open>Devices\<close>: the files of \<open>dev/\<close>. \<open>Tty_Line\<close> has the path of
    a line from the keys to the reader, \<open>Tty_Screen\<close> the screen as a plain terminal.
  \<^item> \<open>Frecov\<close> and \<open>Fatree\<close>: two programs that read FAT32 images, on the bytes of the image.
  \<^item> \<open>Plcs\<close>: the longest common subsequence, serial and with workers that meet at a barrier, as a step
    relation. \<open>Plcs_Serial\<close> shows that the serial worker is right, \<open>Plcs_Par\<close> that the parts of the workers cover every
    diagonal, \<open>Plcs_Barrier\<close> the invariant of the barrier, and \<open>Plcs_Fill\<close> that every run ends, without
    waiting for ever, with the result of the serial worker.
  \<^item> \<open>Pstree\<close>: the tree of processes from the files of \<open>/proc\<close>.

  \<^bold>\<open>What the lemmas show.\<close> Memory: ranges handed out never overlap, an allocation is large enough and
  aligned, a release takes back what was handed out and nothing else, and the errors of both. Threads: no task
  runs on two CPUs, a trap resumes a task that may run, semaphores admit no more than their value, locks nest and
  give the interrupt state back. Virtual memory: a refinement of maps, the first free range for \<open>mmap\<close>, one new
  entry for a page fault. Drivers: queues in order, lines read as typed, drawing inside the screen, transfers of any
  range equal to those of a flat disk. Host programs: equivalence of serial and parallel, agreement of two ways to find a cluster,
  round trips of names, termination.

  \<^bold>\<open>Bounds and fuel.\<close> Loops over lists and arrays are structural recursions over what is left. The walk over
  the pages of a slab list has the fuel \<open>SLAB_FUEL\<close>, above the \<open>32 * 4096\<close> pages that 32 trees can hold, and ends
  earlier on every list the invariant admits. \<open>copy_kernel\<close> has 512, of which the kernel's area needs one;
  the scheduler's search is bounded by ten times the number of tasks as in the code; the loops of the disk driver
  have one round more than the bytes of the transfer, and a read of a line as many as the queue has places, which the
  theorems show to be enough. A directory of an image has one round per entry and two more, enough by
  \<open>frecov_terminates\<close>; the fuel of \<open>dfs\<close> and of \<open>tree_print\<close>, which need not end in the code, is an
  argument, and the theorems say how much is enough. \<open>ksleep\<close> is a \<open>partial_function\<close> over the readings of the
  timer. The number of CPUs is at most 8, as in the code; the theorems on areas assume user addresses below
  \<open>2 ^ 62\<close>, far above the end of the user's area.

  \<^bold>\<open>Atomicity.\<close> A critical section under a lock is one step of the systems of several CPUs, and a trap is one step of the
  scheduler's. In \<open>Plcs\<close> filling one cell is a step, and so is every operation on an atomic variable; a loop that waits
  makes no step while its condition is false. A routine that takes a lock that is held fails with \<open>Hang\<close>.

  \<^bold>\<open>Parameters.\<close> The disk, the font, the timer, what \<open>malloc\<close> leaves in a block, the files of \<open>/proc\<close>, \<open>fopen\<close> and
  \<open>popen\<close> are arguments of the definitions that use them.

  \<^bold>\<open>Not modelled.\<close> \<open>klib/src/int64.c\<close> (library routines for 32-bit machines that the 64-bit build does not call) and \<open>cpp.c\<close> (empty
  stubs); the targets native and nemu of the machine layer; its start-up, interrupt controllers, clocks and port I/O
  on QEMU, the boot loader and all assembler, whose meaning is that of the hardware; tests and the debugging
  tasks of \<open>os.c\<close>, which are not compiled by default; the user programs; \<open>crepl\<close> and \<open>sperf\<close>, which mostly drive
  processes of the host; and the copy of the sources under \<open>src/.shadow\<close>. In \<open>plcs.c\<close> the worker \<open>Tworker_cache_para\<close>, which nothing starts, is left out.
\<close>

end
